(* ===== verification/FS_Prelude.thy ===== *)
theory FS_Prelude
  imports Main "HOL-Library.Word"
begin

text \<open>
  Shared vocabulary of the development: machine types, the status codes of the core library, the
  faults a C program can run into (a failed assertion, a NULL dereference, an access outside an
  object, the use of an indeterminate pointer, a call of \<open>abort\<close>), checked reads and writes of byte memory, \<open>size_t\<close> arithmetic with its
  wrap-around, C string functions of the standard library, and the generic lemmas about them.
  The contracts shared by several components (an operation system with an invariant) are the
  locales at the end.
\<close>

unbundle bit_operations_syntax

named_theorems c_simps \<open>unfolding rules for faults, binds and memory accesses\<close>
named_theorems wf_intros \<open>preservation of the components' invariants\<close>

section \<open>Machine types, status codes, faults\<close>

type_synonym u8 = "8 word"
type_synonym u16 = "16 word"
type_synonym u32 = "32 word"
type_synonym u64 = "64 word"

datatype switch_status_t =
    SWITCH_STATUS_SUCCESS | SWITCH_STATUS_FALSE | SWITCH_STATUS_TIMEOUT | SWITCH_STATUS_RESTART
  | SWITCH_STATUS_INTR | SWITCH_STATUS_NOTIMPL | SWITCH_STATUS_MEMERR | SWITCH_STATUS_NOOP
  | SWITCH_STATUS_RESAMPLE | SWITCH_STATUS_GENERR | SWITCH_STATUS_INUSE | SWITCH_STATUS_BREAK
  | SWITCH_STATUS_SOCKERR | SWITCH_STATUS_MORE_DATA | SWITCH_STATUS_NOTFOUND
  | SWITCH_STATUS_UNLOAD | SWITCH_STATUS_NOUNLOAD | SWITCH_STATUS_IGNORE
  | SWITCH_STATUS_TOO_SMALL | SWITCH_STATUS_FOUND | SWITCH_STATUS_CONTINUE | SWITCH_STATUS_TERM
  | SWITCH_STATUS_NOT_INITALIZED | SWITCH_STATUS_XBREAK | SWITCH_STATUS_WINBREAK

text \<open>
  A fault is where the C program stops or leaves the language's rules: it is a value of the model,
  so a theorem that an operation returns \<open>Inr\<close> says that it neither aborts nor touches memory
  outside its objects.
\<close>

datatype c_fault = Assertion_Failed | Null_Deref | Out_Of_Bounds | Wild_Pointer | Abort_Called

type_synonym 'a c = "c_fault + 'a"

definition bindE :: "'a c \<Rightarrow> ('a \<Rightarrow> 'b c) \<Rightarrow> 'b c" where
  "bindE m f = (case m of Inl e \<Rightarrow> Inl e | Inr x \<Rightarrow> f x)"

lemma bindE_simps [simp, c_simps]: "bindE (Inl e) f = Inl e" "bindE (Inr x) f = f x"
  by (simp_all add: bindE_def)

lemma bindE_eq_Inr: "bindE m f = Inr y \<longleftrightarrow> (\<exists>x. m = Inr x \<and> f x = Inr y)"
  by (cases m) auto

definition assertE :: "bool \<Rightarrow> unit c" where
  "assertE p = (if p then Inr () else Inl Assertion_Failed)"

lemma assertE_simps [simp, c_simps]: "assertE True = Inr ()" "assertE False = Inl Assertion_Failed"
  by (simp_all add: assertE_def)

section \<open>Byte memory\<close>

definition mem_read :: "'a list \<Rightarrow> nat \<Rightarrow> nat \<Rightarrow> 'a list c" where
  "mem_read m off n = (if off + n \<le> length m then Inr (take n (drop off m)) else Inl Out_Of_Bounds)"

definition mem_write :: "'a list \<Rightarrow> nat \<Rightarrow> 'a list \<Rightarrow> 'a list c" where
  "mem_write m off bs =
     (if off + length bs \<le> length m then Inr (take off m @ bs @ drop (off + length bs) m)
      else Inl Out_Of_Bounds)"

lemma mem_read_ok [c_simps]: "off + n \<le> length m \<Longrightarrow> mem_read m off n = Inr (take n (drop off m))"
  by (simp add: mem_read_def)

lemma mem_write_ok [c_simps]:
  "off + length bs \<le> length m \<Longrightarrow> mem_write m off bs = Inr (take off m @ bs @ drop (off + length bs) m)"
  by (simp add: mem_write_def)

lemma take_drop_snoc:
  assumes "h + u \<le> length m"
  shows "take (u + length bs) (drop h (take (h + u) m @ bs @ rest)) = take u (drop h m) @ bs"
proof -
  have "drop h (take (h + u) m @ bs @ rest) = take u (drop h m) @ bs @ rest"
    using assms by (simp add: drop_take)
  moreover have "length (take u (drop h m)) = u" using assms by simp
  ultimately show ?thesis by simp
qed

section \<open>size_t arithmetic\<close>

text \<open>
  \<open>size_t\<close> is 64 bits wide; sums and differences wrap. No object of the C heap is larger than
  \<open>PTRDIFF_MAX\<close>, which is what keeps the sums the code forms below the wrap.
\<close>

definition size_mod :: nat where "size_mod = 2 ^ 64"

definition object_max :: nat where "object_max = 2 ^ 63"

definition size_add :: "nat \<Rightarrow> nat \<Rightarrow> nat" where
  "size_add a b = (a + b) mod size_mod"

definition size_sub :: "nat \<Rightarrow> nat \<Rightarrow> nat" where
  "size_sub a b = (a + size_mod - b) mod size_mod"

lemma object_max_less: "object_max + object_max \<le> size_mod" "0 < object_max" "0 < size_mod"
  by (simp_all add: object_max_def size_mod_def)

lemma size_add_small: "a + b < size_mod \<Longrightarrow> size_add a b = a + b"
  by (simp add: size_add_def)

lemma size_sub_small:
  assumes "b \<le> a" and "a < size_mod"
  shows "size_sub a b = a - b"
proof -
  have "a + size_mod - b = (a - b) + size_mod" using assms by simp
  then have "size_sub a b = (a - b) mod size_mod" by (simp only: size_sub_def mod_add_self2)
  then show ?thesis using assms by simp
qed

lemma size_sub_wraps:
  assumes "a < b" and "b \<le> size_mod"
  shows "size_sub a b = size_mod + a - b"
  using assms by (simp add: size_sub_def add.commute)

lemma unat_Suc_less:
  fixes x y :: "'a :: len word"
  assumes "x < y"
  shows "unat (x + 1) = Suc (unat x)"
proof -
  have "Suc (unat x) \<le> unat y" using assms by (simp add: word_less_nat_alt)
  also have "unat y < 2 ^ LENGTH('a)" by (rule unsigned_less)
  finally have "Suc (unat x) < 2 ^ LENGTH('a)" .
  then show ?thesis by (simp add: unat_word_ariths(1))
qed

lemma unat_pred:
  fixes x :: "'a :: len word"
  assumes "0 < unat x"
  shows "unat (x - 1) = unat x - 1"
  using assms by (simp add: unat_minus_one unat_gt_0)

section \<open>C strings\<close>

text \<open>
  A C string is the list of its characters before the terminating NUL. The library functions below
  are the ones of the C locale.
\<close>

definition ascii_lower :: "char \<Rightarrow> char" where
  "ascii_lower c = (if 65 \<le> (of_char c :: nat) \<and> (of_char c :: nat) \<le> 90
                    then char_of ((of_char c :: nat) + 32) else c)"

definition strcasecmp_eq :: "string \<Rightarrow> string \<Rightarrow> bool" where
  "strcasecmp_eq s t \<longleftrightarrow> map ascii_lower s = map ascii_lower t"

lemma strcasecmp_eq_refl [simp]: "strcasecmp_eq s s"
  by (simp add: strcasecmp_eq_def)

lemma strcasecmp_eq_sym: "strcasecmp_eq s t = strcasecmp_eq t s"
  by (auto simp: strcasecmp_eq_def)

lemma strcasecmp_eq_trans: "strcasecmp_eq s t \<Longrightarrow> strcasecmp_eq t u \<Longrightarrow> strcasecmp_eq s u"
  by (simp add: strcasecmp_eq_def)

text \<open>The hash of strings up to case that headers and task groups carry, \<^verbatim>\<open>src/src/lib/libfreeswitch/switch_apr.c\<close>.\<close>

definition switch_ci_hashfunc_default :: "string \<Rightarrow> u32" where
  "switch_ci_hashfunc_default key = fold (\<lambda>ch h. h * 33 + of_nat (of_char (ascii_lower ch))) key 0"

section \<open>Contracts shared by the components\<close>

text \<open>
  A component whose operations keep an invariant: the invariant then holds after every sequence of
  operations that does not fault, and where the operations cannot fault under it, no sequence does.
\<close>

fun run_ops :: "('o \<Rightarrow> 's \<Rightarrow> 's c) \<Rightarrow> 'o list \<Rightarrow> 's \<Rightarrow> 's c" where
  "run_ops step [] s = Inr s"
| "run_ops step (x # xs) s = bindE (step x s) (run_ops step xs)"

locale op_system =
  fixes step :: "'o \<Rightarrow> 's \<Rightarrow> 's c"
    and inv :: "'s \<Rightarrow> bool"
    and pre :: "'o \<Rightarrow> bool"
  assumes step_inv: "inv s \<Longrightarrow> pre x \<Longrightarrow> \<exists>s'. step x s = Inr s' \<and> inv s'"
begin

lemma run_inv:
  assumes "inv s" and "\<forall>x \<in> set xs. pre x"
  shows "\<exists>s'. run_ops step xs s = Inr s' \<and> inv s'"
  using assms
proof (induction xs arbitrary: s)
  case (Cons x xs)
  then obtain t where "step x s = Inr t" and "inv t" using step_inv [of s x] by auto
  with Cons show ?case by simp
qed simp

end

end
