(* ===== verification/FS_Buffer.thy ===== *)
theory FS_Buffer
  imports FS_Prelude
begin

text \<open>
  The byte buffer of \<^verbatim>\<open>src/src/lib/libfreeswitch/switch_buffer.c\<close>: a block of memory with a read
  position (\<open>head\<close>), the number of unread bytes (\<open>used\<close>) and the number of bytes between the start
  of the block and the end of the written data (\<open>actually_used\<close>). The buffer of a pool has a fixed
  size; a dynamic one grows by \<open>realloc\<close>. The abstract view is the list of unread bytes.
\<close>

section \<open>State\<close>

record switch_buffer =
  buf_data :: "u8 list option"      \<comment> \<open>\<open>None\<close> is the NULL pointer\<close>
  buf_head :: nat                   \<comment> \<open>offset of \<open>head\<close> from \<open>data\<close>\<close>
  buf_used :: nat
  buf_actually_used :: nat
  buf_datalen :: nat
  buf_max_len :: nat
  buf_blocksize :: nat
  buf_mutex :: "nat option"
  buf_flags :: u32
  buf_id :: u32
  buf_loops :: int

definition SWITCH_BUFFER_FLAG_DYNAMIC :: u32 where
  "SWITCH_BUFFER_FLAG_DYNAMIC = 1"

definition buf_dynamic :: "switch_buffer \<Rightarrow> bool" where
  "buf_dynamic b \<longleftrightarrow> buf_flags b AND SWITCH_BUFFER_FLAG_DYNAMIC \<noteq> 0"

section \<open>Operations\<close>

text \<open>
  Pool memory is zeroed and a failed pool allocation is an assertion failure. The success of each
  allocation is an argument, and so is the byte \<open>junk\<close> found in memory that was not initialised.
\<close>

definition switch_core_alloc :: "bool \<Rightarrow> nat \<Rightarrow> u8 list c" where
  "switch_core_alloc ok n = bindE (assertE ok) (\<lambda>_. Inr (replicate n 0))"

definition switch_buffer_create ::
    "bool \<Rightarrow> bool \<Rightarrow> u32 \<Rightarrow> nat \<Rightarrow> (switch_status_t \<times> switch_buffer option \<times> u32) c" where
  "switch_buffer_create struct_ok data_ok buffer_id max_len =
     bindE (assertE struct_ok) (\<lambda>_.
     bindE (switch_core_alloc data_ok max_len) (\<lambda>mem.
       Inr (SWITCH_STATUS_SUCCESS,
            Some \<lparr>buf_data = Some mem, buf_head = 0, buf_used = 0, buf_actually_used = 0,
                  buf_datalen = max_len, buf_max_len = 0, buf_blocksize = 0, buf_mutex = None,
                  buf_flags = 0, buf_id = buffer_id, buf_loops = 0\<rparr>,
            buffer_id + 1)))"

definition switch_buffer_create_dynamic ::
    "bool \<Rightarrow> bool \<Rightarrow> u32 \<Rightarrow> nat \<Rightarrow> nat \<Rightarrow> nat \<Rightarrow> switch_status_t \<times> switch_buffer option \<times> u32" where
  "switch_buffer_create_dynamic struct_ok data_ok buffer_id blocksize start_len max_len =
     (if \<not> struct_ok then (SWITCH_STATUS_MEMERR, None, buffer_id)
      else if start_len \<noteq> 0 \<and> \<not> data_ok then (SWITCH_STATUS_MEMERR, None, buffer_id)
      else
        (SWITCH_STATUS_SUCCESS,
         Some \<lparr>buf_data = (if start_len \<noteq> 0 then Some (replicate start_len 0) else None),
               buf_head = 0, buf_used = 0, buf_actually_used = 0,
               buf_datalen = start_len, buf_max_len = max_len, buf_blocksize = blocksize,
               buf_mutex = None, buf_flags = 0 OR SWITCH_BUFFER_FLAG_DYNAMIC, buf_id = buffer_id,
               buf_loops = 0\<rparr>,
         buffer_id + 1))"

text \<open>The mutex operations of the threading library are arguments acting on a world \<open>'w\<close>.\<close>

definition switch_buffer_add_mutex :: "switch_buffer \<Rightarrow> nat \<Rightarrow> switch_buffer" where
  "switch_buffer_add_mutex b m = b\<lparr>buf_mutex := Some m\<rparr>"

definition switch_buffer_lock :: "(nat \<Rightarrow> 'w \<Rightarrow> switch_status_t \<times> 'w) \<Rightarrow> switch_buffer \<Rightarrow> 'w \<Rightarrow> 'w" where
  "switch_buffer_lock mutex_lock b w =
     (case buf_mutex b of Some m \<Rightarrow> snd (mutex_lock m w) | None \<Rightarrow> w)"

definition switch_buffer_trylock ::
    "(nat \<Rightarrow> 'w \<Rightarrow> switch_status_t \<times> 'w) \<Rightarrow> switch_buffer \<Rightarrow> 'w \<Rightarrow> switch_status_t \<times> 'w" where
  "switch_buffer_trylock mutex_lock b w =
     (case buf_mutex b of Some m \<Rightarrow> mutex_lock m w | None \<Rightarrow> (SWITCH_STATUS_FALSE, w))"

definition switch_buffer_unlock :: "(nat \<Rightarrow> 'w \<Rightarrow> switch_status_t \<times> 'w) \<Rightarrow> switch_buffer \<Rightarrow> 'w \<Rightarrow> 'w" where
  "switch_buffer_unlock mutex_unlock b w =
     (case buf_mutex b of Some m \<Rightarrow> snd (mutex_unlock m w) | None \<Rightarrow> w)"

definition switch_buffer_len :: "switch_buffer \<Rightarrow> nat" where
  "switch_buffer_len b = buf_datalen b"

definition switch_buffer_freespace :: "switch_buffer \<Rightarrow> nat" where
  "switch_buffer_freespace b =
     (if buf_dynamic b then
        (if buf_max_len b \<noteq> 0 then size_sub (buf_max_len b) (buf_used b) else 1000000)
      else size_sub (buf_datalen b) (buf_used b))"

definition switch_buffer_inuse :: "switch_buffer \<Rightarrow> nat" where
  "switch_buffer_inuse b = buf_used b"

definition switch_buffer_toss :: "switch_buffer \<Rightarrow> nat \<Rightarrow> nat \<times> switch_buffer" where
  "switch_buffer_toss b datalen =
     (if buf_used b < 1 then (0, b\<lparr>buf_used := 0\<rparr>)
      else
        let reading = (if buf_used b \<ge> datalen then datalen else buf_used b);
            b' = b\<lparr>buf_used := buf_used b - reading, buf_head := buf_head b + reading\<rparr>
        in (buf_used b', b'))"

definition switch_buffer_set_loops :: "switch_buffer \<Rightarrow> int \<Rightarrow> switch_buffer" where
  "switch_buffer_set_loops b loops = b\<lparr>buf_loops := loops\<rparr>"

text \<open>
  \<open>memcpy\<close> from the buffer's memory: NULL and reads past the block are faults. The bytes copied to
  the caller's \<open>data\<close> are the first component of the result; their number is the return value.
\<close>

definition buf_copy_out :: "switch_buffer \<Rightarrow> nat \<Rightarrow> u8 list c" where
  "buf_copy_out b reading =
     (case buf_data b of None \<Rightarrow> Inl Null_Deref | Some mem \<Rightarrow> mem_read mem (buf_head b) reading)"

definition switch_buffer_read :: "switch_buffer \<Rightarrow> nat \<Rightarrow> (u8 list \<times> switch_buffer) c" where
  "switch_buffer_read b datalen =
     (if buf_used b < 1 then Inr ([], b\<lparr>buf_used := 0\<rparr>)
      else
        let reading = (if buf_used b \<ge> datalen then datalen else buf_used b)
        in bindE (buf_copy_out b reading) (\<lambda>bs.
             Inr (bs, b\<lparr>buf_used := buf_used b - reading, buf_head := buf_head b + reading\<rparr>)))"

definition switch_buffer_peek :: "switch_buffer \<Rightarrow> nat \<Rightarrow> (u8 list \<times> switch_buffer) c" where
  "switch_buffer_peek b datalen =
     (if buf_used b < 1 then Inr ([], b\<lparr>buf_used := 0\<rparr>)
      else
        let reading = (if buf_used b \<ge> datalen then datalen else buf_used b)
        in bindE (buf_copy_out b reading) (\<lambda>bs. Inr (bs, b)))"

text \<open>The pointer \<open>peek_zerocopy\<close> hands out is the offset of \<open>head\<close>; it is not set when empty.\<close>

definition switch_buffer_peek_zerocopy :: "switch_buffer \<Rightarrow> nat \<times> nat option \<times> switch_buffer" where
  "switch_buffer_peek_zerocopy b =
     (if buf_used b < 1 then (0, None, b\<lparr>buf_used := 0\<rparr>) else (buf_used b, Some (buf_head b), b))"

definition switch_buffer_read_loop :: "switch_buffer \<Rightarrow> nat \<Rightarrow> (u8 list \<times> switch_buffer) c" where
  "switch_buffer_read_loop b datalen =
     bindE (switch_buffer_read b datalen) (\<lambda>(bs, b1).
       if bs \<noteq> [] then Inr (bs, b1)
       else
         let b2 = (if buf_loops b1 > 0 then b1\<lparr>buf_loops := buf_loops b1 - 1\<rparr> else b1)
         in if buf_loops b2 = 0 then Inr ([], b2)
            else switch_buffer_read (b2\<lparr>buf_head := 0, buf_used := buf_actually_used b2\<rparr>) datalen)"

text \<open>The three stages of \<open>switch_buffer_write\<close>: compaction, growth, copy.\<close>

definition buf_compact :: "switch_buffer \<Rightarrow> u8 list \<Rightarrow> nat \<Rightarrow> switch_buffer c" where
  "buf_compact b mem datalen =
     (if size_sub (buf_datalen b) (buf_actually_used b) < datalen then
        bindE (mem_read mem (buf_head b) (buf_used b)) (\<lambda>bs.
        bindE (mem_write mem 0 bs) (\<lambda>mem'.
          Inr (b\<lparr>buf_data := Some mem', buf_head := 0, buf_actually_used := buf_used b\<rparr>)))
      else Inr b)"

text \<open>\<open>Inr b\<close> goes on with \<open>b\<close>; \<open>Inl b\<close> is the return of 0 when \<open>realloc\<close> fails.\<close>

definition buf_grow :: "bool \<Rightarrow> u8 \<Rightarrow> switch_buffer \<Rightarrow> nat \<Rightarrow> switch_buffer + switch_buffer" where
  "buf_grow realloc_ok junk b datalen =
     (if buf_dynamic b \<and> size_sub (buf_datalen b) (buf_used b) < datalen \<and>
         (buf_max_len b = 0 \<or> size_add (buf_used b) datalen \<le> buf_max_len b)
      then
        let new_size0 = size_add (buf_datalen b) datalen;
            new_block_size = size_add (buf_datalen b) (buf_blocksize b);
            new_size = (if new_block_size > new_size0 then new_block_size else new_size0);
            mem = the (buf_data b)
        in if realloc_ok \<and> new_size < object_max
           then Inr (b\<lparr>buf_data := Some (take new_size (mem @ replicate (new_size - length mem) junk)),
                       buf_head := 0, buf_datalen := new_size\<rparr>)
           else Inl (b\<lparr>buf_head := 0\<rparr>)
      else Inr b)"

definition switch_buffer_write ::
    "bool \<Rightarrow> u8 \<Rightarrow> switch_buffer \<Rightarrow> u8 list \<Rightarrow> (nat \<times> switch_buffer) c" where
  "switch_buffer_write realloc_ok junk b bs =
     (case buf_data b of
        None \<Rightarrow> Inl Assertion_Failed
      | Some mem \<Rightarrow>
          if length bs = 0 then Inr (buf_used b, b)
          else bindE (buf_compact b mem (length bs)) (\<lambda>b1.
            case buf_grow realloc_ok junk b1 (length bs) of
              Inl b2 \<Rightarrow> Inr (0, b2)
            | Inr b2 \<Rightarrow>
                if size_sub (buf_datalen b2) (buf_used b2) < length bs then Inr (0, b2)
                else bindE (mem_write (the (buf_data b2)) (buf_head b2 + buf_used b2) bs) (\<lambda>mem'.
                  let b3 = b2\<lparr>buf_data := Some mem',
                              buf_used := size_add (buf_used b2) (length bs),
                              buf_actually_used := size_add (buf_actually_used b2) (length bs)\<rparr>
                  in Inr (buf_used b3, b3))))"

definition switch_buffer_zero :: "switch_buffer \<Rightarrow> switch_buffer c" where
  "switch_buffer_zero b =
     (case buf_data b of None \<Rightarrow> Inl Assertion_Failed
      | Some _ \<Rightarrow> Inr (b\<lparr>buf_used := 0, buf_actually_used := 0, buf_head := 0\<rparr>))"

definition switch_buffer_zwrite ::
    "bool \<Rightarrow> u8 \<Rightarrow> switch_buffer \<Rightarrow> u8 list \<Rightarrow> (nat \<times> switch_buffer) c" where
  "switch_buffer_zwrite realloc_ok junk b bs =
     bindE (switch_buffer_write realloc_ok junk b bs) (\<lambda>(w, b1).
       if w = 0 then bindE (switch_buffer_zero b1) (\<lambda>b2. switch_buffer_write realloc_ok junk b2 bs)
       else Inr (w, b1))"

definition switch_buffer_slide_write ::
    "bool \<Rightarrow> u8 \<Rightarrow> switch_buffer \<Rightarrow> u8 list \<Rightarrow> (nat \<times> switch_buffer) c" where
  "switch_buffer_slide_write realloc_ok junk b bs =
     bindE (switch_buffer_write realloc_ok junk b bs) (\<lambda>(w, b1).
       if w = 0 then switch_buffer_write realloc_ok junk (snd (switch_buffer_toss b1 (length bs))) bs
       else Inr (w, b1))"

text \<open>
  \<open>switch_buffer_destroy\<close> frees a dynamic buffer's block and structure and clears the caller's
  pointer; the pieces of heap it frees are the second component (\<open>True\<close> for the data block).
\<close>

definition switch_buffer_destroy :: "switch_buffer option \<Rightarrow> switch_buffer option \<times> bool list" where
  "switch_buffer_destroy bo =
     (case bo of None \<Rightarrow> (None, [])
      | Some b \<Rightarrow> (None, if buf_dynamic b then (if buf_data b \<noteq> None then [True] else []) @ [False] else []))"

section \<open>Invariant and abstraction\<close>

definition buf_wf :: "switch_buffer \<Rightarrow> bool" where
  "buf_wf b \<longleftrightarrow> (\<exists>m. buf_data b = Some m \<and> length m = buf_datalen b) \<and>
     buf_head b + buf_used b = buf_actually_used b \<and> buf_actually_used b \<le> buf_datalen b \<and>
     buf_datalen b < object_max"

definition buf_bytes :: "switch_buffer \<Rightarrow> u8 list" where
  "buf_bytes b = take (buf_used b) (drop (buf_head b) (the (buf_data b)))"

definition buf_grown :: "switch_buffer \<Rightarrow> nat \<Rightarrow> nat" where
  "buf_grown b n = max (buf_datalen b + n) (size_add (buf_datalen b) (buf_blocksize b))"

definition buf_fits :: "bool \<Rightarrow> switch_buffer \<Rightarrow> nat \<Rightarrow> bool" where
  "buf_fits realloc_ok b n \<longleftrightarrow> buf_used b + n \<le> buf_datalen b \<or>
     buf_dynamic b \<and> (buf_max_len b = 0 \<or> buf_used b + n \<le> buf_max_len b) \<and>
     realloc_ok \<and> buf_grown b n < object_max"

lemma buf_wfE:
  assumes "buf_wf b"
  obtains m where "buf_data b = Some m" "length m = buf_datalen b"
    "buf_head b + buf_used b = buf_actually_used b" "buf_actually_used b \<le> buf_datalen b"
    "buf_datalen b < object_max" "buf_used b \<le> buf_datalen b" "buf_datalen b < size_mod"
proof -
  have "buf_used b \<le> buf_datalen b" "buf_datalen b < size_mod"
    using assms object_max_less by (auto simp: buf_wf_def)
  with assms that show ?thesis by (auto simp: buf_wf_def)
qed

lemma length_buf_bytes: "buf_wf b \<Longrightarrow> length (buf_bytes b) = buf_used b"
  by (elim buf_wfE) (simp add: buf_bytes_def)

lemma buf_dynamic_upd [simp]:
  "buf_dynamic (b\<lparr>buf_data := x\<rparr>) = buf_dynamic b" "buf_dynamic (b\<lparr>buf_head := h\<rparr>) = buf_dynamic b"
  "buf_dynamic (b\<lparr>buf_used := u\<rparr>) = buf_dynamic b"
  "buf_dynamic (b\<lparr>buf_actually_used := u\<rparr>) = buf_dynamic b"
  "buf_dynamic (b\<lparr>buf_datalen := u\<rparr>) = buf_dynamic b" "buf_dynamic (b\<lparr>buf_loops := l\<rparr>) = buf_dynamic b"
  by (simp_all add: buf_dynamic_def)

subsection \<open>Reading\<close>

lemma switch_buffer_read_spec:
  assumes "buf_wf b"
  shows "\<exists>b'. switch_buffer_read b n = Inr (take n (buf_bytes b), b') \<and> buf_wf b' \<and>
           buf_bytes b' = drop n (buf_bytes b) \<and>
           b' = b\<lparr>buf_used := buf_used b - n, buf_head := buf_head b + min n (buf_used b)\<rparr>"
proof -
  obtain m where m: "buf_data b = Some m" "length m = buf_datalen b"
    "buf_head b + buf_used b = buf_actually_used b" "buf_actually_used b \<le> buf_datalen b"
    "buf_datalen b < object_max" "buf_used b \<le> buf_datalen b"
    using assms by (rule buf_wfE)
  let ?r = "min n (buf_used b)"
  let ?b = "b\<lparr>buf_used := buf_used b - n, buf_head := buf_head b + ?r\<rparr>"
  have wf: "buf_wf ?b" using m by (auto simp: buf_wf_def)
  have bytes: "buf_bytes ?b = drop n (buf_bytes b)"
    using m by (auto simp: buf_bytes_def drop_take min_def add.commute)
  have rd: "switch_buffer_read b n = Inr (take n (buf_bytes b), ?b)"
  proof (cases "buf_used b = 0")
    case True
    then have "?b = b" "b\<lparr>buf_used := 0\<rparr> = b" by simp_all
    with True show ?thesis by (simp add: switch_buffer_read_def buf_bytes_def)
  next
    case False
    with m show ?thesis
      by (auto simp: switch_buffer_read_def buf_copy_out_def mem_read_def buf_bytes_def Let_def min_def)
  qed
  show ?thesis using wf bytes rd by blast
qed

lemma switch_buffer_peek_spec:
  assumes "buf_wf b"
  shows "switch_buffer_peek b n = Inr (take n (buf_bytes b), b)"
proof (cases "buf_used b = 0")
  case True
  then have "b\<lparr>buf_used := 0\<rparr> = b" by simp
  with True show ?thesis by (simp add: switch_buffer_peek_def buf_bytes_def)
next
  case False
  with assms show ?thesis
    by (auto elim!: buf_wfE simp: switch_buffer_peek_def buf_copy_out_def mem_read_def buf_bytes_def
        Let_def min_def)
qed

lemma switch_buffer_toss_spec:
  assumes "buf_wf b"
  shows "buf_wf (snd (switch_buffer_toss b n))"
    and "buf_bytes (snd (switch_buffer_toss b n)) = drop n (buf_bytes b)"
    and "fst (switch_buffer_toss b n) = buf_used b - n"
proof -
  have "switch_buffer_toss b n =
      (buf_used b - n, b\<lparr>buf_used := buf_used b - n, buf_head := buf_head b + min n (buf_used b)\<rparr>)"
    by (auto simp: switch_buffer_toss_def Let_def min_def)
  with switch_buffer_read_spec [OF assms, of n]
  show "buf_wf (snd (switch_buffer_toss b n))"
    and "buf_bytes (snd (switch_buffer_toss b n)) = drop n (buf_bytes b)"
    and "fst (switch_buffer_toss b n) = buf_used b - n" by auto
qed

subsection \<open>Writing\<close>

lemma buf_compact_spec:
  assumes "buf_wf b" and "buf_data b = Some m"
  shows "\<exists>b'. buf_compact b m n = Inr b' \<and> buf_wf b' \<and> buf_bytes b' = buf_bytes b \<and>
           buf_used b' = buf_used b \<and> buf_datalen b' = buf_datalen b \<and>
           buf_max_len b' = buf_max_len b \<and> buf_blocksize b' = buf_blocksize b \<and>
           buf_dynamic b' = buf_dynamic b \<and>
           (buf_datalen b - buf_actually_used b < n \<longrightarrow> buf_head b' = 0) \<and>
           (n \<le> buf_datalen b - buf_actually_used b \<longrightarrow> b' = b)"
proof (cases "size_sub (buf_datalen b) (buf_actually_used b) < n")
  case True
  let ?m = "take (buf_used b) (drop (buf_head b) m) @ drop (buf_used b) m"
  let ?b = "b\<lparr>buf_data := Some ?m, buf_head := 0, buf_actually_used := buf_used b\<rparr>"
  from assms True have "buf_compact b m n = Inr ?b"
    by (auto elim!: buf_wfE simp: buf_compact_def mem_read_def mem_write_def)
  moreover from assms have "buf_wf ?b" by (auto simp: buf_wf_def)
  moreover from assms have "buf_bytes ?b = buf_bytes b" by (auto elim!: buf_wfE simp: buf_bytes_def)
  moreover have "\<not> n \<le> buf_datalen b - buf_actually_used b"
    using True assms by (auto elim!: buf_wfE simp: size_sub_small)
  ultimately show ?thesis by auto
next
  case False
  with assms show ?thesis by (auto elim!: buf_wfE simp: buf_compact_def size_sub_small)
qed

text \<open>
  Growth. When it fails the call returns 0 at once; when it succeeds the block has the grown size
  and the unread bytes are where they were, at its start.
\<close>

lemma buf_grow_new_size:
  assumes "buf_wf b" and "n < object_max"
  shows "(if size_add (buf_datalen b) n < size_add (buf_datalen b) (buf_blocksize b)
          then size_add (buf_datalen b) (buf_blocksize b) else size_add (buf_datalen b) n) = buf_grown b n"
proof -
  have "buf_datalen b + n < size_mod" using assms object_max_less by (auto elim!: buf_wfE)
  then have "size_add (buf_datalen b) n = buf_datalen b + n" by (rule size_add_small)
  then show ?thesis by (simp add: buf_grown_def)
qed

definition buf_wants_growth :: "switch_buffer \<Rightarrow> nat \<Rightarrow> bool" where
  "buf_wants_growth b n \<longleftrightarrow> buf_dynamic b \<and> buf_datalen b - buf_used b < n \<and>
     (buf_max_len b = 0 \<or> buf_used b + n \<le> buf_max_len b)"

lemma buf_grow_unfold:
  assumes "buf_wf b" and "buf_data b = Some m" and "n < object_max"
  shows "buf_grow realloc_ok junk b n =
     (if buf_wants_growth b n then
        (if realloc_ok \<and> buf_grown b n < object_max
         then Inr (b\<lparr>buf_data := Some (m @ replicate (buf_grown b n - length m) junk), buf_head := 0,
                     buf_datalen := buf_grown b n\<rparr>)
         else Inl (b\<lparr>buf_head := 0\<rparr>))
      else Inr b)"
proof -
  have len: "length m = buf_datalen b" and le: "buf_used b \<le> buf_datalen b" "buf_datalen b < object_max"
    using assms by (auto elim!: buf_wfE)
  have "length m \<le> buf_grown b n" by (simp add: buf_grown_def len)
  then have tk: "take (buf_grown b n) (m @ replicate (buf_grown b n - length m) junk) =
      m @ replicate (buf_grown b n - length m) junk" by simp
  have sub: "size_sub (buf_datalen b) (buf_used b) = buf_datalen b - buf_used b"
    using le object_max_less by (intro size_sub_small) auto
  have add: "size_add (buf_used b) n = buf_used b + n"
    using le assms(3) object_max_less by (intro size_add_small) auto
  show ?thesis
    unfolding buf_grow_def buf_wants_growth_def sub add Let_def assms(2) option.sel
      buf_grow_new_size [OF assms(1,3)] tk by (rule refl)
qed

lemma buf_grow_spec:
  assumes "buf_wf b" and "buf_data b = Some m" and "n < object_max"
    and "buf_datalen b - buf_used b < n \<longrightarrow> buf_head b = 0"
  shows "case buf_grow realloc_ok junk b n of
           Inl b' \<Rightarrow> buf_wf b' \<and> buf_bytes b' = buf_bytes b \<and> \<not> buf_fits realloc_ok b n
         | Inr b' \<Rightarrow> buf_wf b' \<and> buf_bytes b' = buf_bytes b \<and> buf_used b' = buf_used b \<and>
             (n \<le> buf_datalen b' - buf_used b' \<longleftrightarrow> buf_fits realloc_ok b n) \<and>
             (b' = b \<or> buf_head b' = 0)"
proof (cases "buf_wants_growth b n")
  case False
  with assms show ?thesis
    by (auto simp: buf_grow_unfold buf_wants_growth_def buf_fits_def elim!: buf_wfE)
next
  case True
  let ?g = "buf_grown b n"
  have len: "length m = buf_datalen b" and used: "buf_used b \<le> buf_datalen b"
    using assms by (auto elim!: buf_wfE)
  have hd0: "buf_head b = 0" and lt: "buf_datalen b - buf_used b < n"
    using True assms(4) by (auto simp: buf_wants_growth_def)
  have g: "length m \<le> ?g" "buf_used b + n \<le> ?g"
    using used by (simp_all add: buf_grown_def len)
  show ?thesis
  proof (cases "realloc_ok \<and> ?g < object_max")
    case True
    let ?b = "b\<lparr>buf_data := Some (m @ replicate (?g - length m) junk), buf_head := 0, buf_datalen := ?g\<rparr>"
    have "buf_wf ?b" using assms(1) True g hd0 used by (auto simp: buf_wf_def)
    moreover have "buf_bytes ?b = buf_bytes b"
      using used len assms(2) hd0 by (simp add: buf_bytes_def)
    moreover have "n \<le> ?g - buf_used b" using g by simp
    moreover have "buf_fits realloc_ok b n"
      using True \<open>buf_wants_growth b n\<close> by (simp add: buf_fits_def buf_wants_growth_def)
    ultimately show ?thesis
      using True \<open>buf_wants_growth b n\<close> by (simp add: buf_grow_unfold [OF assms(1-3)])
  next
    case False
    moreover have "b\<lparr>buf_head := 0\<rparr> = b" using hd0 by simp
    moreover have "\<not> buf_fits realloc_ok b n" using False lt used by (auto simp: buf_fits_def)
    ultimately show ?thesis
      using \<open>buf_wants_growth b n\<close> assms(1) by (auto simp: buf_grow_unfold [OF assms(1-3)])
  qed
qed

lemma buf_copy_in_spec:
  assumes "buf_wf b" and "length bs \<le> buf_datalen b - buf_used b"
    and "buf_head b + buf_used b + length bs \<le> buf_datalen b"
  shows "\<exists>mem'. mem_write (the (buf_data b)) (buf_head b + buf_used b) bs = Inr mem' \<and>
     (let b' = b\<lparr>buf_data := Some mem', buf_used := size_add (buf_used b) (length bs),
                 buf_actually_used := size_add (buf_actually_used b) (length bs)\<rparr>
      in buf_wf b' \<and> buf_bytes b' = buf_bytes b @ bs \<and> buf_used b' = buf_used b + length bs)"
proof -
  obtain m where m: "buf_data b = Some m" "length m = buf_datalen b"
    "buf_head b + buf_used b = buf_actually_used b" "buf_datalen b < object_max" "buf_datalen b < size_mod"
    using assms(1) by (rule buf_wfE)
  let ?m = "take (buf_head b + buf_used b) m @ bs @ drop (buf_head b + buf_used b + length bs) m"
  have w: "mem_write m (buf_head b + buf_used b) bs = Inr ?m"
    using assms(3) m by (simp add: mem_write_ok)
  have a: "size_add (buf_used b) (length bs) = buf_used b + length bs"
    "size_add (buf_actually_used b) (length bs) = buf_actually_used b + length bs"
    using m assms(3) by (auto intro!: size_add_small)
  have "take (buf_used b + length bs) (drop (buf_head b) ?m) = take (buf_used b) (drop (buf_head b) m) @ bs"
    using m assms(3) by (intro take_drop_snoc) simp
  then show ?thesis
    using w a m assms(3) by (auto simp: buf_wf_def buf_bytes_def Let_def)
qed

lemma switch_buffer_write_spec:
  assumes wf: "buf_wf b" and len: "length bs < object_max" and ne: "bs \<noteq> []"
  shows "\<exists>b'. switch_buffer_write realloc_ok junk b bs =
           Inr (if buf_fits realloc_ok b (length bs) then buf_used b + length bs else 0, b') \<and> buf_wf b' \<and>
           buf_bytes b' = (if buf_fits realloc_ok b (length bs) then buf_bytes b @ bs else buf_bytes b)"
proof -
  let ?n = "length bs"
  obtain m where m: "buf_data b = Some m" using wf by (rule buf_wfE)
  obtain b1 where c: "buf_compact b m ?n = Inr b1" "buf_wf b1" "buf_bytes b1 = buf_bytes b"
      "buf_used b1 = buf_used b" "buf_datalen b1 = buf_datalen b" "buf_max_len b1 = buf_max_len b"
      "buf_blocksize b1 = buf_blocksize b" "buf_dynamic b1 = buf_dynamic b"
      "buf_datalen b - buf_actually_used b < ?n \<longrightarrow> buf_head b1 = 0"
      "?n \<le> buf_datalen b - buf_actually_used b \<longrightarrow> b1 = b"
    using buf_compact_spec [OF wf m, of ?n] by blast
  have fits: "buf_fits realloc_ok b1 ?n = buf_fits realloc_ok b ?n"
    using c by (simp add: buf_fits_def buf_grown_def)
  obtain m1 where m1: "buf_data b1 = Some m1" using c(2) by (rule buf_wfE)
  have hd1: "buf_head b1 = 0 \<or> buf_head b1 + buf_used b1 + ?n \<le> buf_datalen b1"
    using c wf by (cases "buf_datalen b - buf_actually_used b < ?n") (auto elim!: buf_wfE)
  have hd0: "buf_datalen b1 - buf_used b1 < ?n \<longrightarrow> buf_head b1 = 0" using hd1 by auto
  note g = buf_grow_spec [OF c(2) m1 len hd0, of realloc_ok junk]
  show ?thesis
  proof (cases "buf_grow realloc_ok junk b1 ?n")
    case (Inl b2)
    with g fits c m ne show ?thesis by (simp add: switch_buffer_write_def)
  next
    case (Inr b2)
    with g fits c have b2: "buf_wf b2" "buf_bytes b2 = buf_bytes b" "buf_used b2 = buf_used b"
        "?n \<le> buf_datalen b2 - buf_used b2 \<longleftrightarrow> buf_fits realloc_ok b ?n" "b2 = b1 \<or> buf_head b2 = 0"
      by auto
    have sub: "size_sub (buf_datalen b2) (buf_used b2) = buf_datalen b2 - buf_used b2"
      using b2(1) by (auto elim!: buf_wfE intro!: size_sub_small)
    show ?thesis
    proof (cases "buf_fits realloc_ok b ?n")
      case False
      with b2 sub Inr c m ne show ?thesis by (simp add: switch_buffer_write_def)
    next
      case True
      then have room: "?n \<le> buf_datalen b2 - buf_used b2" using b2 by simp
      moreover have "0 < ?n" using ne by simp
      ultimately have "buf_used b2 + ?n \<le> buf_datalen b2" by linarith
      then have "buf_head b2 + buf_used b2 + ?n \<le> buf_datalen b2" using b2(5) hd1 by auto
      then show ?thesis
        using buf_copy_in_spec [OF b2(1) room] True room b2 sub Inr c m ne
        by (auto simp: switch_buffer_write_def Let_def)
    qed
  qed
qed

text \<open>A write never changes the size of a fixed buffer.\<close>

lemma buf_compact_frame:
  "buf_compact b m n = Inr b' \<Longrightarrow> buf_datalen b' = buf_datalen b \<and> buf_dynamic b' = buf_dynamic b"
  by (auto simp: buf_compact_def bindE_eq_Inr split: if_splits)

lemma buf_grow_fixed: "\<not> buf_dynamic b \<Longrightarrow> buf_grow ok junk b n = Inr b"
  by (simp add: buf_grow_def)

lemma switch_buffer_write_fixed:
  assumes w: "switch_buffer_write ok junk b bs = Inr (w, b')" and fixed: "\<not> buf_dynamic b"
  shows "buf_datalen b' = buf_datalen b"
proof (cases "bs = []")
  case True
  with w show ?thesis by (auto simp: switch_buffer_write_def split: option.splits)
next
  case False
  with w obtain m b1 where c: "buf_data b = Some m" "buf_compact b m (length bs) = Inr b1"
    by (auto simp: switch_buffer_write_def bindE_eq_Inr split: option.splits)
  note f = buf_compact_frame [OF c(2)]
  have "buf_grow ok junk b1 (length bs) = Inr b1" using f fixed by (intro buf_grow_fixed) simp
  with w c False f show ?thesis
    by (auto simp: switch_buffer_write_def bindE_eq_Inr Let_def split: if_splits)
qed

lemma switch_buffer_write_Nil:
  "buf_wf b \<Longrightarrow> switch_buffer_write realloc_ok junk b [] = Inr (buf_used b, b)"
  by (auto simp: switch_buffer_write_def elim!: buf_wfE)

lemma switch_buffer_zero_spec:
  assumes "buf_wf b"
  shows "\<exists>b'. switch_buffer_zero b = Inr b' \<and> buf_wf b' \<and> buf_bytes b' = [] \<and> buf_used b' = 0 \<and>
           buf_datalen b' = buf_datalen b \<and> buf_dynamic b' = buf_dynamic b"
  using assms by (auto simp: switch_buffer_zero_def buf_wf_def buf_bytes_def)

section \<open>The contract of a byte queue\<close>

text \<open>
  What the users of a buffer (the media bugs, the file and TTS readers, the resampler) rely on: a
  write either appends all its bytes and returns the new fill level, or appends none and returns 0;
  a read takes a prefix. \<open>fifo_run\<close> runs a sequence of writes and reads and collects the bytes that
  were accepted and the bytes that were delivered.
\<close>

datatype fifo_op = Put bool u8 "u8 list" | Get nat

fun fifo_run :: "(bool \<Rightarrow> u8 \<Rightarrow> 'b \<Rightarrow> u8 list \<Rightarrow> (nat \<times> 'b) c) \<Rightarrow> ('b \<Rightarrow> nat \<Rightarrow> (u8 list \<times> 'b) c) \<Rightarrow>
    fifo_op list \<Rightarrow> 'b \<Rightarrow> (u8 list \<times> u8 list \<times> 'b) c" where
  "fifo_run put get [] b = Inr ([], [], b)"
| "fifo_run put get (Put ok junk bs # ops) b =
     bindE (put ok junk b bs) (\<lambda>(w, b1).
     bindE (fifo_run put get ops b1) (\<lambda>(acc, del, b2).
       Inr ((if w = 0 then [] else bs) @ acc, del, b2)))"
| "fifo_run put get (Get n # ops) b =
     bindE (get b n) (\<lambda>(bs, b1).
     bindE (fifo_run put get ops b1) (\<lambda>(acc, del, b2). Inr (acc, bs @ del, b2)))"

fun fifo_op_ok :: "fifo_op \<Rightarrow> bool" where
  "fifo_op_ok (Put ok junk bs) = (length bs < object_max)"
| "fifo_op_ok (Get n) = True"

locale byte_fifo =
  fixes wf :: "'b \<Rightarrow> bool"
    and contents :: "'b \<Rightarrow> u8 list"
    and put :: "bool \<Rightarrow> u8 \<Rightarrow> 'b \<Rightarrow> u8 list \<Rightarrow> (nat \<times> 'b) c"
    and get :: "'b \<Rightarrow> nat \<Rightarrow> (u8 list \<times> 'b) c"
  assumes put_law: "wf b \<Longrightarrow> length bs < object_max \<Longrightarrow>
      \<exists>w b'. put ok junk b bs = Inr (w, b') \<and> wf b' \<and>
        contents b' = contents b @ (if w = 0 then [] else bs) \<and>
        (w \<noteq> 0 \<longrightarrow> w = length (contents b'))"
    and get_law: "wf b \<Longrightarrow> \<exists>b'. get b n = Inr (take n (contents b), b') \<and> wf b' \<and>
        contents b' = drop n (contents b)"
begin

lemma fifo_conserves:
  assumes "wf b" and "\<forall>x \<in> set ops. fifo_op_ok x"
  shows "\<exists>acc del b'. fifo_run put get ops b = Inr (acc, del, b') \<and> wf b' \<and>
           del @ contents b' = contents b @ acc"
  using assms
proof (induction ops arbitrary: b)
  case (Cons x ops)
  show ?case
  proof (cases x)
    case (Put ok junk bs)
    with Cons.prems obtain w b1 where w: "put ok junk b bs = Inr (w, b1)" "wf b1"
        "contents b1 = contents b @ (if w = 0 then [] else bs)"
      using put_law [of b bs ok junk] by auto
    with Cons obtain acc del b2 where "fifo_run put get ops b1 = Inr (acc, del, b2)" "wf b2"
        "del @ contents b2 = contents b1 @ acc" by (metis list.set_intros(2))
    with w Put show ?thesis by simp
  next
    case (Get n)
    obtain b1 where g: "get b n = Inr (take n (contents b), b1)" "wf b1"
        "contents b1 = drop n (contents b)" using get_law Cons.prems by blast
    with Cons obtain acc del b2 where "fifo_run put get ops b1 = Inr (acc, del, b2)" "wf b2"
        "del @ contents b2 = contents b1 @ acc" by (metis list.set_intros(2))
    moreover have "take n (contents b) @ drop n (contents b) @ acc = contents b @ acc"
      by (simp flip: append_assoc)
    ultimately show ?thesis using g Get by simp
  qed
qed simp

end

lemma switch_buffer_write_fifo:
  assumes "buf_wf b" and "length bs < object_max"
  shows "\<exists>w b'. switch_buffer_write ok junk b bs = Inr (w, b') \<and> buf_wf b' \<and>
     buf_bytes b' = buf_bytes b @ (if w = 0 then [] else bs) \<and> (w \<noteq> 0 \<longrightarrow> w = length (buf_bytes b'))"
proof (cases "bs = []")
  case True
  with assms show ?thesis by (simp add: switch_buffer_write_Nil length_buf_bytes)
next
  case False
  obtain b' where b': "switch_buffer_write ok junk b bs =
      Inr (if buf_fits ok b (length bs) then buf_used b + length bs else 0, b')" "buf_wf b'"
      "buf_bytes b' = (if buf_fits ok b (length bs) then buf_bytes b @ bs else buf_bytes b)"
    using switch_buffer_write_spec [OF assms False] by blast
  with assms(1) False show ?thesis by (cases "buf_fits ok b (length bs)") (auto simp: length_buf_bytes)
qed

interpretation sb: byte_fifo buf_wf buf_bytes switch_buffer_write switch_buffer_read
proof
  fix b junk ok and bs :: "u8 list"
  assume "buf_wf b" "length bs < object_max"
  then show "\<exists>w b'. switch_buffer_write ok junk b bs = Inr (w, b') \<and> buf_wf b' \<and>
     buf_bytes b' = buf_bytes b @ (if w = 0 then [] else bs) \<and> (w \<noteq> 0 \<longrightarrow> w = length (buf_bytes b'))"
    by (rule switch_buffer_write_fifo)
next
  fix b n
  assume "buf_wf b"
  then show "\<exists>b'. switch_buffer_read b n = Inr (take n (buf_bytes b), b') \<and> buf_wf b' \<and>
      buf_bytes b' = drop n (buf_bytes b)"
    using switch_buffer_read_spec by blast
qed

section \<open>Properties\<close>

text \<open>C4. Any sequence of writes and reads on a well-formed buffer runs without a fault (no assertion
  fails, no access leaves the block), keeps the buffer well-formed, and is a FIFO: the bytes
  delivered so far followed by the bytes still buffered are the bytes buffered at the start followed
  by the bytes of the accepted writes, whatever the allocator does.\<close>

theorem buffer_fifo:
  assumes "buf_wf b" and "\<forall>x \<in> set ops. fifo_op_ok x"
  shows "\<exists>acc del b'. fifo_run switch_buffer_write switch_buffer_read ops b = Inr (acc, del, b') \<and>
           buf_wf b' \<and> del @ buf_bytes b' = buf_bytes b @ acc"
  using assms by (rule sb.fifo_conserves)

definition demo_buffer :: switch_buffer where
  "demo_buffer = \<lparr>buf_data = Some [1, 2, 3, 0], buf_head = 1, buf_used = 2, buf_actually_used = 3,
     buf_datalen = 4, buf_max_len = 0, buf_blocksize = 0, buf_mutex = None, buf_flags = 0, buf_id = 0,
     buf_loops = 0\<rparr>"

lemma demo_buffer_wf: "buf_wf demo_buffer"
  by (simp add: buf_wf_def demo_buffer_def object_max_def)

theorem buffer_fifo_witness:
  "\<exists>acc del b'. fifo_run switch_buffer_write switch_buffer_read [Put True 0 [9, 8], Get 3] demo_buffer =
     Inr (acc, del, b') \<and> buf_wf b' \<and> del @ buf_bytes b' = [2, 3] @ acc"
  using buffer_fifo [OF demo_buffer_wf, of "[Put True 0 [9, 8], Get 3]"]
  by (simp add: object_max_def) (simp add: buf_bytes_def demo_buffer_def)

text \<open>C21. A write of at least one byte succeeds exactly when the bytes fit the block as it is, or the
  buffer is dynamic, stays within its limit and the allocator provides the grown block. It then
  appends all its bytes and returns the new fill level; otherwise it returns 0 and the unread bytes
  are what they were.\<close>

theorem buffer_write_outcome:
  assumes "buf_wf b" and "length bs < object_max" and "bs \<noteq> []"
  shows "\<exists>b'. switch_buffer_write realloc_ok junk b bs =
           Inr (if buf_fits realloc_ok b (length bs) then buf_used b + length bs else 0, b') \<and> buf_wf b' \<and>
           buf_bytes b' = (if buf_fits realloc_ok b (length bs) then buf_bytes b @ bs else buf_bytes b)"
  using assms by (rule switch_buffer_write_spec)

theorem buffer_write_outcome_witness:
  "\<exists>b'. switch_buffer_write False 0 demo_buffer [7, 7] = Inr (4, b') \<and> buf_bytes b' = [2, 3, 7, 7]"
  using buffer_write_outcome [OF demo_buffer_wf, of "[7, 7]" False 0]
  by (simp add: object_max_def buf_fits_def) (auto simp: buf_bytes_def demo_buffer_def)

text \<open>C24. A slide write of \<open>n\<close> bytes into a fixed buffer of at least \<open>n\<close> bytes always succeeds: it
  keeps all unread bytes when there is room and otherwise drops exactly the \<open>n\<close> oldest, and the new
  bytes are the newest of the buffer.\<close>

theorem buffer_slide_write:
  assumes wf: "buf_wf b" and fixed: "\<not> buf_dynamic b" and n: "length bs \<le> buf_datalen b" "bs \<noteq> []"
  shows "\<exists>w b'. switch_buffer_slide_write ok junk b bs = Inr (w, b') \<and> buf_wf b' \<and>
     buf_bytes b' = (if buf_used b + length bs \<le> buf_datalen b then buf_bytes b
                     else drop (length bs) (buf_bytes b)) @ bs \<and> w = length (buf_bytes b')"
proof -
  have lim: "length bs < object_max" using n wf by (auto elim!: buf_wfE)
  let ?fits = "buf_used b + length bs \<le> buf_datalen b"
  have fits: "buf_fits ok b (length bs) = ?fits" using fixed by (simp add: buf_fits_def)
  obtain b1 where b1: "switch_buffer_write ok junk b bs =
      Inr (if ?fits then buf_used b + length bs else 0, b1)" "buf_wf b1"
      "buf_bytes b1 = (if ?fits then buf_bytes b @ bs else buf_bytes b)"
    using switch_buffer_write_spec [OF wf lim n(2), of ok junk] unfolding fits by blast
  show ?thesis
  proof (cases ?fits)
    case True
    with b1 n wf show ?thesis by (auto simp: switch_buffer_slide_write_def length_buf_bytes)
  next
    case False
    let ?t = "snd (switch_buffer_toss b1 (length bs))"
    have t: "buf_wf ?t" "buf_bytes ?t = drop (length bs) (buf_bytes b)"
      using switch_buffer_toss_spec [OF b1(2)] b1 False by auto
    have tu: "buf_used ?t = buf_used b - length bs"
      using t length_buf_bytes [OF t(1)] length_buf_bytes [OF wf] by simp
    have td: "buf_datalen ?t = buf_datalen b"
      using switch_buffer_write_fixed [OF b1(1) fixed] by (simp add: switch_buffer_toss_def Let_def)
    have "buf_fits ok ?t (length bs)" using tu td n wf by (auto simp: buf_fits_def elim!: buf_wfE)
    then obtain b2 where "switch_buffer_write ok junk ?t bs = Inr (buf_used ?t + length bs, b2)"
        "buf_wf b2" "buf_bytes b2 = buf_bytes ?t @ bs"
      using switch_buffer_write_spec [OF t(1) lim n(2), of ok junk] by auto
    with t b1 False show ?thesis
      by (auto simp: switch_buffer_slide_write_def length_buf_bytes simp flip: length_buf_bytes)
  qed
qed

theorem buffer_slide_write_witness:
  "\<exists>w b'. switch_buffer_slide_write True 0 demo_buffer [5, 6, 7] = Inr (w, b') \<and> buf_bytes b' = [5, 6, 7]"
proof -
  have "\<not> buf_dynamic demo_buffer" "length [5, 6, 7::u8] \<le> buf_datalen demo_buffer"
    by (simp_all add: buf_dynamic_def demo_buffer_def SWITCH_BUFFER_FLAG_DYNAMIC_def)
  from buffer_slide_write [OF demo_buffer_wf this, of True 0] show ?thesis
    by (auto simp: demo_buffer_def buf_bytes_def)
qed

subsection \<open>Looping reads\<close>

fun loop_reads :: "nat \<Rightarrow> nat \<Rightarrow> switch_buffer \<Rightarrow> (u8 list list \<times> switch_buffer) c" where
  "loop_reads 0 n b = Inr ([], b)"
| "loop_reads (Suc k) n b =
     bindE (switch_buffer_read_loop b n) (\<lambda>(bs, b1).
     bindE (loop_reads k n b1) (\<lambda>(bss, b2). Inr (bs # bss, b2)))"

text \<open>The pieces in which a string of bytes is delivered to requests of \<open>n\<close> bytes.\<close>

function chunks :: "nat \<Rightarrow> u8 list \<Rightarrow> u8 list list" where
  "chunks n xs = (if n = 0 \<or> xs = [] then [] else take n xs # chunks n (drop n xs))"
  by pat_completeness auto
termination by (relation "measure (\<lambda>(n, xs). length xs)") auto

declare chunks.simps [simp del]

text \<open>What the buffer holds from the start of its memory, the part already read included.\<close>

definition buf_stored :: "switch_buffer \<Rightarrow> u8 list" where
  "buf_stored b = take (buf_actually_used b) (the (buf_data b))"

text \<open>
  The unread bytes, then one more delivery of everything stored for each loop left after the first; \<open>m\<close>
  deliveries stand for the endless ones of a negative count.
\<close>

definition loop_stream :: "nat \<Rightarrow> u8 list \<Rightarrow> u8 list \<Rightarrow> int \<Rightarrow> nat \<Rightarrow> u8 list list" where
  "loop_stream n whole unread loops m =
     chunks n unread @ concat (replicate (if loops < 0 then m else nat (loops - 1)) (chunks n whole))"

definition padded :: "nat \<Rightarrow> u8 list list \<Rightarrow> u8 list list" where
  "padded j xs = take j xs @ replicate (j - length xs) []"

lemma padded_Suc [simp]:
  "padded (Suc j) (x # xs) = x # padded j xs" "padded (Suc j) [] = [] # padded j []" "padded 0 xs = []"
  by (simp_all add: padded_def)

lemma buf_rewind:
  assumes "buf_wf b"
  shows "buf_wf (b\<lparr>buf_head := 0, buf_used := buf_actually_used b\<rparr>)"
    and "buf_bytes (b\<lparr>buf_head := 0, buf_used := buf_actually_used b\<rparr>) = buf_stored b"
  using assms by (auto simp: buf_wf_def buf_bytes_def buf_stored_def)

lemma read_loop_unread:
  assumes "buf_wf b" and "buf_bytes b \<noteq> []" and "n \<noteq> 0"
  shows "\<exists>b'. switch_buffer_read_loop b n = Inr (take n (buf_bytes b), b') \<and> buf_wf b' \<and>
     buf_bytes b' = drop n (buf_bytes b) \<and> buf_stored b' = buf_stored b \<and> buf_loops b' = buf_loops b"
proof -
  obtain b' where "switch_buffer_read b n = Inr (take n (buf_bytes b), b')" "buf_wf b'" "buf_bytes b' = drop n (buf_bytes b)"
      "b' = b\<lparr>buf_used := buf_used b - n, buf_head := buf_head b + min n (buf_used b)\<rparr>"
    using switch_buffer_read_spec [OF assms(1), of n] by blast
  then show ?thesis using assms(2,3) by (simp add: switch_buffer_read_loop_def buf_stored_def)
qed

lemma read_loop_spent:
  assumes wf: "buf_wf b" and "buf_bytes b = []" and l: "l = (if buf_loops b > 0 then buf_loops b - 1 else buf_loops b)"
  shows "\<exists>b'. switch_buffer_read_loop b n = Inr (if l = 0 then [] else take n (buf_stored b), b') \<and> buf_wf b' \<and>
     buf_bytes b' = (if l = 0 then [] else drop n (buf_stored b)) \<and> buf_stored b' = buf_stored b \<and> buf_loops b' = l"
proof -
  have "buf_used b = 0" using assms length_buf_bytes [OF wf] by simp
  then have rd: "switch_buffer_read b n = Inr ([], b)" by (simp add: switch_buffer_read_def)
  define b2 where "b2 = (if buf_loops b > 0 then b\<lparr>buf_loops := buf_loops b - 1\<rparr> else b)"
  have b2: "buf_wf b2" "buf_stored b2 = buf_stored b" "buf_loops b2 = l" "buf_bytes b2 = []"
    using assms by (auto simp: b2_def buf_wf_def buf_stored_def buf_bytes_def)
  have eq: "switch_buffer_read_loop b n =
      (if l = 0 then Inr ([], b2) else switch_buffer_read (b2\<lparr>buf_head := 0, buf_used := buf_actually_used b2\<rparr>) n)"
    using rd b2(3) by (simp add: switch_buffer_read_loop_def Let_def flip: b2_def)
  show ?thesis
  proof (cases "l = 0")
    case True
    then show ?thesis using eq b2 by simp
  next
    case False
    let ?b = "b2\<lparr>buf_head := 0, buf_used := buf_actually_used b2\<rparr>"
    obtain b' where b': "switch_buffer_read ?b n = Inr (take n (buf_bytes ?b), b')" "buf_wf b'" "buf_bytes b' = drop n (buf_bytes ?b)"
        "b' = ?b\<lparr>buf_used := buf_used ?b - n, buf_head := buf_head ?b + min n (buf_used ?b)\<rparr>"
      using switch_buffer_read_spec [OF buf_rewind(1) [OF b2(1)], of n] by blast
    have "buf_stored b' = buf_stored b2" "buf_loops b' = l" using b2(3) unfolding b'(4) by (simp_all add: buf_stored_def)
    then show ?thesis using eq False b2(2) b'(1-3) unfolding buf_rewind(2) [OF b2(1)] by auto
  qed
qed

lemma loop_stream_spent:
  assumes "n \<noteq> 0" and "0 < m" and l: "l' = (if l > 0 then l - 1 else l)"
  shows "loop_stream n D [] l m = (if l' = 0 \<or> D = [] then [] else take n D # loop_stream n D (drop n D) l' (m - 1))"
proof -
  have nil: "chunks n [] = []" by (simp add: chunks.simps)
  have D: "chunks n D = take n D # chunks n (drop n D)" if "D \<noteq> []" using that assms(1) by (simp add: chunks.simps [of n D])
  obtain k where k: "m = Suc k" using assms(2) by (cases m) auto
  consider "l < 0" | "l = 0 \<or> l = 1" | j where "nat (l - 1) = Suc j" "nat (l - 1 - 1) = j" "l > 1"
    by (cases "nat (l - 1)") (auto, linarith)
  then show ?thesis
    by cases (use l D k nil in \<open>auto simp: loop_stream_def\<close>)
qed

lemma loop_stream_unread:
  assumes "n \<noteq> 0" and "R \<noteq> []"
  shows "loop_stream n D R l m = take n R # loop_stream n D (drop n R) l m"
  using assms by (simp add: loop_stream_def chunks.simps [of n R])

lemma loop_reads_stream:
  assumes n: "n \<noteq> 0"
  shows "buf_wf b \<Longrightarrow> j \<le> m \<Longrightarrow>
     \<exists>b'. loop_reads j n b = Inr (padded j (loop_stream n (buf_stored b) (buf_bytes b) (buf_loops b) m), b')"
proof (induction j arbitrary: b m)
  case (Suc j)
  show ?case
  proof (cases "buf_bytes b = []")
    case False
    obtain b1 where b1: "switch_buffer_read_loop b n = Inr (take n (buf_bytes b), b1)" "buf_wf b1"
        "buf_bytes b1 = drop n (buf_bytes b)" "buf_stored b1 = buf_stored b" "buf_loops b1 = buf_loops b"
      using read_loop_unread [OF Suc.prems(1) False n] by blast
    from Suc.IH [OF b1(2), of m] Suc.prems(2) show ?thesis
      using b1 loop_stream_unread [OF n False, of "buf_stored b" "buf_loops b" m] by auto
  next
    case True
    define l where "l = (if buf_loops b > 0 then buf_loops b - 1 else buf_loops b)"
    let ?D = "buf_stored b"
    obtain b1 where b1: "switch_buffer_read_loop b n = Inr (if l = 0 then [] else take n ?D, b1)" "buf_wf b1"
        "buf_bytes b1 = (if l = 0 then [] else drop n ?D)" "buf_stored b1 = ?D" "buf_loops b1 = l"
      using read_loop_spent [OF Suc.prems(1) True l_def] by blast
    have "j \<le> m - 1" using Suc.prems(2) by simp
    from Suc.IH [OF b1(2) this] obtain b2 where
      b2: "loop_reads j n b1 = Inr (padded j (loop_stream n ?D (buf_bytes b1) l (m - 1)), b2)" unfolding b1(4,5) by blast
    have "loop_stream n ?D (buf_bytes b1) l (m - 1) = []" if "l = 0 \<or> ?D = []"
      using that b1(3) by (auto simp: loop_stream_def chunks.simps)
    then show ?thesis
      using b1(1,3) b2 loop_stream_spent [OF n _ l_def, of m ?D] True Suc.prems(2) by auto
  qed
qed simp

text \<open>
  C25. \<open>switch_buffer_read_loop\<close> on a well-formed buffer, called \<open>j\<close> times with requests of any \<open>n > 0\<close> bytes: it
  delivers the unread bytes in pieces of \<open>n\<close>, then, for each of the loops set after the first, everything stored
  from the start of the memory, bytes read before included, and then nothing; with a negative
  count the deliveries of everything stored never end. A piece never crosses from one delivery into the next.
\<close>

theorem buffer_loop_count:
  assumes "buf_wf b" and "0 < n"
  shows "\<exists>b'. loop_reads j n b = Inr (padded j (chunks n (buf_bytes b) @
     concat (replicate (if buf_loops b < 0 then j else nat (buf_loops b - 1)) (chunks n (buf_stored b)))), b')"
  using loop_reads_stream [of n b j j] assms by (simp add: loop_stream_def)

theorem buffer_loop_count_witness:
  "\<exists>b'. loop_reads 5 2 (demo_buffer\<lparr>buf_head := 1, buf_used := 2, buf_loops := 2\<rparr>) =
     Inr ([[2, 3], [1, 2], [3], [], []], b')"
proof -
  let ?b = "demo_buffer\<lparr>buf_head := 1, buf_used := 2, buf_loops := 2\<rparr>"
  have wf: "buf_wf ?b" by (simp add: buf_wf_def demo_buffer_def object_max_def)
  have "buf_bytes ?b = [2, 3]" "buf_stored ?b = [1, 2, 3]" "buf_loops ?b = 2"
    by (simp_all add: buf_bytes_def buf_stored_def demo_buffer_def)
  then show ?thesis
    using buffer_loop_count [OF wf, of 2 5] by (simp add: padded_def chunks.simps eval_nat_numeral)
qed

subsection \<open>Limits of the interface\<close>

text \<open>
  A dynamic buffer created with a starting block larger than its limit accepts writes beyond the
  limit, and \<open>switch_buffer_freespace\<close> then wraps around instead of reporting 0.
\<close>

lemma buffer_freespace_wraps:
  "\<exists>b w b'. switch_buffer_create_dynamic True True 0 16 8 4 = (SWITCH_STATUS_SUCCESS, Some b, 1) \<and>
     switch_buffer_write True 0 b [1, 2, 3, 4, 5, 6] = Inr (w, b') \<and> w = 6 \<and>
     switch_buffer_freespace b' = 2 ^ 64 - 2"
  by (simp add: switch_buffer_create_dynamic_def switch_buffer_write_def buf_compact_def buf_grow_def
      size_sub_def size_add_def size_mod_def mem_write_def switch_buffer_freespace_def buf_dynamic_def
      SWITCH_BUFFER_FLAG_DYNAMIC_def Let_def)

text \<open>
  A dynamic buffer created with no starting block has a NULL \<open>data\<close> pointer, so that its first write
  fails the assertion instead of allocating.
\<close>

lemma buffer_dynamic_empty_aborts:
  "\<exists>b. switch_buffer_create_dynamic True True 0 16 0 64 = (SWITCH_STATUS_SUCCESS, Some b, 1) \<and>
     switch_buffer_write True 0 b [1] = Inl Assertion_Failed"
  by (simp add: switch_buffer_create_dynamic_def switch_buffer_write_def)

end
