(* ===== verification/FS_Hashtable.thy ===== *)
theory FS_Hashtable
  imports FS_Prelude "HOL-Library.Multiset"
begin

text \<open>
  The hash table of \<^verbatim>\<open>src/src/lib/libfreeswitch/switch_hashtable.c\<close> and its string-keyed front end
  \<^verbatim>\<open>switch_core_hash.c\<close>, which every registry of the core (channel private data, application flags,
  sessions, modules) is built on. A table is an array of chains; a chain is a list of entries. The
  abstract view is a finite map from canonical keys to values.
\<close>

section \<open>State\<close>

text \<open>
  A \<open>void *\<close> value is an \<open>option\<close>, \<open>None\<close> being NULL; a destructor is the identity of the function
  pointer. What the table releases is recorded as a list of actions.
\<close>

record ('k, 'v) entry =
  e_k :: 'k
  e_v :: "'v option"
  e_h :: u32
  e_flags :: u32
  e_destructor :: "nat option"

datatype ('k, 'v) release = Free_Key 'k | Free_Value 'v | Call_Destructor nat "'v option"

record ('k, 'v) switch_hashtable =
  ht_tablelength :: nat
  ht_table :: "('k, 'v) entry list list"
  ht_entrycount :: u32
  ht_loadlimit :: nat
  ht_primeindex :: nat
  ht_hashfn :: "'k \<Rightarrow> u32"
  ht_eqfn :: "'k \<Rightarrow> 'k \<Rightarrow> bool"

definition HASHTABLE_FLAG_FREE_KEY :: u32 where "HASHTABLE_FLAG_FREE_KEY = 1"
definition HASHTABLE_FLAG_FREE_VALUE :: u32 where "HASHTABLE_FLAG_FREE_VALUE = 2"
definition HASHTABLE_DUP_CHECK :: u32 where "HASHTABLE_DUP_CHECK = 4"

definition primes :: "nat list" where
  "primes = [53, 97, 193, 389, 769, 1543, 3079, 6151, 12289, 24593, 49157, 98317, 196613, 393241,
     786433, 1572869, 3145739, 6291469, 12582917, 25165843, 50331653, 100663319, 201326611,
     402653189, 805306457, 1610612741]"

definition prime_table_length :: nat where "prime_table_length = length primes"

section \<open>Hashing\<close>

definition hash :: "('k, 'v) switch_hashtable \<Rightarrow> 'k \<Rightarrow> u32" where
  "hash h k =
     (let i = ht_hashfn h k;
          i = i + NOT (push_bit 9 i);
          i = i XOR (drop_bit 14 i OR push_bit 18 i);
          i = i + push_bit 4 i;
          i = i XOR (drop_bit 10 i OR push_bit 22 i)
      in i)"

definition indexFor :: "nat \<Rightarrow> u32 \<Rightarrow> nat" where
  "indexFor tablelength hashvalue = unat hashvalue mod tablelength"

text \<open>
  \<open>ceil(size * max_load_factor)\<close> in single precision: the size and the product are rounded to 24
  significant bits, ties to even; \<open>0.65f\<close> is \<open>10905190 / 2 ^ 24\<close>.
\<close>

fun bit_length :: "nat \<Rightarrow> nat" where
  "bit_length n = (if n = 0 then 0 else Suc (bit_length (n div 2)))"

declare bit_length.simps [simp del]

definition round24 :: "nat \<Rightarrow> nat" where
  "round24 n =
     (let e = bit_length n - 24 in
      if e = 0 then n
      else
        let q = n div 2 ^ e; r = n mod 2 ^ e; half = 2 ^ (e - 1)
        in (if r > half \<or> (r = half \<and> odd q) then q + 1 else q) * 2 ^ e)"

definition loadlimit_for :: "nat \<Rightarrow> nat" where
  "loadlimit_for sz = (round24 (round24 sz * 10905190) + (2 ^ 24 - 1)) div 2 ^ 24"

section \<open>Operations\<close>

fun first_prime_above :: "nat list \<Rightarrow> nat \<Rightarrow> nat \<Rightarrow> nat \<Rightarrow> nat \<times> nat" where
  "first_prime_above [] pindex minsize dflt = (pindex, dflt)"
| "first_prime_above (p # ps) pindex minsize dflt =
     (if p > minsize then (pindex, p) else first_prime_above ps (Suc pindex) minsize dflt)"

definition switch_create_hashtable ::
    "bool \<Rightarrow> bool \<Rightarrow> nat \<Rightarrow> ('k \<Rightarrow> u32) \<Rightarrow> ('k \<Rightarrow> 'k \<Rightarrow> bool) \<Rightarrow>
     (switch_status_t \<times> ('k, 'v) switch_hashtable option) c" where
  "switch_create_hashtable struct_ok table_ok minsize hashf eqf =
     (if minsize > 2 ^ 30 then Inr (SWITCH_STATUS_FALSE, None)
      else
        let (pindex, sz) = first_prime_above primes 0 minsize (primes ! 0)
        in if \<not> struct_ok \<or> \<not> table_ok then Inl Abort_Called
           else Inr (SWITCH_STATUS_SUCCESS,
                  Some \<lparr>ht_tablelength = sz, ht_table = replicate sz [], ht_entrycount = 0,
                        ht_loadlimit = loadlimit_for sz, ht_primeindex = pindex,
                        ht_hashfn = hashf, ht_eqfn = eqf\<rparr>))"

text \<open>The transfer loop of \<open>hashtable_expand\<close>: each entry is pushed on the front of its new chain.\<close>

fun hashtable_transfer ::
    "nat \<Rightarrow> ('k, 'v) entry list \<Rightarrow> ('k, 'v) entry list list \<Rightarrow> ('k, 'v) entry list list" where
  "hashtable_transfer newsize [] newtable = newtable"
| "hashtable_transfer newsize (e # es) newtable =
     (let index = indexFor newsize (e_h e)
      in hashtable_transfer newsize es (newtable[index := e # newtable ! index]))"

text \<open>
  The result is the returned int. When \<open>calloc\<close> fails but \<open>reallocarray\<close> succeeds, the code clears
  through the indeterminate pointer \<open>newtable[tablelength]\<close>: undefined behaviour.
\<close>

definition hashtable_expand ::
    "bool \<Rightarrow> bool \<Rightarrow> ('k, 'v) switch_hashtable \<Rightarrow> (int \<times> ('k, 'v) switch_hashtable) c" where
  "hashtable_expand calloc_ok realloc_ok h =
     (if ht_primeindex h = prime_table_length - 1 then Inr (0, h)
      else if prime_table_length \<le> Suc (ht_primeindex h) then Inl Out_Of_Bounds
      else
        let newsize = primes ! Suc (ht_primeindex h) in
        if calloc_ok then
          Inr (-1, h\<lparr>ht_primeindex := Suc (ht_primeindex h),
                     ht_table := hashtable_transfer newsize (concat (ht_table h)) (replicate newsize []),
                     ht_tablelength := newsize, ht_loadlimit := loadlimit_for newsize\<rparr>)
        else if realloc_ok then Inl Wild_Pointer
        else Inr (0, h))"

definition switch_hashtable_count :: "('k, 'v) switch_hashtable \<Rightarrow> u32" where
  "switch_hashtable_count h = ht_entrycount h"

text \<open>Releasing an entry, and the value pointer that is left of it.\<close>

definition entry_release :: "('k, 'v) entry \<Rightarrow> ('k, 'v) release list" where
  "entry_release e =
     (if e_flags e AND HASHTABLE_FLAG_FREE_KEY \<noteq> 0 then [Free_Key (e_k e)] else []) @
     (if e_flags e AND HASHTABLE_FLAG_FREE_VALUE \<noteq> 0
      then (case e_v e of None \<Rightarrow> [] | Some v \<Rightarrow> [Free_Value v])
      else (case e_destructor e of None \<Rightarrow> [] | Some d \<Rightarrow> [Call_Destructor d (e_v e)]))"

definition entry_remaining_value :: "('k, 'v) entry \<Rightarrow> 'v option" where
  "entry_remaining_value e =
     (if e_flags e AND HASHTABLE_FLAG_FREE_VALUE \<noteq> 0 then None
      else if e_destructor e \<noteq> None then None else e_v e)"

fun chain_remove :: "(('k, 'v) entry \<Rightarrow> bool) \<Rightarrow> ('k, 'v) entry list \<Rightarrow>
    ('k, 'v) entry option \<times> ('k, 'v) entry list" where
  "chain_remove p [] = (None, [])"
| "chain_remove p (e # es) =
     (if p e then (Some e, es) else let (r, es') = chain_remove p es in (r, e # es'))"

definition hashtable_remove_at :: "('k, 'v) switch_hashtable \<Rightarrow> 'k \<Rightarrow> u32 \<Rightarrow> nat \<Rightarrow>
    'v option \<times> ('k, 'v) release list \<times> ('k, 'v) switch_hashtable" where
  "hashtable_remove_at h k hashvalue index =
     (case chain_remove (\<lambda>e. hashvalue = e_h e \<and> ht_eqfn h k (e_k e)) (ht_table h ! index) of
        (None, _) \<Rightarrow> (None, [], h)
      | (Some e, es) \<Rightarrow>
          (entry_remaining_value e, entry_release e,
           h\<lparr>ht_table := (ht_table h)[index := es], ht_entrycount := ht_entrycount h - 1\<rparr>))"

definition switch_hashtable_insert_destructor ::
    "bool \<Rightarrow> bool \<Rightarrow> bool \<Rightarrow> ('k, 'v) switch_hashtable \<Rightarrow> 'k \<Rightarrow> 'v option \<Rightarrow> u32 \<Rightarrow> nat option \<Rightarrow>
     (int \<times> ('k, 'v) release list \<times> ('k, 'v) switch_hashtable) c" where
  "switch_hashtable_insert_destructor calloc_ok realloc_ok entry_ok h k v flags destructor =
     (let hashvalue = hash h k;
          index = indexFor (ht_tablelength h) hashvalue;
          (rel, h) = (if flags AND HASHTABLE_DUP_CHECK \<noteq> 0
                      then (case hashtable_remove_at h k hashvalue index of (_, rel, h') \<Rightarrow> (rel, h'))
                      else ([], h));
          h = h\<lparr>ht_entrycount := ht_entrycount h + 1\<rparr>
      in bindE (if ht_entrycount h > of_nat (ht_loadlimit h)
                then bindE (hashtable_expand calloc_ok realloc_ok h) (\<lambda>(_, h'). Inr h') else Inr h)
           (\<lambda>h. let index = indexFor (ht_tablelength h) hashvalue in
             if \<not> entry_ok then Inr (0, rel, h\<lparr>ht_entrycount := ht_entrycount h - 1\<rparr>)
             else
               let e = \<lparr>e_k = k, e_v = v, e_h = hashvalue, e_flags = flags, e_destructor = destructor\<rparr>
               in Inr (-1, rel, h\<lparr>ht_table := (ht_table h)[index := e # ht_table h ! index]\<rparr>)))"

definition switch_hashtable_search :: "('k, 'v) switch_hashtable \<Rightarrow> 'k \<Rightarrow> 'v option" where
  "switch_hashtable_search h k =
     (let hashvalue = hash h k;
          index = indexFor (ht_tablelength h) hashvalue
      in case find (\<lambda>e. hashvalue = e_h e \<and> ht_eqfn h k (e_k e)) (ht_table h ! index) of
           None \<Rightarrow> None | Some e \<Rightarrow> e_v e)"

definition switch_hashtable_remove ::
    "('k, 'v) switch_hashtable \<Rightarrow> 'k \<Rightarrow> 'v option \<times> ('k, 'v) release list \<times> ('k, 'v) switch_hashtable" where
  "switch_hashtable_remove h k =
     (let hashvalue = hash h k
      in hashtable_remove_at h k hashvalue (indexFor (ht_tablelength h) hashvalue))"

definition switch_hashtable_destroy :: "('k, 'v) switch_hashtable \<Rightarrow> ('k, 'v) release list" where
  "switch_hashtable_destroy h = concat (map entry_release (concat (ht_table h)))"

subsection \<open>Iteration\<close>

text \<open>
  The iterator's entry pointer is the rest of the chain from that entry on; \<open>[]\<close> is NULL. The
  result \<open>None\<close> is the end, where the iterator is freed.
\<close>

record ('k, 'v) switch_hashtable_iterator =
  it_pos :: nat
  it_e :: "('k, 'v) entry list"

function skip_empty :: "('k, 'v) switch_hashtable \<Rightarrow> nat \<Rightarrow> nat" where
  "skip_empty h pos =
     (if pos < ht_tablelength h \<and> ht_table h ! pos = [] then skip_empty h (Suc pos) else pos)"
  by pat_completeness auto
termination
  by (relation "measure (\<lambda>(h, pos). ht_tablelength h - pos)") auto

declare skip_empty.simps [simp del]

definition switch_hashtable_next :: "('k, 'v) switch_hashtable \<Rightarrow>
    ('k, 'v) switch_hashtable_iterator \<Rightarrow> ('k, 'v) switch_hashtable_iterator option" where
  "switch_hashtable_next h i =
     (if it_e i \<noteq> [] \<and> tl (it_e i) \<noteq> [] then Some (i\<lparr>it_e := tl (it_e i)\<rparr>)
      else
        let pos = skip_empty h (if it_e i \<noteq> [] then Suc (it_pos i) else it_pos i)
        in if pos \<ge> ht_tablelength h then None
           else Some \<lparr>it_pos = pos, it_e = ht_table h ! pos\<rparr>)"

text \<open>The iterator is a value here; the code allocates it, and frees it when the walk ends.\<close>

definition switch_hashtable_first_iter ::
    "('k, 'v) switch_hashtable \<Rightarrow> ('k, 'v) switch_hashtable_iterator option" where
  "switch_hashtable_first_iter h = switch_hashtable_next h \<lparr>it_pos = 0, it_e = []\<rparr>"

definition switch_hashtable_this ::
    "('k \<Rightarrow> nat) \<Rightarrow> ('k, 'v) switch_hashtable_iterator \<Rightarrow> 'k option \<times> nat \<times> 'v option" where
  "switch_hashtable_this strlen i =
     (case it_e i of [] \<Rightarrow> (None, 0, None) | e # _ \<Rightarrow> (Some (e_k e), strlen (e_k e), e_v e))"

section \<open>Invariant and abstraction\<close>

text \<open>
  \<open>canon\<close> maps a key to the representative the table's equality compares (the key itself, or its
  lower-case form). \<open>ht_str\<close> says where entries are and that no two have the same canonical key;
  \<open>ht_wf\<close> adds the counter.
\<close>

definition ht_entries :: "('k, 'v) switch_hashtable \<Rightarrow> ('k, 'v) entry list" where
  "ht_entries h = concat (ht_table h)"

definition ht_placed :: "('k, 'v) switch_hashtable \<Rightarrow> bool" where
  "ht_placed h \<longleftrightarrow> length (ht_table h) = ht_tablelength h \<and> 0 < ht_tablelength h \<and>
     (\<forall>i < ht_tablelength h. \<forall>e \<in> set (ht_table h ! i).
        e_h e = hash h (e_k e) \<and> indexFor (ht_tablelength h) (hash h (e_k e)) = i)"

definition ht_keyed :: "('k \<Rightarrow> 'c) \<Rightarrow> ('k, 'v) switch_hashtable \<Rightarrow> bool" where
  "ht_keyed canon h \<longleftrightarrow> (\<forall>a b. ht_eqfn h a b \<longleftrightarrow> canon a = canon b) \<and>
     (\<forall>a b. canon a = canon b \<longrightarrow> ht_hashfn h a = ht_hashfn h b)"

definition ht_str :: "('k \<Rightarrow> 'c) \<Rightarrow> ('k, 'v) switch_hashtable \<Rightarrow> bool" where
  "ht_str canon h \<longleftrightarrow> ht_placed h \<and> ht_keyed canon h \<and> ht_primeindex h < prime_table_length \<and>
     ht_tablelength h = primes ! ht_primeindex h \<and> distinct (map (canon \<circ> e_k) (ht_entries h))"

definition ht_wf :: "('k \<Rightarrow> 'c) \<Rightarrow> ('k, 'v) switch_hashtable \<Rightarrow> bool" where
  "ht_wf canon h \<longleftrightarrow> ht_str canon h \<and> ht_entrycount h = of_nat (length (ht_entries h))"

definition ht_map :: "('k \<Rightarrow> 'c) \<Rightarrow> ('k, 'v) switch_hashtable \<Rightarrow> 'c \<rightharpoonup> 'v option" where
  "ht_map canon h = map_of (map (\<lambda>e. (canon (e_k e), e_v e)) (ht_entries h))"

subsection \<open>Chains and arrays of chains\<close>

lemma mset_concat_update:
  assumes "i < length t"
  shows "mset (concat (t[i := xs])) + mset (t ! i) = mset (concat t) + mset xs"
proof -
  have "concat (t[i := xs]) = concat (take i t) @ xs @ concat (drop (Suc i) t)"
    using assms by (simp add: upd_conv_take_nth_drop)
  moreover have "concat t = concat (take i t) @ t ! i @ concat (drop (Suc i) t)"
    using arg_cong [OF id_take_nth_drop [OF assms], of concat] by simp
  ultimately show ?thesis by simp
qed

lemma chain_remove_None:
  "chain_remove p c = (None, c') \<Longrightarrow> c' = c \<and> (\<forall>e \<in> set c. \<not> p e)"
  by (induction c arbitrary: c') (auto split: if_splits prod.splits)

lemma chain_remove_Some:
  "chain_remove p c = (Some e, c') \<Longrightarrow> p e \<and> e \<in> set c \<and> mset c = add_mset e (mset c') \<and> set c' \<subseteq> set c"
  by (induction c arbitrary: c') (auto split: if_splits prod.splits)

lemma ht_map_Some_iff:
  assumes "distinct (map (canon \<circ> e_k) (ht_entries h))"
  shows "ht_map canon h c = Some v \<longleftrightarrow> (\<exists>e \<in> set (ht_entries h). canon (e_k e) = c \<and> e_v e = v)"
proof -
  have "distinct (map fst (map (\<lambda>e. (canon (e_k e), e_v e)) (ht_entries h)))"
    using assms by (simp add: comp_def)
  then have "ht_map canon h c = Some v \<longleftrightarrow>
      (c, v) \<in> set (map (\<lambda>e. (canon (e_k e), e_v e)) (ht_entries h))"
    unfolding ht_map_def by (rule map_of_eq_Some_iff)
  then show ?thesis by auto
qed

lemma ht_map_None_iff:
  "ht_map canon h c = None \<longleftrightarrow> (\<forall>e \<in> set (ht_entries h). canon (e_k e) \<noteq> c)"
  by (auto simp: ht_map_def map_of_eq_None_iff image_iff)

lemma ht_map_eqI:
  assumes "distinct (map (canon \<circ> e_k) (ht_entries h))" and "mset (ht_entries h) = mset (ht_entries h')"
  shows "ht_map canon h' = ht_map canon h" and "distinct (map (canon \<circ> e_k) (ht_entries h'))"
proof -
  have "mset (map (canon \<circ> e_k) (ht_entries h)) = mset (map (canon \<circ> e_k) (ht_entries h'))"
    using assms(2) by simp
  then show d: "distinct (map (canon \<circ> e_k) (ht_entries h'))"
    using assms(1) mset_eq_imp_distinct_iff by blast
  have "set (ht_entries h) = set (ht_entries h')" using assms(2) by (rule mset_eq_setD)
  then have "ht_map canon h' c = Some v \<longleftrightarrow> ht_map canon h c = Some v" for c v
    by (simp add: ht_map_Some_iff [OF d] ht_map_Some_iff [OF assms(1)])
  then show "ht_map canon h' = ht_map canon h" by (metis ext option.exhaust)
qed

lemma hash_cong: "ht_hashfn h' = ht_hashfn h \<Longrightarrow> hash h' = hash h"
  by (rule ext) (simp only: hash_def)

lemma ht_keyed_hash:
  assumes "ht_keyed canon h" and "canon a = canon b"
  shows "hash h a = hash h b"
proof -
  have "ht_hashfn h a = ht_hashfn h b" using assms unfolding ht_keyed_def by blast
  then show ?thesis by (simp only: hash_def)
qed

lemma in_entries_iff:
  assumes "ht_placed h"
  shows "e \<in> set (ht_entries h) \<longleftrightarrow> (\<exists>i < ht_tablelength h. e \<in> set (ht_table h ! i))"
proof -
  have "set (ht_table h) = (\<lambda>i. ht_table h ! i) ` {i. i < ht_tablelength h}"
    using assms by (auto simp: ht_placed_def set_conv_nth)
  then show ?thesis by (auto simp: ht_entries_def)
qed

text \<open>Only the chain of a key's own index can hold an entry for it.\<close>

lemma in_chain_iff:
  assumes "ht_str canon h" and "i = indexFor (ht_tablelength h) (hash h k)"
  shows "e \<in> set (ht_table h ! i) \<and> hash h k = e_h e \<and> ht_eqfn h k (e_k e) \<longleftrightarrow>
         e \<in> set (ht_entries h) \<and> canon (e_k e) = canon k"
proof -
  have pl: "ht_placed h" and ky: "ht_keyed canon h" using assms(1) by (auto simp: ht_str_def)
  have i: "i < ht_tablelength h" using pl assms(2) by (auto simp: ht_placed_def indexFor_def)
  show ?thesis
  proof
    assume "e \<in> set (ht_table h ! i) \<and> hash h k = e_h e \<and> ht_eqfn h k (e_k e)"
    then show "e \<in> set (ht_entries h) \<and> canon (e_k e) = canon k"
      using i ky in_entries_iff [OF pl] by (auto simp: ht_keyed_def)
  next
    assume e: "e \<in> set (ht_entries h) \<and> canon (e_k e) = canon k"
    then obtain j where j: "j < ht_tablelength h" "e \<in> set (ht_table h ! j)"
      using in_entries_iff [OF pl] by blast
    then have "e_h e = hash h (e_k e)" "indexFor (ht_tablelength h) (hash h (e_k e)) = j"
      using pl unfolding ht_placed_def by blast+
    moreover have "hash h (e_k e) = hash h k" using ky e by (auto intro: ht_keyed_hash)
    ultimately show "e \<in> set (ht_table h ! i) \<and> hash h k = e_h e \<and> ht_eqfn h k (e_k e)"
      using j assms(2) e ky by (auto simp: ht_keyed_def)
  qed
qed

lemma switch_hashtable_search_spec:
  assumes "ht_str canon h"
  shows "switch_hashtable_search h k = (case ht_map canon h (canon k) of None \<Rightarrow> None | Some v \<Rightarrow> v)"
proof -
  let ?i = "indexFor (ht_tablelength h) (hash h k)"
  let ?p = "\<lambda>e. hash h k = e_h e \<and> ht_eqfn h k (e_k e)"
  have d: "distinct (map (canon \<circ> e_k) (ht_entries h))" using assms by (simp add: ht_str_def)
  show ?thesis
  proof (cases "find ?p (ht_table h ! ?i)")
    case None
    then have "\<forall>e. \<not> (e \<in> set (ht_table h ! ?i) \<and> ?p e)" by (simp only: find_None_iff) blast
    then have "ht_map canon h (canon k) = None"
      unfolding ht_map_None_iff in_chain_iff [OF assms refl] by blast
    with None show ?thesis by (simp add: switch_hashtable_search_def Let_def)
  next
    case (Some e)
    then have "e \<in> set (ht_table h ! ?i) \<and> ?p e" unfolding find_Some_iff by (metis nth_mem)
    then have "ht_map canon h (canon k) = Some (e_v e)"
      unfolding ht_map_Some_iff [OF d] in_chain_iff [OF assms refl] by blast
    with Some show ?thesis by (simp add: switch_hashtable_search_def Let_def)
  qed
qed

subsection \<open>Removal, expansion, insertion\<close>

text \<open>The difference between the counter and the number of entries; 0 in a well-formed table.\<close>

definition ht_skew :: "('k, 'v) switch_hashtable \<Rightarrow> u32" where
  "ht_skew h = ht_entrycount h - of_nat (length (ht_entries h))"

lemma ht_wf_skew: "ht_wf canon h \<longleftrightarrow> ht_str canon h \<and> ht_skew h = 0"
  by (auto simp: ht_wf_def ht_skew_def)

definition ht_same_config :: "('k, 'v) switch_hashtable \<Rightarrow> ('k, 'v) switch_hashtable \<Rightarrow> bool" where
  "ht_same_config h h' \<longleftrightarrow> ht_hashfn h' = ht_hashfn h \<and> ht_eqfn h' = ht_eqfn h"

lemma ht_str_update:
  assumes "ht_str canon h" and "i < ht_tablelength h"
    and "\<forall>e \<in> set xs. e_h e = hash h (e_k e) \<and> indexFor (ht_tablelength h) (hash h (e_k e)) = i"
    and "h' = h\<lparr>ht_table := (ht_table h)[i := xs], ht_entrycount := n\<rparr>"
    and "distinct (map (canon \<circ> e_k) (ht_entries h'))"
  shows "ht_str canon h'"
proof -
  have hh: "hash h' = hash h" by (rule hash_cong) (simp add: assms(4))
  have f: "ht_tablelength h' = ht_tablelength h" "ht_table h' = (ht_table h)[i := xs]"
    "ht_primeindex h' = ht_primeindex h" "ht_keyed canon h' = ht_keyed canon h"
    by (simp_all add: assms(4) ht_keyed_def)
  have pl: "ht_placed h" using assms(1) by (simp add: ht_str_def)
  have "e_h e = hash h (e_k e) \<and> indexFor (ht_tablelength h) (hash h (e_k e)) = j"
    if "j < ht_tablelength h" "e \<in> set ((ht_table h)[i := xs] ! j)" for j e
  proof (cases "j = i")
    case True
    then show ?thesis using that assms(2,3) pl by (auto simp: ht_placed_def)
  next
    case False
    then show ?thesis using that pl by (auto simp: ht_placed_def)
  qed
  then have "ht_placed h'" using pl unfolding ht_placed_def hh f by simp
  then show ?thesis using assms(1,5) by (simp add: ht_str_def f)
qed

lemma mset_entries_update:
  assumes "ht_str canon h" and "i < ht_tablelength h"
  shows "mset (concat ((ht_table h)[i := xs])) + mset (ht_table h ! i) = mset (ht_entries h) + mset xs"
  using mset_concat_update [of i "ht_table h" xs] assms
  by (simp add: ht_entries_def ht_str_def ht_placed_def)

lemma hashtable_remove_at_spec:
  assumes str: "ht_str canon h" and i: "i = indexFor (ht_tablelength h) (hash h k)"
    and rm: "hashtable_remove_at h k (hash h k) i = (v, rel, h')"
  shows "ht_str canon h' \<and> ht_map canon h' = (ht_map canon h)(canon k := None) \<and> ht_skew h' = ht_skew h \<and>
     ht_same_config h h' \<and> ht_tablelength h' = ht_tablelength h \<and> ht_loadlimit h' = ht_loadlimit h \<and>
     set (ht_entries h') = {e \<in> set (ht_entries h). canon (e_k e) \<noteq> canon k}"
proof (cases "chain_remove (\<lambda>e. hash h k = e_h e \<and> ht_eqfn h k (e_k e)) (ht_table h ! i)")
  case (Pair r es)
  have d: "distinct (map (canon \<circ> e_k) (ht_entries h))" using str by (simp add: ht_str_def)
  have ilt: "i < ht_tablelength h" using str i by (auto simp: ht_str_def ht_placed_def indexFor_def)
  show ?thesis
  proof (cases r)
    case None
    with Pair have "\<forall>e. \<not> (e \<in> set (ht_table h ! i) \<and> hash h k = e_h e \<and> ht_eqfn h k (e_k e))"
      using chain_remove_None by blast
    then have no: "\<forall>e \<in> set (ht_entries h). canon (e_k e) \<noteq> canon k"
      unfolding in_chain_iff [OF str i] by blast
    then have "ht_map canon h (canon k) = None" by (simp add: ht_map_None_iff)
    moreover have "h' = h" using rm Pair None by (simp add: hashtable_remove_at_def)
    ultimately show ?thesis using str no by (auto simp: ht_same_config_def)
  next
    case (Some e)
    have h': "h' = h\<lparr>ht_table := (ht_table h)[i := es], ht_entrycount := ht_entrycount h - 1\<rparr>"
      using rm Pair Some by (simp add: hashtable_remove_at_def)
    have e: "hash h k = e_h e \<and> ht_eqfn h k (e_k e)" "e \<in> set (ht_table h ! i)"
        "mset (ht_table h ! i) = add_mset e (mset es)" "set es \<subseteq> set (ht_table h ! i)"
      using chain_remove_Some Pair Some by blast+
    have ek: "canon (e_k e) = canon k" using in_chain_iff [OF str i, of e] e by blast
    have ms: "mset (ht_entries h) = add_mset e (mset (ht_entries h'))"
      using mset_entries_update [OF str ilt, of es] e(3) by (simp add: h' ht_entries_def)
    have set_h: "set (ht_entries h) = insert e (set (ht_entries h'))"
      using mset_eq_setD [of "ht_entries h" "e # ht_entries h'"] ms by simp
    have "distinct (map (canon \<circ> e_k) (e # ht_entries h'))"
      using d ms mset_eq_imp_distinct_iff [of "map (canon \<circ> e_k) (ht_entries h)"
          "map (canon \<circ> e_k) (e # ht_entries h')"] by simp
    then have d': "distinct (map (canon \<circ> e_k) (ht_entries h'))"
      and out: "\<forall>e' \<in> set (ht_entries h'). canon (e_k e') \<noteq> canon k" using ek by (auto simp: image_iff)
    have "ht_str canon h'"
    proof (rule ht_str_update [OF str ilt _ h' d'])
      show "\<forall>e \<in> set es. e_h e = hash h (e_k e) \<and> indexFor (ht_tablelength h) (hash h (e_k e)) = i"
        using str ilt e(4) unfolding ht_str_def ht_placed_def by blast
    qed
    moreover have "ht_map canon h' = (ht_map canon h)(canon k := None)"
    proof
      fix c
      show "ht_map canon h' c = ((ht_map canon h)(canon k := None)) c"
      proof (cases "c = canon k")
        case True
        then show ?thesis using out by (simp add: ht_map_None_iff)
      next
        case False
        then have "ht_map canon h' c = Some w \<longleftrightarrow> ht_map canon h c = Some w" for w
          using ek by (auto simp: ht_map_Some_iff [OF d] ht_map_Some_iff [OF d'] set_h)
        with False show ?thesis by (cases "ht_map canon h c") (auto simp: option.expand)
      qed
    qed
    moreover have "length (ht_entries h) = Suc (length (ht_entries h'))"
      using arg_cong [OF ms, of size] by simp
    then have "ht_skew h' = ht_skew h" by (simp add: ht_skew_def h')
    ultimately show ?thesis using set_h out ek by (auto simp: h' ht_same_config_def)
  qed
qed

lemma hashtable_transfer_spec:
  assumes "length nt = n" and "0 < n"
  shows "length (hashtable_transfer n es nt) = n \<and>
     mset (concat (hashtable_transfer n es nt)) = mset es + mset (concat nt) \<and>
     (\<forall>i < n. \<forall>e \<in> set (hashtable_transfer n es nt ! i).
        e \<in> set (nt ! i) \<or> e \<in> set es \<and> indexFor n (e_h e) = i)"
  using assms(1)
proof (induction es arbitrary: nt)
  case (Cons x es)
  let ?i = "indexFor n (e_h x)"
  let ?nt = "nt[?i := x # nt ! ?i]"
  have i: "?i < length nt" using assms(2) Cons.prems by (simp add: indexFor_def)
  have IH: "length (hashtable_transfer n es ?nt) = n"
     "mset (concat (hashtable_transfer n es ?nt)) = mset es + mset (concat ?nt)"
     "\<forall>i < n. \<forall>e \<in> set (hashtable_transfer n es ?nt ! i).
        e \<in> set (?nt ! i) \<or> e \<in> set es \<and> indexFor n (e_h e) = i"
    using Cons.IH [of ?nt] Cons.prems by auto
  have ms: "mset (concat ?nt) = add_mset x (mset (concat nt))"
    using mset_concat_update [OF i, of "x # nt ! ?i"] by simp
  have sub: "e \<in> set (nt ! j) \<or> e = x \<and> j = ?i" if "e \<in> set (?nt ! j)" for e j
    using that i by (cases "j = ?i") auto
  have "\<forall>i < n. \<forall>e \<in> set (hashtable_transfer n es ?nt ! i).
      e \<in> set (nt ! i) \<or> e \<in> set (x # es) \<and> indexFor n (e_h e) = i"
    using IH(3) sub by (metis list.set_intros)
  with IH(1,2) ms show ?case by (simp add: Let_def)
qed auto

lemma hashtable_transfer_empty:
  assumes "0 < n"
  shows "length (hashtable_transfer n es (replicate n [])) = n"
    and "mset (concat (hashtable_transfer n es (replicate n []))) = mset es"
    and "i < n \<Longrightarrow> e \<in> set (hashtable_transfer n es (replicate n []) ! i) \<Longrightarrow>
           e \<in> set es \<and> indexFor n (e_h e) = i"
proof -
  let ?t = "hashtable_transfer n es (replicate n [])"
  have t: "length ?t = n" "mset (concat ?t) = mset es + mset (concat (replicate n []))"
    "\<forall>i < n. \<forall>e \<in> set (?t ! i). e \<in> set (replicate n [] ! i) \<or> e \<in> set es \<and> indexFor n (e_h e) = i"
    using hashtable_transfer_spec [of "replicate n []" n es] assms by simp_all
  show "length ?t = n" by (rule t(1))
  show "mset (concat ?t) = mset es" using t(2) by simp
  show "i < n \<Longrightarrow> e \<in> set (?t ! i) \<Longrightarrow> e \<in> set es \<and> indexFor n (e_h e) = i"
    using t(3) by fastforce
qed

lemma primes_pos: "i < prime_table_length \<Longrightarrow> 0 < primes ! i"
proof -
  have "list_all (\<lambda>p. 0 < p) primes" by (simp add: primes_def)
  then show "i < prime_table_length \<Longrightarrow> 0 < primes ! i"
    by (simp add: list_all_length prime_table_length_def)
qed

lemma hashtable_expand_spec:
  assumes str: "ht_str canon h" and mem: "calloc_ok \<or> \<not> realloc_ok"
  shows "\<exists>r h'. hashtable_expand calloc_ok realloc_ok h = Inr (r, h') \<and> ht_str canon h' \<and>
     ht_map canon h' = ht_map canon h \<and> ht_skew h' = ht_skew h \<and> ht_same_config h h' \<and>
     mset (ht_entries h') = mset (ht_entries h) \<and> ht_entrycount h' = ht_entrycount h"
proof -
  have pi: "ht_primeindex h < prime_table_length" using str by (simp add: ht_str_def)
  have d: "distinct (map (canon \<circ> e_k) (ht_entries h))" using str by (simp add: ht_str_def)
  show ?thesis
  proof (cases "ht_primeindex h = prime_table_length - 1 \<or> \<not> calloc_ok")
    case True
    then have "hashtable_expand calloc_ok realloc_ok h = Inr (0, h)"
      using mem pi by (auto simp: hashtable_expand_def)
    then show ?thesis using str by (simp add: ht_same_config_def)
  next
    case False
    then have nx: "Suc (ht_primeindex h) < prime_table_length" and c: "calloc_ok" using pi by linarith+
    let ?n = "primes ! Suc (ht_primeindex h)"
    let ?t = "hashtable_transfer ?n (concat (ht_table h)) (replicate ?n [])"
    let ?h = "h\<lparr>ht_primeindex := Suc (ht_primeindex h), ht_table := ?t, ht_tablelength := ?n,
                 ht_loadlimit := loadlimit_for ?n\<rparr>"
    have ex: "hashtable_expand calloc_ok realloc_ok h = Inr (-1, ?h)"
      unfolding hashtable_expand_def Let_def using False nx by simp
    have n: "0 < ?n" using nx by (rule primes_pos)
    have t: "length ?t = ?n" "mset (concat ?t) = mset (ht_entries h)"
        "\<And>i e. i < ?n \<Longrightarrow> e \<in> set (?t ! i) \<Longrightarrow> e \<in> set (ht_entries h) \<and> indexFor ?n (e_h e) = i"
      unfolding ht_entries_def by (rule hashtable_transfer_empty [OF n])+
    have ms: "mset (ht_entries ?h) = mset (ht_entries h)" using t(2) by (simp add: ht_entries_def)
    have e_h: "e_h e = hash h (e_k e)" if "e \<in> set (ht_entries h)" for e
    proof -
      have "ht_placed h" using str by (simp add: ht_str_def)
      with that show ?thesis using in_entries_iff unfolding ht_placed_def by blast
    qed
    have hh: "hash ?h = hash h" by (rule hash_cong) simp
    have f: "ht_tablelength ?h = ?n" "ht_table ?h = ?t" by simp_all
    have pl: "ht_placed ?h" unfolding ht_placed_def hh f
    proof (intro conjI allI impI ballI)
      fix i e assume i: "i < ?n" "e \<in> set (?t ! i)"
      show eh: "e_h e = hash h (e_k e)" using t(3) [OF i] e_h by blast
      show "indexFor ?n (hash h (e_k e)) = i" using t(3) [OF i] eh by simp
    qed (rule t(1), rule n)
    have ky: "ht_keyed canon ?h = ht_keyed canon h" by (simp add: ht_keyed_def)
    have "ht_str canon ?h"
      unfolding ht_str_def ky using pl ht_map_eqI(2) [OF d ms [symmetric]] str nx by (simp add: ht_str_def)
    moreover have "ht_map canon ?h = ht_map canon h" by (rule ht_map_eqI(1) [OF d ms [symmetric]])
    moreover have "ht_skew ?h = ht_skew h" using mset_eq_length [OF ms] by (simp add: ht_skew_def)
    moreover have "ht_same_config h ?h" "ht_entrycount ?h = ht_entrycount h"
      by (simp_all add: ht_same_config_def)
    ultimately show ?thesis using ms ex by blast
  qed
qed

text \<open>Pushing an entry whose key the table does not hold.\<close>

lemma ht_push_spec:
  assumes str: "ht_str canon h" and free: "ht_map canon h (canon k) = None"
    and e: "e_k e = k" "e_v e = v" "e_h e = hash h k" and i: "i = indexFor (ht_tablelength h) (hash h k)"
    and h': "h' = h\<lparr>ht_table := (ht_table h)[i := e # ht_table h ! i]\<rparr>"
  shows "ht_str canon h' \<and> ht_map canon h' = (ht_map canon h)(canon k \<mapsto> v) \<and>
     ht_skew h' = ht_skew h - 1 \<and> mset (ht_entries h') = add_mset e (mset (ht_entries h))"
proof -
  have d: "distinct (map (canon \<circ> e_k) (ht_entries h))" using str by (simp add: ht_str_def)
  have ilt: "i < ht_tablelength h" using str i by (auto simp: ht_str_def ht_placed_def indexFor_def)
  have ms: "mset (ht_entries h') = mset (e # ht_entries h)"
    using mset_entries_update [OF str ilt, of "e # ht_table h ! i"] by (simp add: h' ht_entries_def)
  have "distinct (map (canon \<circ> e_k) (e # ht_entries h))"
    using d free e(1) by (auto simp: ht_map_None_iff)
  then have d': "distinct (map (canon \<circ> e_k) (ht_entries h'))"
    using ms mset_eq_imp_distinct_iff [of "map (canon \<circ> e_k) (ht_entries h')"
        "map (canon \<circ> e_k) (e # ht_entries h)"] by simp
  have h'': "h' = h\<lparr>ht_table := (ht_table h)[i := e # ht_table h ! i], ht_entrycount := ht_entrycount h\<rparr>"
    by (simp add: h')
  have "ht_str canon h'"
  proof (rule ht_str_update [OF str ilt _ h'' d'])
    show "\<forall>x \<in> set (e # ht_table h ! i). e_h x = hash h (e_k x) \<and>
        indexFor (ht_tablelength h) (hash h (e_k x)) = i"
      using str ilt e i unfolding ht_str_def ht_placed_def by auto
  qed
  moreover have "ht_map canon h' = (ht_map canon h)(canon k \<mapsto> v)"
  proof
    fix c
    have set': "set (ht_entries h') = insert e (set (ht_entries h))" using mset_eq_setD [OF ms] by simp
    have "ht_map canon h' c = Some w \<longleftrightarrow> ((ht_map canon h)(canon k \<mapsto> v)) c = Some w" for w
      using e free
      by (auto simp: ht_map_Some_iff [OF d] ht_map_Some_iff [OF d'] set' ht_map_None_iff)
    then show "ht_map canon h' c = ((ht_map canon h)(canon k \<mapsto> v)) c"
      by (metis option.exhaust)
  qed
  moreover have "ht_skew h' = ht_skew h - 1"
    using mset_eq_length [OF ms] by (simp add: ht_skew_def h')
  ultimately show ?thesis using ms by simp
qed

lemma ht_str_count: "ht_str canon (h\<lparr>ht_entrycount := n\<rparr>) = ht_str canon h"
  and ht_map_count: "ht_map canon (h\<lparr>ht_entrycount := n\<rparr>) = ht_map canon h"
  and hash_count: "hash (h\<lparr>ht_entrycount := n\<rparr>) = hash h"
proof -
  show hc: "hash (h\<lparr>ht_entrycount := n\<rparr>) = hash h" by (rule hash_cong) simp
  have "ht_placed (h\<lparr>ht_entrycount := n\<rparr>) = ht_placed h" unfolding ht_placed_def hc by simp
  then show "ht_str canon (h\<lparr>ht_entrycount := n\<rparr>) = ht_str canon h"
    by (simp add: ht_str_def ht_keyed_def ht_entries_def)
  show "ht_map canon (h\<lparr>ht_entrycount := n\<rparr>) = ht_map canon h" by (simp add: ht_map_def ht_entries_def)
qed

lemma switch_hashtable_insert_spec:
  assumes wf: "ht_wf canon h" and dup: "flags AND HASHTABLE_DUP_CHECK \<noteq> 0"
    and mem: "calloc_ok \<or> \<not> realloc_ok"
  shows "\<exists>rel h'. switch_hashtable_insert_destructor calloc_ok realloc_ok entry_ok h k v flags dest =
           Inr (if entry_ok then -1 else 0, rel, h') \<and> ht_wf canon h' \<and> ht_same_config h h' \<and>
           ht_map canon h' = (if entry_ok then (ht_map canon h)(canon k \<mapsto> v)
                              else (ht_map canon h)(canon k := None))"
proof -
  let ?hv = "hash h k" and ?i = "indexFor (ht_tablelength h) (hash h k)"
  obtain v0 rel h1 where rm: "hashtable_remove_at h k ?hv ?i = (v0, rel, h1)" by (metis prod_cases3)
  have str: "ht_str canon h" and sk: "ht_skew h = 0" using wf by (auto simp: ht_wf_skew)
  note r = hashtable_remove_at_spec [OF str refl rm]
  let ?h2 = "h1\<lparr>ht_entrycount := ht_entrycount h1 + 1\<rparr>"
  have h2: "ht_str canon ?h2" "ht_map canon ?h2 = (ht_map canon h)(canon k := None)" "ht_skew ?h2 = 1"
      "ht_same_config h ?h2"
    using r sk by (auto simp: ht_str_count ht_map_count ht_skew_def ht_entries_def ht_same_config_def)
  obtain h3 where h3: "(if ht_entrycount ?h2 > of_nat (ht_loadlimit ?h2)
        then bindE (hashtable_expand calloc_ok realloc_ok ?h2) (\<lambda>(_, h'). Inr h') else Inr ?h2) = Inr h3"
      "ht_str canon h3" "ht_map canon h3 = (ht_map canon h)(canon k := None)" "ht_skew h3 = 1"
      "ht_same_config h h3"
  proof (cases "ht_entrycount ?h2 > of_nat (ht_loadlimit ?h2)")
    case True
    obtain q h3 where ex: "hashtable_expand calloc_ok realloc_ok ?h2 = Inr (q, h3)" "ht_str canon h3"
        "ht_map canon h3 = ht_map canon ?h2" "ht_skew h3 = ht_skew ?h2" "ht_same_config ?h2 h3"
      using hashtable_expand_spec [OF h2(1) mem] by blast
    show ?thesis by (rule that [of h3]) (use True ex h2 in \<open>auto simp: ht_same_config_def\<close>)
  next
    case False
    show ?thesis by (rule that [of ?h2]) (use False h2 in auto)
  qed
  have hash3: "hash h3 k = ?hv"
    using h3(5) hash_cong [of h3 h] by (simp add: ht_same_config_def)
  let ?j = "indexFor (ht_tablelength h3) ?hv"
  let ?e = "\<lparr>e_k = k, e_v = v, e_h = ?hv, e_flags = flags, e_destructor = dest\<rparr>"
  have ins: "switch_hashtable_insert_destructor calloc_ok realloc_ok entry_ok h k v flags dest =
      (if \<not> entry_ok then Inr (0, rel, h3\<lparr>ht_entrycount := ht_entrycount h3 - 1\<rparr>)
       else Inr (-1, rel, h3\<lparr>ht_table := (ht_table h3)[?j := ?e # ht_table h3 ! ?j]\<rparr>))"
    unfolding switch_hashtable_insert_destructor_def Let_def rm prod.case if_P [OF dup] h3(1) bindE_simps
    by (rule refl)
  show ?thesis
  proof (cases entry_ok)
    case True
    have push: "ht_str canon (h3\<lparr>ht_table := (ht_table h3)[?j := ?e # ht_table h3 ! ?j]\<rparr>) \<and>
       ht_map canon (h3\<lparr>ht_table := (ht_table h3)[?j := ?e # ht_table h3 ! ?j]\<rparr>) =
         (ht_map canon h3)(canon k \<mapsto> v) \<and>
       ht_skew (h3\<lparr>ht_table := (ht_table h3)[?j := ?e # ht_table h3 ! ?j]\<rparr>) = ht_skew h3 - 1 \<and>
       mset (ht_entries (h3\<lparr>ht_table := (ht_table h3)[?j := ?e # ht_table h3 ! ?j]\<rparr>)) =
         add_mset ?e (mset (ht_entries h3))"
      by (rule ht_push_spec [OF h3(2)]) (simp_all add: h3 hash3)
    then show ?thesis using True ins h3 by (auto simp: ht_wf_skew ht_same_config_def)
  next
    case False
    have "ht_skew (h3\<lparr>ht_entrycount := ht_entrycount h3 - 1\<rparr>) = 0"
      using h3(4) by (simp add: ht_skew_def ht_entries_def diff_eq_eq)
    then show ?thesis using False ins h3 by (auto simp: ht_wf_skew ht_str_count ht_map_count ht_same_config_def)
  qed
qed

lemma switch_hashtable_remove_spec:
  assumes "ht_wf canon h"
  shows "\<exists>v rel h'. switch_hashtable_remove h k = (v, rel, h') \<and> ht_wf canon h' \<and> ht_same_config h h' \<and>
     ht_map canon h' = (ht_map canon h)(canon k := None) \<and>
     set (ht_entries h') = {e \<in> set (ht_entries h). canon (e_k e) \<noteq> canon k}"
proof -
  obtain v rel h' where rm: "switch_hashtable_remove h k = (v, rel, h')" by (metis prod_cases3)
  have str: "ht_str canon h" and sk: "ht_skew h = 0" using assms by (auto simp: ht_wf_skew)
  from rm have "hashtable_remove_at h k (hash h k) (indexFor (ht_tablelength h) (hash h k)) = (v, rel, h')"
    unfolding switch_hashtable_remove_def Let_def .
  from hashtable_remove_at_spec [OF str refl this] sk rm show ?thesis by (auto simp: ht_wf_skew)
qed

subsection \<open>Creation\<close>

lemma first_prime_above_spec:
  assumes "\<exists>p \<in> set ps. minsize < p"
  shows "\<exists>i < length ps. first_prime_above ps n minsize dflt = (n + i, ps ! i) \<and> minsize < ps ! i \<and>
           (\<forall>j < i. ps ! j \<le> minsize)"
  using assms
proof (induction ps arbitrary: n)
  case (Cons p ps)
  show ?case
  proof (cases "minsize < p")
    case False
    with Cons.prems obtain i where "i < length ps" "first_prime_above ps (Suc n) minsize dflt = (Suc n + i, ps ! i)"
        "minsize < ps ! i" "\<forall>j < i. ps ! j \<le> minsize" using Cons.IH [of "Suc n"] by auto
    with False show ?thesis by (intro exI [of _ "Suc i"]) (auto simp: nth_Cons split: nat.splits)
  qed auto
qed simp

lemma switch_create_hashtable_spec:
  assumes "minsize \<le> 2 ^ 30"
    and "\<forall>a b. eqf a b \<longleftrightarrow> canon a = canon b" and "\<forall>a b. canon a = canon b \<longrightarrow> hashf a = hashf b"
  shows "\<exists>h :: ('a, 'b) switch_hashtable.
     switch_create_hashtable True True minsize hashf eqf = Inr (SWITCH_STATUS_SUCCESS, Some h) \<and>
     ht_wf canon h \<and> ht_map canon h = Map.empty \<and> minsize < ht_tablelength h \<and> ht_entries h = [] \<and>
     (\<forall>j < ht_primeindex h. primes ! j \<le> minsize) \<and> ht_hashfn h = hashf \<and> ht_eqfn h = eqf"
proof -
  have "minsize < 1610612741" using assms(1) by (rule le_less_trans) simp
  then have "\<exists>p \<in> set primes. minsize < p" by (auto simp: primes_def)
  then obtain i where i: "i < length primes" "first_prime_above primes 0 minsize (primes ! 0) = (i, primes ! i)"
      "minsize < primes ! i" "\<forall>j < i. primes ! j \<le> minsize"
    using first_prime_above_spec [of primes minsize 0 "primes ! 0"] by auto
  define h :: "('a, 'b) switch_hashtable" where
    "h = \<lparr>ht_tablelength = primes ! i, ht_table = replicate (primes ! i) [], ht_entrycount = 0,
      ht_loadlimit = loadlimit_for (primes ! i), ht_primeindex = i, ht_hashfn = hashf, ht_eqfn = eqf\<rparr>"
  have ent: "ht_entries h = []" by (simp add: ht_entries_def h_def)
  have pl: "ht_placed h" using i(3) by (simp add: ht_placed_def h_def)
  have "ht_keyed canon h"
    unfolding ht_keyed_def h_def switch_hashtable.select_convs using assms(2,3) by blast
  with pl have "ht_str canon h"
    using i(1) ent by (simp add: ht_str_def prime_table_length_def) (simp add: h_def)
  then have "ht_wf canon h" using ent by (simp add: ht_wf_def) (simp add: h_def)
  moreover have "ht_map canon h = Map.empty" using ent by (simp add: ht_map_def)
  moreover have "switch_create_hashtable True True minsize hashf eqf = Inr (SWITCH_STATUS_SUCCESS, Some h)"
    using assms(1) i(2) by (simp add: switch_create_hashtable_def h_def)
  ultimately show ?thesis
    using i(3,4) ent by (intro exI [of _ h] conjI) (simp_all add: h_def)
qed

subsection \<open>Iteration\<close>

fun iterate_from :: "nat \<Rightarrow> ('k, 'v) switch_hashtable \<Rightarrow> ('k, 'v) switch_hashtable_iterator option \<Rightarrow>
    ('k, 'v) entry list option" where
  "iterate_from 0 h i = None"
| "iterate_from (Suc fuel) h None = Some []"
| "iterate_from (Suc fuel) h (Some i) =
     map_option ((#) (hd (it_e i))) (iterate_from fuel h (switch_hashtable_next h i))"

lemma skip_empty_spec:
  assumes "length (ht_table h) = ht_tablelength h" and "pos \<le> ht_tablelength h"
  shows "pos \<le> skip_empty h pos \<and> skip_empty h pos \<le> ht_tablelength h \<and>
     concat (drop pos (ht_table h)) = concat (drop (skip_empty h pos) (ht_table h)) \<and>
     (skip_empty h pos < ht_tablelength h \<longrightarrow> ht_table h ! skip_empty h pos \<noteq> [])"
  using assms
proof (induction h pos rule: skip_empty.induct)
  case (1 h pos)
  show ?case
  proof (cases "pos < ht_tablelength h \<and> ht_table h ! pos = []")
    case True
    then have "drop pos (ht_table h) = [] # drop (Suc pos) (ht_table h)"
      using "1.prems" by (simp add: Cons_nth_drop_Suc [symmetric])
    with True "1.IH" "1.prems" show ?thesis by (simp add: skip_empty.simps [of h pos])
  next
    case False
    with "1.prems" show ?thesis by (auto simp: skip_empty.simps [of h pos])
  qed
qed

text \<open>The entries an iterator has still to visit, itself included.\<close>

definition it_rest :: "('k, 'v) switch_hashtable \<Rightarrow> ('k, 'v) switch_hashtable_iterator option \<Rightarrow>
    ('k, 'v) entry list" where
  "it_rest h io = (case io of None \<Rightarrow> [] | Some i \<Rightarrow> it_e i @ concat (drop (Suc (it_pos i)) (ht_table h)))"

definition it_ok :: "('k, 'v) switch_hashtable \<Rightarrow> ('k, 'v) switch_hashtable_iterator option \<Rightarrow> bool" where
  "it_ok h io = (case io of None \<Rightarrow> True | Some i \<Rightarrow> it_e i \<noteq> [] \<and> it_pos i < ht_tablelength h)"

lemma next_from_pos:
  assumes len: "length (ht_table h) = ht_tablelength h" and "pos \<le> ht_tablelength h"
  shows "let p = skip_empty h pos;
             r = (if p \<ge> ht_tablelength h then None else Some \<lparr>it_pos = p, it_e = ht_table h ! p\<rparr>)
         in it_ok h r \<and> it_rest h r = concat (drop pos (ht_table h))"
proof -
  have s: "skip_empty h pos \<le> ht_tablelength h"
      "concat (drop pos (ht_table h)) = concat (drop (skip_empty h pos) (ht_table h))"
      "skip_empty h pos < ht_tablelength h \<longrightarrow> ht_table h ! skip_empty h pos \<noteq> []"
    using skip_empty_spec [OF assms] by auto
  show ?thesis
  proof (cases "skip_empty h pos < ht_tablelength h")
    case True
    then have "drop (skip_empty h pos) (ht_table h) =
        ht_table h ! skip_empty h pos # drop (Suc (skip_empty h pos)) (ht_table h)"
      using len by (simp add: Cons_nth_drop_Suc)
    with True s show ?thesis by (simp add: it_ok_def it_rest_def Let_def)
  next
    case False
    with s len show ?thesis by (simp add: it_ok_def it_rest_def Let_def)
  qed
qed

lemma switch_hashtable_next_spec:
  assumes len: "length (ht_table h) = ht_tablelength h" and ok: "it_ok h (Some i)"
  shows "it_ok h (switch_hashtable_next h i) \<and> it_rest h (Some i) = hd (it_e i) # it_rest h (switch_hashtable_next h i)"
proof -
  have e: "it_e i \<noteq> []" and p: "it_pos i < ht_tablelength h" using ok by (auto simp: it_ok_def)
  show ?thesis
  proof (cases "tl (it_e i) = []")
    case True
    with e obtain x where one: "it_e i = [x]" by (cases "it_e i") auto
    then have rest: "it_rest h (Some i) = hd (it_e i) # concat (drop (Suc (it_pos i)) (ht_table h))"
      by (simp add: it_rest_def)
    have nx: "switch_hashtable_next h i = (let p = skip_empty h (Suc (it_pos i)) in
        if p \<ge> ht_tablelength h then None else Some \<lparr>it_pos = p, it_e = ht_table h ! p\<rparr>)"
      using one by (simp add: switch_hashtable_next_def Let_def)
    have "Suc (it_pos i) \<le> ht_tablelength h" using p by simp
    from next_from_pos [OF len this] show ?thesis unfolding rest nx Let_def by simp
  next
    case False
    with e p show ?thesis by (cases "it_e i") (auto simp: switch_hashtable_next_def it_ok_def it_rest_def)
  qed
qed

lemma iterate_from_spec:
  assumes len: "length (ht_table h) = ht_tablelength h"
  shows "it_ok h io \<Longrightarrow> length (it_rest h io) < fuel \<Longrightarrow> iterate_from fuel h io = Some (it_rest h io)"
proof (induction fuel arbitrary: io)
  case (Suc fuel)
  show ?case
  proof (cases io)
    case (Some i)
    note n = switch_hashtable_next_spec [OF len, of i]
    with Suc Some have "iterate_from fuel h (switch_hashtable_next h i) = Some (it_rest h (switch_hashtable_next h i))"
      by simp
    with n Suc.prems Some show ?thesis by simp
  qed (simp add: it_rest_def)
qed simp

subsection \<open>Load\<close>

definition ht_load_ok :: "('k, 'v) switch_hashtable \<Rightarrow> bool" where
  "ht_load_ok h \<longleftrightarrow> ht_loadlimit h = loadlimit_for (ht_tablelength h) \<and>
     (length (ht_entries h) \<le> ht_loadlimit h \<or> ht_primeindex h = prime_table_length - 1)"

lemma loadlimit_table:
  "map loadlimit_for primes = [35, 64, 126, 253, 500, 1003, 2002, 3999, 7988, 15986, 31953, 63907,
     127799, 255607, 511182, 1022365, 2044731, 4089455, 8178896, 16357798, 32715572, 65431156,
     130862288, 261724560, 523449152, 1046898240]"
  by (simp add: primes_def loadlimit_for_def round24_def bit_length.simps Let_def)

lemma loadlimit_grows:
  assumes "Suc i < prime_table_length"
  shows "loadlimit_for (primes ! i) < loadlimit_for (primes ! Suc i)" and "loadlimit_for (primes ! i) < 2 ^ 31"
proof -
  let ?l = "map loadlimit_for primes"
  have "sorted_wrt (<) ?l \<and> list_all (\<lambda>n. n < 2 ^ 31) ?l" unfolding loadlimit_table by simp
  moreover have "?l ! i = loadlimit_for (primes ! i)" "?l ! Suc i = loadlimit_for (primes ! Suc i)"
    using assms by (simp_all add: prime_table_length_def)
  ultimately show "loadlimit_for (primes ! i) < loadlimit_for (primes ! Suc i)"
    and "loadlimit_for (primes ! i) < 2 ^ 31"
    using assms sorted_wrt_nth_less [of "(<)" ?l i "Suc i"]
    by (auto simp: prime_table_length_def list_all_length)
qed

lemma hashtable_expand_load:
  assumes "hashtable_expand True realloc_ok h = Inr (r, h')" and "Suc (ht_primeindex h) < prime_table_length"
  shows "ht_loadlimit h' = loadlimit_for (primes ! Suc (ht_primeindex h)) \<and>
     ht_tablelength h' = primes ! Suc (ht_primeindex h)"
  using assms by (auto simp: hashtable_expand_def Let_def split: if_splits)

lemma hashtable_expand_last:
  assumes "hashtable_expand calloc_ok realloc_ok h = Inr (r, h')" and "ht_primeindex h = prime_table_length - 1"
  shows "h' = h"
  using assms by (simp add: hashtable_expand_def)

lemma of_nat_u32_less:
  assumes "a < 2 ^ 32" and "b < 2 ^ 32"
  shows "(of_nat a :: u32) < of_nat b \<longleftrightarrow> a < b"
proof -
  have "unat (of_nat a :: u32) = a" "unat (of_nat b :: u32) = b"
    using assms by (simp_all add: unat_of_nat)
  then show ?thesis by (simp add: word_less_nat_alt)
qed

text \<open>
  The table after the counter was raised and, where the limit is passed, the table expanded: there
  is room for one more entry below the limit.
\<close>

lemma ht_make_room:
  assumes str: "ht_str canon h" and cnt: "ht_entrycount h = of_nat (Suc (length (ht_entries h)))"
    and lim: "ht_loadlimit h = loadlimit_for (ht_tablelength h)"
    and len: "length (ht_entries h) \<le> ht_loadlimit h \<or> ht_primeindex h = prime_table_length - 1"
  shows "\<exists>h'. (if ht_entrycount h > of_nat (ht_loadlimit h)
      then bindE (hashtable_expand True realloc_ok h) (\<lambda>(_, h'). Inr h') else Inr h) = Inr h' \<and>
    ht_loadlimit h' = loadlimit_for (ht_tablelength h') \<and> length (ht_entries h') = length (ht_entries h) \<and>
    ht_str canon h' \<and>
    (Suc (length (ht_entries h')) \<le> ht_loadlimit h' \<or> ht_primeindex h' = prime_table_length - 1)"
proof -
  obtain r h2 where ex: "hashtable_expand True realloc_ok h = Inr (r, h2)"
      "mset (ht_entries h2) = mset (ht_entries h)" "ht_str canon h2"
    using hashtable_expand_spec [OF str, of True realloc_ok] by auto
  have len2: "length (ht_entries h2) = length (ht_entries h)" using ex(2) by (rule mset_eq_length)
  show ?thesis
  proof (cases "ht_primeindex h = prime_table_length - 1")
    case True
    then have "h2 = h" using hashtable_expand_last [OF ex(1)] by simp
    with True ex lim str show ?thesis by auto
  next
    case False
    moreover have "ht_primeindex h < prime_table_length" using str by (simp add: ht_str_def)
    ultimately have nx: "Suc (ht_primeindex h) < prime_table_length" by linarith
    have tl: "ht_tablelength h = primes ! ht_primeindex h" using str by (simp add: ht_str_def)
    have l31: "ht_loadlimit h < 2 ^ 31" using loadlimit_grows(2) [OF nx] lim tl by simp
    have le: "length (ht_entries h) \<le> ht_loadlimit h" using len False by simp
    have cmp: "ht_entrycount h > of_nat (ht_loadlimit h) \<longleftrightarrow> ht_loadlimit h < Suc (length (ht_entries h))"
      unfolding cnt using le l31 by (intro of_nat_u32_less) auto
    show ?thesis
    proof (cases "ht_loadlimit h < Suc (length (ht_entries h))")
      case True
      have "ht_loadlimit h < ht_loadlimit h2"
        using hashtable_expand_load [OF ex(1) nx] loadlimit_grows(1) [OF nx] lim tl by simp
      moreover have "ht_loadlimit h2 = loadlimit_for (ht_tablelength h2)"
        using hashtable_expand_load [OF ex(1) nx] by simp
      ultimately show ?thesis using True cmp ex len2 le by auto
    next
      case False
      then show ?thesis using cmp lim str by auto
    qed
  qed
qed

lemma hashtable_remove_at_load:
  assumes str: "ht_str canon h" and i: "i = indexFor (ht_tablelength h) (hash h k)"
    and rm: "hashtable_remove_at h k (hash h k) i = (v, rel, h')"
  shows "length (ht_entries h') \<le> length (ht_entries h) \<and> ht_primeindex h' = ht_primeindex h"
proof
  note r = hashtable_remove_at_spec [OF str i rm]
  have "distinct (ht_entries h')" "distinct (ht_entries h)"
    using r str by (auto simp: ht_str_def distinct_map)
  then show "length (ht_entries h') \<le> length (ht_entries h)"
    using r card_mono [of "set (ht_entries h)" "set (ht_entries h')"]
    by (auto simp: distinct_card [symmetric])
  show "ht_primeindex h' = ht_primeindex h"
    using rm by (auto simp: hashtable_remove_at_def split: prod.splits option.splits)
qed

lemma switch_create_hashtable_load:
  assumes "switch_create_hashtable struct_ok table_ok minsize hashf eqf = Inr (st, Some h)"
  shows "ht_load_ok h"
  using assms
  by (auto simp: switch_create_hashtable_def ht_load_ok_def ht_entries_def split: if_splits prod.splits)

text \<open>
  C20. The load of the table. Starting from a table whose size limit is the one its bucket count
  prescribes and that holds no more entries than that limit, an insertion (with duplicate check and
  a successful allocation of the bucket array) gives such a table again: the expansion happens
  exactly in time, until the last prime of the table is reached.
\<close>

theorem hashtable_load_bounded:
  assumes wf: "ht_wf canon h" and load: "ht_load_ok h" and dup: "flags AND HASHTABLE_DUP_CHECK \<noteq> 0"
  shows "\<exists>r rel h'. switch_hashtable_insert_destructor True realloc_ok entry_ok h k v flags dest =
      Inr (r, rel, h') \<and> ht_load_ok h'"
proof -
  let ?hv = "hash h k" and ?i = "indexFor (ht_tablelength h) (hash h k)"
  obtain v0 rel h1 where rm: "hashtable_remove_at h k ?hv ?i = (v0, rel, h1)" by (metis prod_cases3)
  have str: "ht_str canon h" and sk: "ht_skew h = 0" using wf by (auto simp: ht_wf_skew)
  note r = hashtable_remove_at_spec [OF str refl rm] and rl = hashtable_remove_at_load [OF str refl rm]
  let ?h2 = "h1\<lparr>ht_entrycount := ht_entrycount h1 + 1\<rparr>"
  have e2: "ht_entries (h1\<lparr>ht_entrycount := n\<rparr>) = ht_entries h1" for n by (simp add: ht_entries_def)
  have "ht_entrycount h1 = of_nat (length (ht_entries h1))" using r sk by (simp add: ht_skew_def)
  then have cnt: "ht_entrycount ?h2 = of_nat (Suc (length (ht_entries ?h2)))" by (simp add: e2)
  have str2: "ht_str canon ?h2" using r by (simp add: ht_str_count)
  have lim2: "ht_loadlimit ?h2 = loadlimit_for (ht_tablelength ?h2)" using r load by (simp add: ht_load_ok_def)
  have len2: "length (ht_entries ?h2) \<le> ht_loadlimit ?h2 \<or> ht_primeindex ?h2 = prime_table_length - 1"
    using r rl load by (auto simp: e2 ht_load_ok_def)
  obtain h3 where h3: "(if ht_entrycount ?h2 > of_nat (ht_loadlimit ?h2)
        then bindE (hashtable_expand True realloc_ok ?h2) (\<lambda>(_, h'). Inr h') else Inr ?h2) = Inr h3"
      "ht_loadlimit h3 = loadlimit_for (ht_tablelength h3)" "ht_str canon h3"
      "Suc (length (ht_entries h3)) \<le> ht_loadlimit h3 \<or> ht_primeindex h3 = prime_table_length - 1"
    using ht_make_room [OF str2 cnt lim2 len2, of realloc_ok] by blast
  let ?j = "indexFor (ht_tablelength h3) ?hv"
  let ?e = "\<lparr>e_k = k, e_v = v, e_h = ?hv, e_flags = flags, e_destructor = dest\<rparr>"
  have ins: "switch_hashtable_insert_destructor True realloc_ok entry_ok h k v flags dest =
      (if \<not> entry_ok then Inr (0, rel, h3\<lparr>ht_entrycount := ht_entrycount h3 - 1\<rparr>)
       else Inr (-1, rel, h3\<lparr>ht_table := (ht_table h3)[?j := ?e # ht_table h3 ! ?j]\<rparr>))"
    unfolding switch_hashtable_insert_destructor_def Let_def rm prod.case if_P [OF dup] h3(1) bindE_simps
    by (rule refl)
  have "?j < ht_tablelength h3" using h3(3) by (auto simp: ht_str_def ht_placed_def indexFor_def)
  from mset_entries_update [OF h3(3) this, of "?e # ht_table h3 ! ?j"]
  have "mset (concat ((ht_table h3)[?j := ?e # ht_table h3 ! ?j])) = mset (?e # ht_entries h3)" by simp
  then have "length (concat ((ht_table h3)[?j := ?e # ht_table h3 ! ?j])) = Suc (length (ht_entries h3))"
    using mset_eq_length by fastforce
  then show ?thesis
    using ins h3(2,4) by (auto simp: ht_load_ok_def ht_entries_def)
qed

theorem hashtable_load_bounded_witness:
  "\<exists>h. switch_create_hashtable True True 16 (\<lambda>k :: nat. of_nat k) (=) = Inr (SWITCH_STATUS_SUCCESS, Some h) \<and>
     (\<exists>r rel h'. switch_hashtable_insert_destructor True True True h 7 (Some ''v'') HASHTABLE_DUP_CHECK None =
        Inr (r, rel, h') \<and> ht_load_ok h')"
proof -
  obtain h :: "(nat, string) switch_hashtable"
    where h: "switch_create_hashtable True True 16 (\<lambda>k :: nat. of_nat k) (=) = Inr (SWITCH_STATUS_SUCCESS, Some h)"
      "ht_wf id h"
    using switch_create_hashtable_spec [of 16 "(=)" id "\<lambda>k :: nat. of_nat k"] by auto
  have "HASHTABLE_DUP_CHECK AND HASHTABLE_DUP_CHECK \<noteq> 0" by (simp add: HASHTABLE_DUP_CHECK_def)
  from hashtable_load_bounded [OF h(2) switch_create_hashtable_load [OF h(1)] this, of True True 7 "Some ''v''" None] h(1)
  show ?thesis by blast
qed

end
