(* ===== verification/FS_Chars.thy ===== *)
theory FS_Chars
  imports FS_Prelude
begin

text \<open>
  Characters and character strings of \<^verbatim>\<open>src/src/include/switch_utils.h\<close> and
  \<^verbatim>\<open>src/src/lib/libfreeswitch/switch_utils.c\<close>: the case conversions that work on a whole machine word
  at a time, their table-driven predecessors, the character classes, the DTMF character codes and the
  predicates on digit strings. The functions of the C library the sources use on strings (\<open>strchr\<close>,
  \<open>strstr\<close>, \<open>strncasecmp\<close>, \<open>atol\<close>, \<open>atoi\<close>) are defined first.
\<close>

section \<open>Functions of the C library\<close>

definition code :: "char \<Rightarrow> nat" where
  "code c = of_char c"

definition chr :: "nat \<Rightarrow> char" where
  "chr n = char_of n"

lemma code_less [simp]: "code c < 256"
  by (simp add: code_def)

lemma chr_code [simp]: "chr (code c) = c"
  by (simp add: code_def chr_def)

lemma code_chr [simp]: "n < 256 \<Longrightarrow> code (chr n) = n"
  by (simp add: code_def chr_def)

lemma code_inj [simp]: "code c = code d \<longleftrightarrow> c = d"
  by (simp add: code_def)

text \<open>\<open>strchr\<close> for a character other than NUL: the suffix that starts at the first occurrence.\<close>

fun strchr :: "string \<Rightarrow> char \<Rightarrow> string option" where
  "strchr [] c = None"
| "strchr (x # xs) c = (if x = c then Some (x # xs) else strchr xs c)"

definition before_char :: "string \<Rightarrow> char \<Rightarrow> string" where
  "before_char s c = takeWhile (\<lambda>x. x \<noteq> c) s"

lemma strchr_eq: "strchr s c = (if c \<in> set s then Some (dropWhile (\<lambda>x. x \<noteq> c) s) else None)"
  by (induction s) auto

lemma strchr_None [simp]: "strchr s c = None \<longleftrightarrow> c \<notin> set s"
  by (simp add: strchr_eq)

lemma strchr_Some: "strchr s c = Some t \<Longrightarrow> s = before_char s c @ t \<and> t \<noteq> [] \<and> hd t = c"
  by (induction s) (auto simp: before_char_def split: if_splits)

lemma strchr_append: "c \<notin> set xs \<Longrightarrow> strchr (xs @ c # ys) c = Some (c # ys)"
  by (induction xs) auto

lemma before_char_append: "c \<notin> set xs \<Longrightarrow> before_char (xs @ c # ys) c = xs"
  by (induction xs) (auto simp: before_char_def)

lemma before_char_all: "c \<notin> set xs \<Longrightarrow> before_char xs c = xs"
  by (induction xs) (auto simp: before_char_def)

fun strstr :: "string \<Rightarrow> string \<Rightarrow> string option" where
  "strstr s t = (if take (length t) s = t then Some s else case s of [] \<Rightarrow> None | _ # s' \<Rightarrow> strstr s' t)"

declare strstr.simps [simp del]

definition strncmp_eq :: "string \<Rightarrow> string \<Rightarrow> nat \<Rightarrow> bool" where
  "strncmp_eq s t n \<longleftrightarrow> take n s = take n t"

definition strncasecmp_eq :: "string \<Rightarrow> string \<Rightarrow> nat \<Rightarrow> bool" where
  "strncasecmp_eq s t n \<longleftrightarrow> map ascii_lower (take n s) = map ascii_lower (take n t)"

definition isspace_c :: "char \<Rightarrow> bool" where
  "isspace_c c \<longleftrightarrow> code c = 32 \<or> (9 \<le> code c \<and> code c \<le> 13)"

definition isdigit_c :: "char \<Rightarrow> bool" where
  "isdigit_c c \<longleftrightarrow> 48 \<le> code c \<and> code c \<le> 57"

text \<open>
  \<open>atol\<close> is \<open>strtol\<close> in base ten: white space, a sign, digits; a value out of range is the nearest
  bound of the 64-bit type. \<open>atoi\<close> converts that to 32 bits.
\<close>

definition digits_value :: "string \<Rightarrow> int" where
  "digits_value ds = foldl (\<lambda>a d. a * 10 + (int (code d) - 48)) 0 ds"

definition sign_split :: "string \<Rightarrow> bool \<times> string" where
  "sign_split s = (case s of [] \<Rightarrow> (False, [])
     | c # t \<Rightarrow> if c = CHR ''-'' then (True, t) else if c = CHR ''+'' then (False, t) else (False, s))"

definition atol :: "string \<Rightarrow> int" where
  "atol s =
     (let (neg, u) = sign_split (dropWhile isspace_c s);
          v = digits_value (takeWhile isdigit_c u)
      in max (- (2 ^ 63)) (min (2 ^ 63 - 1) (if neg then - v else v)))"

definition atoi :: "string \<Rightarrow> int" where
  "atoi s = signed_take_bit 31 (atol s)"

text \<open>Decimal notation, the argument of the conversions in the theorems about them.\<close>

fun decimal :: "nat \<Rightarrow> string" where
  "decimal n = (if n < 10 then [chr (48 + n)] else decimal (n div 10) @ [chr (48 + n mod 10)])"

declare decimal.simps [simp del]

lemma decimal_digits: "\<forall>c \<in> set (decimal n). isdigit_c c"
proof (induction n rule: decimal.induct)
  case (1 n)
  then show ?case by (subst decimal.simps) (auto simp: isdigit_c_def)
qed

lemma decimal_nonempty [simp]: "decimal n \<noteq> []"
  by (subst decimal.simps) simp

lemma decimal_value: "digits_value (decimal n) = int n"
proof (induction n rule: decimal.induct)
  case (1 n)
  have "digits_value (decimal n) = (if n < 10 then int n else digits_value (decimal (n div 10)) * 10 + int (n mod 10))"
    by (subst decimal.simps) (simp add: digits_value_def)
  then show ?case using 1 by (simp flip: of_nat_mult of_nat_add) (simp add: zdiv_int zmod_int)
qed

lemma decimal_length: "n < 10 ^ Suc k \<Longrightarrow> length (decimal n) \<le> Suc k"
proof (induction k arbitrary: n)
  case 0
  then show ?case by (subst decimal.simps) simp
next
  case (Suc k)
  then have "n div 10 < 10 ^ Suc k" by (simp add: less_mult_imp_div_less)
  then show ?case using Suc.IH [of "n div 10"] by (subst decimal.simps) simp
qed

lemma takeWhile_digits:
  "(\<forall>c \<in> set ds. isdigit_c c) \<Longrightarrow> (r = [] \<or> \<not> isdigit_c (hd r)) \<Longrightarrow> takeWhile isdigit_c (ds @ r) = ds"
  by (induction ds) (auto simp: takeWhile_eq_Nil_iff)

lemma digit_no_sign: "isdigit_c c \<Longrightarrow> \<not> isspace_c c \<and> c \<noteq> CHR ''-'' \<and> c \<noteq> CHR ''+''"
  by (auto simp: isdigit_c_def isspace_c_def code_def)

lemma atol_decimal:
  assumes "n < 2 ^ 63" and "r = [] \<or> \<not> isdigit_c (hd r)"
  shows "atol (decimal n @ r) = int n"
proof -
  obtain d ds where dd: "decimal n = d # ds" by (cases "decimal n") simp_all
  have "isdigit_c d" using decimal_digits [of n] dd by simp
  then have "sign_split (dropWhile isspace_c (decimal n @ r)) = (False, decimal n @ r)"
    using digit_no_sign [of d] by (simp add: dd sign_split_def)
  moreover have "takeWhile isdigit_c (decimal n @ r) = decimal n"
    using decimal_digits assms(2) by (rule takeWhile_digits)
  moreover have "int n < 2 ^ 63" using assms(1) by (metis of_nat_less_iff of_nat_numeral of_nat_power)
  ultimately show ?thesis by (simp add: atol_def decimal_value)
qed

lemma atoi_decimal:
  assumes "n < 2 ^ 31" and "r = [] \<or> \<not> isdigit_c (hd r)"
  shows "atoi (decimal n @ r) = int n"
proof -
  have "(n::nat) < 2 ^ 63" using assms(1) by simp
  then have "atoi (decimal n @ r) = signed_take_bit 31 (int n)" using assms(2) by (simp add: atoi_def atol_decimal)
  also have "\<dots> = int n" using assms(1) by (simp add: signed_take_bit_int_eq_self)
  finally show ?thesis .
qed

section \<open>Case conversion of a machine word\<close>

definition switch_toupper :: "u32 \<Rightarrow> u32" where
  "switch_toupper eax =
     (let ebx = (0x7f7f7f7f AND eax) + 0x05050505;
          ebx = (0x7f7f7f7f AND ebx) + 0x1a1a1a1a;
          ebx = drop_bit 2 (ebx AND NOT eax) AND 0x20202020
      in eax - ebx)"

definition switch_tolower :: "u32 \<Rightarrow> u32" where
  "switch_tolower eax =
     (let ebx = (0x7f7f7f7f AND eax) + 0x25252525;
          ebx = (0x7f7f7f7f AND ebx) + 0x1a1a1a1a;
          ebx = drop_bit 2 (ebx AND NOT eax) AND 0x20202020
      in eax + ebx)"

definition switch_toupper64 :: "u64 \<Rightarrow> u64" where
  "switch_toupper64 eax =
     (let ebx = (0x7f7f7f7f7f7f7f7f AND eax) + 0x0505050505050505;
          ebx = (0x7f7f7f7f7f7f7f7f AND ebx) + 0x1a1a1a1a1a1a1a1a;
          ebx = drop_bit 2 (ebx AND NOT eax) AND 0x2020202020202020
      in eax - ebx)"

definition switch_tolower64 :: "u64 \<Rightarrow> u64" where
  "switch_tolower64 eax =
     (let ebx = (0x7f7f7f7f7f7f7f7f AND eax) + 0x2525252525252525;
          ebx = (0x7f7f7f7f7f7f7f7f AND ebx) + 0x1a1a1a1a1a1a1a1a;
          ebx = drop_bit 2 (ebx AND NOT eax) AND 0x2020202020202020
      in eax + ebx)"

text \<open>The bytes of a word, the least significant first, as the machine stores them.\<close>

fun lanes :: "nat list \<Rightarrow> nat" where
  "lanes [] = 0"
| "lanes (d # ds) = d + 256 * lanes ds"

fun word_bytes :: "nat \<Rightarrow> nat \<Rightarrow> nat list" where
  "word_bytes 0 n = []"
| "word_bytes (Suc k) n = n mod 256 # word_bytes k (n div 256)"

lemma lanes_word_bytes: "lanes (word_bytes k n) = n mod 256 ^ k"
  by (induction k arbitrary: n) (simp_all add: mod_mult2_eq)

lemma word_bytes_lanes: "\<forall>d \<in> set ds. d < 256 \<Longrightarrow> word_bytes (length ds) (lanes ds) = ds"
  by (induction ds) simp_all

lemma length_word_bytes [simp]: "length (word_bytes k n) = k"
  by (induction k arbitrary: n) simp_all

lemma word_bytes_less: "\<forall>d \<in> set (word_bytes k n). d < 256"
  by (induction k arbitrary: n) simp_all

lemma lanes_less: "\<forall>d \<in> set ds. d < 256 \<Longrightarrow> lanes ds < 256 ^ length ds"
  by (induction ds) auto

lemma bit_lane:
  assumes "d < 256"
  shows "bit (d + 256 * a :: nat) n \<longleftrightarrow> (if n < 8 then bit d n else bit a (n - 8))"
proof -
  have "take_bit 8 (d + 256 * a) = d" "drop_bit 8 (d + 256 * a) = a"
    using assms by (simp_all add: take_bit_eq_mod drop_bit_eq_div)
  then have "bit d n \<longleftrightarrow> n < 8 \<and> bit (d + 256 * a) n" "bit a (n - 8) \<longleftrightarrow> bit (d + 256 * a) (8 + (n - 8))"
    by (metis bit_take_bit_iff, metis bit_drop_bit_eq comp_apply)
  then show ?thesis by auto
qed

lemma and_less_256:
  assumes "d < (256::nat)"
  shows "d AND e < 256" "e AND d < 256"
proof -
  have "take_bit 8 d = d" using assms by (simp add: take_bit_nat_eq_self)
  then have "take_bit 8 (d AND e) = d AND take_bit 8 e" by (metis take_bit_and)
  moreover have "d AND take_bit 8 e = d AND e" using \<open>take_bit 8 d = d\<close> by (intro bit_eqI) (metis bit_and_iff bit_take_bit_iff)
  ultimately have "d AND e < 2 ^ 8" by (metis take_bit_nat_less_exp)
  then show "d AND e < 256" "e AND d < 256" by (simp_all add: and.commute)
qed

lemma lane_and:
  "x < 256 \<Longrightarrow> y < 256 \<Longrightarrow> (x + 256 * a) AND (y + 256 * b) = (x AND y) + 256 * (a AND b :: nat)"
  by (rule bit_eqI) (simp add: bit_and_iff bit_lane and_less_256)

lemma lanes_and:
  assumes "length xs = length ys" and "\<forall>d \<in> set xs. d < 256" and "\<forall>d \<in> set ys. d < 256"
  shows "lanes xs AND lanes ys = lanes (map2 (AND) xs ys)"
  using assms
  by (induction xs ys rule: list_induct2) (simp_all add: lane_and)

lemma lanes_add: "length xs = length ys \<Longrightarrow> lanes xs + lanes ys = lanes (map2 (+) xs ys)"
  by (induction xs ys rule: list_induct2) (simp_all add: algebra_simps)

lemma lanes_shift:
  assumes "length xs = length ms" and "\<forall>d \<in> set xs. d < 256" and "\<forall>m \<in> set ms. m < 2 ^ (8 - s)" and "s < 8"
  shows "drop_bit s (lanes xs) AND lanes ms = lanes (map2 (\<lambda>x m. drop_bit s x AND m) xs ms)"
  using assms(1-3)
proof (induction xs ms rule: list_induct2)
  case (Cons x xs m ms)
  have m: "take_bit (8 - s) m = m" using Cons.prems by (simp add: take_bit_nat_eq_self)
  have "(2::nat) ^ (8 - s) \<le> 2 ^ 8" by (intro power_increasing) simp_all
  then have m256: "m < 256" using Cons.prems by (simp add: order.strict_trans2)
  then have lt: "drop_bit s x AND m < 256" by (simp add: and_less_256)
  have "drop_bit s (x + 256 * lanes xs) AND (m + 256 * lanes ms) =
        (drop_bit s x AND m) + 256 * (drop_bit s (lanes xs) AND lanes ms)"
  proof (rule bit_eqI)
    fix n
    have "bit m n \<longleftrightarrow> n < 8 - s \<and> bit m n" using m by (metis bit_take_bit_iff)
    moreover have "\<not> n < 8 \<Longrightarrow> s + n - 8 = s + (n - 8)" by arith
    ultimately show "bit (drop_bit s (x + 256 * lanes xs) AND (m + 256 * lanes ms)) n =
        bit ((drop_bit s x AND m) + 256 * (drop_bit s (lanes xs) AND lanes ms)) n"
      using Cons.prems lt m256 \<open>s < 8\<close>
      by (auto simp: bit_and_iff bit_lane bit_drop_bit_eq)
  qed
  with Cons show ?case by simp
qed simp

text \<open>One byte of the computation, and the word-wide computation as one on every byte.\<close>

definition swar_bit :: "nat \<Rightarrow> nat \<Rightarrow> nat" where
  "swar_bit k d = drop_bit 2 (((127 AND ((127 AND d) + k)) + 26) AND (255 - d)) AND 32"

definition word_of_bytes :: "nat list \<Rightarrow> 'a :: len word" where
  "word_of_bytes ds = of_nat (lanes ds)"

definition all_lanes :: "nat \<Rightarrow> nat \<Rightarrow> 'a :: len word" where
  "all_lanes n c = word_of_bytes (replicate n c)"

lemma word_of_bytes_and:
  "length xs = length ys \<Longrightarrow> \<forall>d \<in> set xs. d < 256 \<Longrightarrow> \<forall>d \<in> set ys. d < 256 \<Longrightarrow>
   word_of_bytes xs AND word_of_bytes ys = word_of_bytes (map2 (AND) xs ys)"
  by (simp add: word_of_bytes_def lanes_and flip: of_nat_and_eq)

lemma word_of_bytes_add:
  "length xs = length ys \<Longrightarrow> word_of_bytes xs + word_of_bytes ys = word_of_bytes (map2 (+) xs ys)"
  by (simp add: word_of_bytes_def lanes_add flip: of_nat_add)

lemma lanes_full: "lanes (replicate n 255) = 256 ^ n - 1"
proof (induction n)
  case (Suc n)
  obtain m where "(256::nat) ^ n = Suc m" by (metis not0_implies_Suc power_not_zero zero_neq_numeral)
  with Suc show ?case by simp
qed simp

lemma word_of_bytes_not:
  assumes "LENGTH('a::len) = 8 * length ds" and "\<forall>d \<in> set ds. d < 256"
  shows "NOT (word_of_bytes ds) = (word_of_bytes (map (\<lambda>d. 255 - d) ds) :: 'a word)"
proof -
  have "map2 (+) ds (map (\<lambda>d. 255 - d) ds) = replicate (length ds) 255"
    using assms(2) by (induction ds) auto
  then have "word_of_bytes ds + word_of_bytes (map (\<lambda>d. 255 - d) ds) = (of_nat (256 ^ length ds - 1) :: 'a word)"
    by (simp add: word_of_bytes_add) (simp add: word_of_bytes_def lanes_full)
  also have "\<dots> = of_nat (256 ^ length ds) - 1"
    by (simp add: of_nat_diff)
  also have "(of_nat (256 ^ length ds) :: 'a word) = 0"
    using assms(1) word_exp_length_eq_0 [where 'a='a] by (simp add: power_mult)
  finally have "1 + (word_of_bytes ds + word_of_bytes (map (\<lambda>d. 255 - d) ds)) = (0 :: 'a word)" by simp
  then have "- word_of_bytes ds = 1 + (word_of_bytes (map (\<lambda>d. 255 - d) ds) :: 'a word)"
    by (simp only: neg_eq_iff_add_eq_0 ac_simps)
  then show ?thesis by (simp add: not_eq_complement)
qed

lemma word_of_bytes_shift:
  assumes "LENGTH('a::len) = 8 * length xs" and "length xs = length ms"
    and "\<forall>d \<in> set xs. d < 256" and "\<forall>m \<in> set ms. m < 2 ^ (8 - s)" and "s < 8"
  shows "drop_bit s (word_of_bytes xs) AND word_of_bytes ms =
     (word_of_bytes (map2 (\<lambda>x m. drop_bit s x AND m) xs ms) :: 'a word)"
proof -
  have "lanes xs < 2 ^ LENGTH('a)" using lanes_less [OF assms(3)] assms(1) by (simp add: power_mult)
  moreover from this have "drop_bit s (lanes xs) < 2 ^ LENGTH('a)"
    by (metis drop_bit_eq_div div_le_dividend order.strict_trans1)
  ultimately have "drop_bit s (of_nat (lanes xs) :: 'a word) = of_nat (drop_bit s (lanes xs))"
    by (intro word_unat_eq_iff [THEN iffD2]) (simp add: unat_drop_bit_eq unsigned_of_nat take_bit_nat_eq_self)
  then show ?thesis by (simp add: word_of_bytes_def lanes_shift [OF assms(2-5)] flip: of_nat_and_eq)
qed

lemma swar_word:
  assumes "LENGTH('a::len) = 8 * n" and "length ds = n" and "\<forall>d \<in> set ds. d < 256" and "k < 128"
  shows "drop_bit 2 ((all_lanes n 127 AND ((all_lanes n 127 AND word_of_bytes ds) + all_lanes n k)) + all_lanes n 26 AND
            NOT (word_of_bytes ds)) AND all_lanes n 32 = (word_of_bytes (map (swar_bit k) ds) :: 'a word)"
proof -
  have l7: "127 AND d \<le> (127::nat)" for d using take_bit_nat_less_exp [of 7 d] by (simp add: take_bit_eq_mask mask_eq_exp_minus_1 and.commute)
  have ds: "ds = map (\<lambda>d. d) ds" by simp
  have rep: "replicate n c = map (\<lambda>d. c) ds" for c :: nat using assms(2) by (simp add: map_replicate_const)
  have z: "map2 f (map g ds) (map h ds) = map (\<lambda>d. f (g d) (h d)) ds" for f :: "nat \<Rightarrow> nat \<Rightarrow> nat" and g h
    by (simp add: zip_map_map zip_same_conv_map comp_def)
  have z1: "map2 f (map g ds) ds = map (\<lambda>d. f (g d) d) ds" for f :: "nat \<Rightarrow> nat \<Rightarrow> nat" and g
    using z [of f g "\<lambda>d. d"] by simp
  have b1: "(127 AND d) + k < 256" for d using l7 [of d] assms(4) by simp
  have b2: "(127 AND ((127 AND d) + k)) + 26 < 256" for d using l7 [of "(127 AND d) + k"] by simp
  have "all_lanes n 127 AND word_of_bytes ds = (word_of_bytes (map (\<lambda>d. 127 AND d) ds) :: 'a word)"
    using assms(3) by (simp add: all_lanes_def rep word_of_bytes_and z1)
  then have "(all_lanes n 127 AND ((all_lanes n 127 AND word_of_bytes ds) + all_lanes n k)) + all_lanes n 26 =
      (word_of_bytes (map (\<lambda>d. (127 AND ((127 AND d) + k)) + 26) ds) :: 'a word)"
    using b1 by (simp add: all_lanes_def rep word_of_bytes_add word_of_bytes_and z)
  moreover have "NOT (word_of_bytes ds) = (word_of_bytes (map (\<lambda>d. 255 - d) ds) :: 'a word)"
    using assms by (intro word_of_bytes_not) simp_all
  moreover have "word_of_bytes (map (\<lambda>d. (127 AND ((127 AND d) + k)) + 26) ds) AND word_of_bytes (map (\<lambda>d. 255 - d) ds) =
      (word_of_bytes (map (\<lambda>d. ((127 AND ((127 AND d) + k)) + 26) AND (255 - d)) ds) :: 'a word)"
    using b2 by (subst word_of_bytes_and) (auto simp: z)
  moreover have "drop_bit 2 (word_of_bytes (map (\<lambda>d. ((127 AND ((127 AND d) + k)) + 26) AND (255 - d)) ds)) AND
      word_of_bytes (map (\<lambda>d. 32) ds) = (word_of_bytes (map (swar_bit k) ds) :: 'a word)"
    using assms(1,2) and_less_256(1) [OF b2] by (subst word_of_bytes_shift) (simp_all add: z swar_bit_def [abs_def])
  ultimately show ?thesis by (simp only: all_lanes_def rep)
qed

lemma bit7: "y < 256 \<Longrightarrow> bit (y::nat) 7 \<longleftrightarrow> 128 \<le> y"
proof -
  assume "y < 256"
  then have "y div 128 = (if 128 \<le> y then 1 else 0)" by auto
  then show ?thesis by (simp add: bit_iff_odd)
qed

lemma and_127: "127 AND d = d mod (128::nat)"
proof -
  have "take_bit 7 d = d AND 127" unfolding take_bit_eq_mask by (simp add: mask_eq_exp_minus_1)
  then show ?thesis by (simp add: take_bit_eq_mod and.commute [of 127])
qed

lemma shift_and_32: "drop_bit 2 z AND 32 = (if bit z 7 then 32 else 0 :: nat)"
proof (rule bit_eqI)
  fix n
  have "bit (32::nat) n \<longleftrightarrow> n = 5" using bit_exp_iff [where 'a=nat, of 5 n] by auto
  then show "bit (drop_bit 2 z AND 32) n = bit (if bit z 7 then 32 else 0 :: nat) n"
    by (cases "n = 5") (simp_all add: bit_and_iff bit_drop_bit_eq)
qed

lemma swar_bit_eq:
  assumes "d < 256"
  shows "swar_bit k d = (if d < 128 \<and> 102 \<le> (d + k) mod 128 then 32 else 0)"
proof -
  define y where "y = (d mod 128 + k) mod 128 + 26"
  have "y < 256" using mod_less_divisor [of 128 "d mod 128 + k"] by (simp add: y_def)
  then have b: "bit (y AND (255 - d)) 7 \<longleftrightarrow> 128 \<le> y \<and> 128 \<le> 255 - d"
    by (simp add: bit_and_iff bit7)
  have "swar_bit k d = (if bit (y AND (255 - d)) 7 then 32 else 0)"
    unfolding swar_bit_def shift_and_32 and_127 y_def ..
  moreover have "128 \<le> y \<longleftrightarrow> 102 \<le> (d + k) mod 128" unfolding y_def mod_add_left_eq by arith
  moreover have "128 \<le> 255 - d \<longleftrightarrow> d < 128" using assms by arith
  ultimately show ?thesis by (simp add: b conj_commute)
qed

definition upper_byte :: "nat \<Rightarrow> nat" where
  "upper_byte d = (if 97 \<le> d \<and> d \<le> 122 then d - 32 else d)"

definition lower_byte :: "nat \<Rightarrow> nat" where
  "lower_byte d = (if 65 \<le> d \<and> d \<le> 90 then d + 32 else d)"

lemma upper_lower_less: "d < 256 \<Longrightarrow> upper_byte d < 256" "d < 256 \<Longrightarrow> lower_byte d < 256"
  by (auto simp: upper_byte_def lower_byte_def)

lemma swar_upper: "d < 256 \<Longrightarrow> upper_byte d + swar_bit 5 d = d"
  by (auto simp: swar_bit_eq upper_byte_def mod_if)

lemma swar_lower: "d < 256 \<Longrightarrow> d + swar_bit 37 d = lower_byte d"
  by (auto simp: swar_bit_eq lower_byte_def mod_if)

lemma toupper_lanes:
  assumes "LENGTH('a::len) = 8 * n" and "length ds = n" and "\<forall>d \<in> set ds. d < 256"
  shows "word_of_bytes ds - (word_of_bytes (map (swar_bit 5) ds) :: 'a word) = word_of_bytes (map upper_byte ds)"
proof -
  have "map2 (+) (map upper_byte ds) (map (swar_bit 5) ds) = ds"
    using assms(3) by (induction ds) (auto simp: swar_upper)
  then have "word_of_bytes (map upper_byte ds) + word_of_bytes (map (swar_bit 5) ds) = (word_of_bytes ds :: 'a word)"
    by (simp add: word_of_bytes_add)
  then show ?thesis by (simp add: eq_diff_eq diff_eq_eq)
qed

lemma tolower_lanes:
  assumes "LENGTH('a::len) = 8 * n" and "length ds = n" and "\<forall>d \<in> set ds. d < 256"
  shows "word_of_bytes ds + (word_of_bytes (map (swar_bit 37) ds) :: 'a word) = word_of_bytes (map lower_byte ds)"
proof -
  have "map2 (+) ds (map (swar_bit 37) ds) = map lower_byte ds"
    using assms(3) by (induction ds) (auto simp: swar_lower)
  then show ?thesis by (simp add: word_of_bytes_add)
qed

lemma replicate_lanes: "replicate 4 c = [c, c, c, c]" "replicate 8 c = [c, c, c, c, c, c, c, c]"
  by (simp_all add: eval_nat_numeral)

lemma all_lanes_num:
  "all_lanes 4 127 = (0x7f7f7f7f :: u32)" "all_lanes 4 5 = (0x05050505 :: u32)" "all_lanes 4 37 = (0x25252525 :: u32)"
  "all_lanes 4 26 = (0x1a1a1a1a :: u32)" "all_lanes 4 32 = (0x20202020 :: u32)"
  "all_lanes 8 127 = (0x7f7f7f7f7f7f7f7f :: u64)" "all_lanes 8 5 = (0x0505050505050505 :: u64)"
  "all_lanes 8 37 = (0x2525252525252525 :: u64)" "all_lanes 8 26 = (0x1a1a1a1a1a1a1a1a :: u64)"
  "all_lanes 8 32 = (0x2020202020202020 :: u64)"
  by (simp_all add: all_lanes_def word_of_bytes_def replicate_lanes)

lemma toupper_word: "length ds = 4 \<Longrightarrow> \<forall>d \<in> set ds. d < 256 \<Longrightarrow>
    switch_toupper (word_of_bytes ds) = word_of_bytes (map upper_byte ds)"
  using swar_word [where 'a=32, of 4 ds 5] toupper_lanes [where 'a=32, of 4 ds]
  by (simp add: switch_toupper_def Let_def all_lanes_num)

lemma tolower_word: "length ds = 4 \<Longrightarrow> \<forall>d \<in> set ds. d < 256 \<Longrightarrow>
    switch_tolower (word_of_bytes ds) = word_of_bytes (map lower_byte ds)"
  using swar_word [where 'a=32, of 4 ds 37] tolower_lanes [where 'a=32, of 4 ds]
  by (simp add: switch_tolower_def Let_def all_lanes_num)

lemma toupper64_word: "length ds = 8 \<Longrightarrow> \<forall>d \<in> set ds. d < 256 \<Longrightarrow>
    switch_toupper64 (word_of_bytes ds) = word_of_bytes (map upper_byte ds)"
  using swar_word [where 'a=64, of 8 ds 5] toupper_lanes [where 'a=64, of 8 ds]
  by (simp add: switch_toupper64_def Let_def all_lanes_num)

lemma tolower64_word: "length ds = 8 \<Longrightarrow> \<forall>d \<in> set ds. d < 256 \<Longrightarrow>
    switch_tolower64 (word_of_bytes ds) = word_of_bytes (map lower_byte ds)"
  using swar_word [where 'a=64, of 8 ds 37] tolower_lanes [where 'a=64, of 8 ds]
  by (simp add: switch_tolower64_def Let_def all_lanes_num)

section \<open>Case conversion of a string\<close>

text \<open>
  A plain \<open>char\<close> is signed: passed as \<open>uint32_t\<close> a byte above 127 is extended with ones, and the cast
  of the result back to \<open>char\<close> keeps its low byte.
\<close>

definition char_arg :: "char \<Rightarrow> u32" where
  "char_arg c = (if code c < 128 then of_nat (code c) else of_nat (code c) - 256)"

definition to_char :: "u32 \<Rightarrow> char" where
  "to_char w = chr (unat w mod 256)"

definition toupper_char :: "char \<Rightarrow> char" where
  "toupper_char c = to_char (switch_toupper (char_arg c))"

definition tolower_char :: "char \<Rightarrow> char" where
  "tolower_char c = to_char (switch_tolower (char_arg c))"

definition load_bytes :: "string \<Rightarrow> 'a :: len word" where
  "load_bytes s = word_of_bytes (map code s)"

definition store_bytes :: "nat \<Rightarrow> 'a :: len word \<Rightarrow> string" where
  "store_bytes n w = map chr (word_bytes n (unat w))"

text \<open>The loops of the 32-bit build (\<open>while (l > 4)\<close>) and of the 64-bit build (\<open>while (l > 8)\<close>).\<close>

fun switch_toupper_max :: "string \<Rightarrow> string" where
  "switch_toupper_max s =
     (if length s > 4 then store_bytes 4 (switch_toupper (load_bytes (take 4 s))) @ switch_toupper_max (drop 4 s)
      else map toupper_char s)"

fun switch_tolower_max :: "string \<Rightarrow> string" where
  "switch_tolower_max s =
     (if length s > 4 then store_bytes 4 (switch_tolower (load_bytes (take 4 s))) @ switch_tolower_max (drop 4 s)
      else map tolower_char s)"

fun switch_toupper_max64 :: "string \<Rightarrow> string" where
  "switch_toupper_max64 s =
     (if length s > 8 then store_bytes 8 (switch_toupper64 (load_bytes (take 8 s))) @ switch_toupper_max64 (drop 8 s)
      else map toupper_char s)"

fun switch_tolower_max64 :: "string \<Rightarrow> string" where
  "switch_tolower_max64 s =
     (if length s > 8 then store_bytes 8 (switch_tolower64 (load_bytes (take 8 s))) @ switch_tolower_max64 (drop 8 s)
      else map tolower_char s)"

declare switch_toupper_max.simps [simp del] switch_tolower_max.simps [simp del]
  switch_toupper_max64.simps [simp del] switch_tolower_max64.simps [simp del]

definition ascii_upper :: "char \<Rightarrow> char" where
  "ascii_upper c = chr (upper_byte (code c))"

lemma ascii_lower_byte: "ascii_lower c = chr (lower_byte (code c))"
  by (simp add: ascii_lower_def lower_byte_def code_def chr_def)

lemma char_arg_bytes: "\<exists>e < 256. char_arg c = word_of_bytes [code c, e, e, e]"
proof (cases "code c < 128")
  case True
  then show ?thesis by (intro exI [of _ 0]) (simp add: char_arg_def word_of_bytes_def)
next
  case False
  have "(of_nat (lanes [code c, 255, 255, 255]) :: u32) = of_nat (code c) + 0xFFFFFF00" by simp
  also have "\<dots> = of_nat (code c) - 256" by simp
  finally show ?thesis using False by (intro exI [of _ 255]) (simp add: char_arg_def word_of_bytes_def del: lanes.simps)
qed

lemma unat_word_of_bytes:
  assumes "LENGTH('a::len) = 8 * length ds" and "\<forall>d \<in> set ds. d < 256"
  shows "unat (word_of_bytes ds :: 'a word) = lanes ds"
proof -
  have "lanes ds < 2 ^ LENGTH('a)" using lanes_less [OF assms(2)] assms(1) by (simp add: power_mult)
  then show ?thesis by (simp add: word_of_bytes_def unsigned_of_nat take_bit_nat_eq_self)
qed

lemma lanes_low: "d < 256 \<Longrightarrow> lanes (d # ds) mod 256 = d"
  by simp

lemma toupper_char_eq: "toupper_char c = ascii_upper c"
proof -
  obtain e where e: "e < 256" "char_arg c = word_of_bytes [code c, e, e, e]" using char_arg_bytes by blast
  have "unat (switch_toupper (char_arg c)) = lanes (map upper_byte [code c, e, e, e])"
    unfolding e(2) by (subst toupper_word) (simp_all add: e(1) unat_word_of_bytes upper_lower_less)
  then show ?thesis by (simp add: toupper_char_def to_char_def ascii_upper_def upper_lower_less lanes_low del: lanes.simps)
qed

lemma tolower_char_eq: "tolower_char c = ascii_lower c"
proof -
  obtain e where e: "e < 256" "char_arg c = word_of_bytes [code c, e, e, e]" using char_arg_bytes by blast
  have "unat (switch_tolower (char_arg c)) = lanes (map lower_byte [code c, e, e, e])"
    unfolding e(2) by (subst tolower_word) (simp_all add: e(1) unat_word_of_bytes upper_lower_less)
  then show ?thesis by (simp add: tolower_char_def to_char_def ascii_lower_byte upper_lower_less lanes_low del: lanes.simps)
qed

lemma store_word_of_bytes:
  assumes "LENGTH('a::len) = 8 * length ds" and "\<forall>d \<in> set ds. d < 256"
  shows "store_bytes (length ds) (word_of_bytes ds :: 'a word) = map chr ds"
  using assms by (simp add: store_bytes_def unat_word_of_bytes word_bytes_lanes)

lemma map_codes_less: "\<forall>d \<in> set (map upper_byte (map code s)). d < 256" "\<forall>d \<in> set (map lower_byte (map code s)). d < 256"
  "\<forall>d \<in> set (map code s). d < 256"
  by (simp_all add: upper_lower_less)

lemma toupper_block: "length s = 4 \<Longrightarrow> store_bytes 4 (switch_toupper (load_bytes s)) = map ascii_upper s"
  using store_word_of_bytes [where 'a=32, of "map upper_byte (map code s)"] map_codes_less [of s]
  by (simp add: load_bytes_def toupper_word comp_def ascii_upper_def)

lemma tolower_block: "length s = 4 \<Longrightarrow> store_bytes 4 (switch_tolower (load_bytes s)) = map ascii_lower s"
  using store_word_of_bytes [where 'a=32, of "map lower_byte (map code s)"] map_codes_less [of s]
  by (simp add: load_bytes_def tolower_word comp_def ascii_lower_byte)

lemma toupper64_block: "length s = 8 \<Longrightarrow> store_bytes 8 (switch_toupper64 (load_bytes s)) = map ascii_upper s"
  using store_word_of_bytes [where 'a=64, of "map upper_byte (map code s)"] map_codes_less [of s]
  by (simp add: load_bytes_def toupper64_word comp_def ascii_upper_def)

lemma tolower64_block: "length s = 8 \<Longrightarrow> store_bytes 8 (switch_tolower64 (load_bytes s)) = map ascii_lower s"
  using store_word_of_bytes [where 'a=64, of "map lower_byte (map code s)"] map_codes_less [of s]
  by (simp add: load_bytes_def tolower64_word comp_def ascii_lower_byte)

lemmas case_blocks = toupper_block tolower_block toupper64_block tolower64_block toupper_char_eq [abs_def] tolower_char_eq [abs_def]

text \<open>
  C28. The case conversions that handle four or eight characters per step, the last ones one by one,
  agree with the conversion of the string character by character.
\<close>

theorem case_max_charwise:
  "switch_toupper_max s = map ascii_upper s \<and> switch_tolower_max s = map ascii_lower s \<and>
   switch_toupper_max64 s = map ascii_upper s \<and> switch_tolower_max64 s = map ascii_lower s"
proof -
  have split: "map f (take n s) @ map f (drop n s) = map f s" for f :: "char \<Rightarrow> char" and n s
    by (metis append_take_drop_id map_append)
  have "switch_toupper_max s = map ascii_upper s"
    by (induction s rule: switch_toupper_max.induct) (subst switch_toupper_max.simps, simp add: case_blocks split)
  moreover have "switch_tolower_max s = map ascii_lower s"
    by (induction s rule: switch_tolower_max.induct) (subst switch_tolower_max.simps, simp add: case_blocks split)
  moreover have "switch_toupper_max64 s = map ascii_upper s"
    by (induction s rule: switch_toupper_max64.induct) (subst switch_toupper_max64.simps, simp add: case_blocks split)
  moreover have "switch_tolower_max64 s = map ascii_lower s"
    by (induction s rule: switch_tolower_max64.induct) (subst switch_tolower_max64.simps, simp add: case_blocks split)
  ultimately show ?thesis by simp
qed

section \<open>Character tables\<close>

definition switch_C_toupper :: "int list" where
  "switch_C_toupper = [
     -1, 0x00, 0x01, 0x02, 0x03, 0x04, 0x05, 0x06, 0x07, 0x08, 0x09, 0x0a, 0x0b, 0x0c, 0x0d, 0x0e,
     0x0f, 0x10, 0x11, 0x12, 0x13, 0x14, 0x15, 0x16, 0x17, 0x18, 0x19, 0x1a, 0x1b, 0x1c, 0x1d,
     0x1e, 0x1f, 0x20, 0x21, 0x22, 0x23, 0x24, 0x25, 0x26, 0x27, 0x28, 0x29, 0x2a, 0x2b, 0x2c,
     0x2d, 0x2e, 0x2f, 0x30, 0x31, 0x32, 0x33, 0x34, 0x35, 0x36, 0x37, 0x38, 0x39, 0x3a, 0x3b,
     0x3c, 0x3d, 0x3e, 0x3f, 0x40, 0x41, 0x42, 0x43, 0x44, 0x45, 0x46, 0x47, 0x48, 0x49, 0x4a,
     0x4b, 0x4c, 0x4d, 0x4e, 0x4f, 0x50, 0x51, 0x52, 0x53, 0x54, 0x55, 0x56, 0x57, 0x58, 0x59,
     0x5a, 0x5b, 0x5c, 0x5d, 0x5e, 0x5f, 0x60, 65, 66, 67, 68, 69, 70, 71, 72, 73, 74, 75, 76, 77,
     78, 79, 80, 81, 82, 83, 84, 85, 86, 87, 88, 89, 90, 0x7b, 0x7c, 0x7d, 0x7e, 0x7f, 0x80, 0x81,
     0x82, 0x83, 0x84, 0x85, 0x86, 0x87, 0x88, 0x89, 0x8a, 0x8b, 0x8c, 0x8d, 0x8e, 0x8f, 0x90,
     0x91, 0x92, 0x93, 0x94, 0x95, 0x96, 0x97, 0x98, 0x99, 0x9a, 0x9b, 0x9c, 0x9d, 0x9e, 0x9f,
     0xa0, 0xa1, 0xa2, 0xa3, 0xa4, 0xa5, 0xa6, 0xa7, 0xa8, 0xa9, 0xaa, 0xab, 0xac, 0xad, 0xae,
     0xaf, 0xb0, 0xb1, 0xb2, 0xb3, 0xb4, 0xb5, 0xb6, 0xb7, 0xb8, 0xb9, 0xba, 0xbb, 0xbc, 0xbd,
     0xbe, 0xbf, 0xc0, 0xc1, 0xc2, 0xc3, 0xc4, 0xc5, 0xc6, 0xc7, 0xc8, 0xc9, 0xca, 0xcb, 0xcc,
     0xcd, 0xce, 0xcf, 0xd0, 0xd1, 0xd2, 0xd3, 0xd4, 0xd5, 0xd6, 0xd7, 0xd8, 0xd9, 0xda, 0xdb,
     0xdc, 0xdd, 0xde, 0xdf, 0xe0, 0xe1, 0xe2, 0xe3, 0xe4, 0xe5, 0xe6, 0xe7, 0xe8, 0xe9, 0xea,
     0xeb, 0xec, 0xed, 0xee, 0xef, 0xf0, 0xf1, 0xf2, 0xf3, 0xf4, 0xf5, 0xf6, 0xf7, 0xf8, 0xf9,
     0xfa, 0xfb, 0xfc, 0xfd, 0xfe, 0xff]"

definition switch_C_tolower :: "int list" where
  "switch_C_tolower = [
     -1, 0x00, 0x01, 0x02, 0x03, 0x04, 0x05, 0x06, 0x07, 0x08, 0x09, 0x0a, 0x0b, 0x0c, 0x0d, 0x0e,
     0x0f, 0x10, 0x11, 0x12, 0x13, 0x14, 0x15, 0x16, 0x17, 0x18, 0x19, 0x1a, 0x1b, 0x1c, 0x1d,
     0x1e, 0x1f, 0x20, 0x21, 0x22, 0x23, 0x24, 0x25, 0x26, 0x27, 0x28, 0x29, 0x2a, 0x2b, 0x2c,
     0x2d, 0x2e, 0x2f, 0x30, 0x31, 0x32, 0x33, 0x34, 0x35, 0x36, 0x37, 0x38, 0x39, 0x3a, 0x3b,
     0x3c, 0x3d, 0x3e, 0x3f, 0x40, 97, 98, 99, 100, 101, 102, 103, 104, 105, 106, 107, 108, 109,
     110, 111, 112, 113, 114, 115, 116, 117, 118, 119, 120, 121, 122, 0x5b, 0x5c, 0x5d, 0x5e, 0x5f,
     0x60, 0x61, 0x62, 0x63, 0x64, 0x65, 0x66, 0x67, 0x68, 0x69, 0x6a, 0x6b, 0x6c, 0x6d, 0x6e,
     0x6f, 0x70, 0x71, 0x72, 0x73, 0x74, 0x75, 0x76, 0x77, 0x78, 0x79, 0x7a, 0x7b, 0x7c, 0x7d,
     0x7e, 0x7f, 0x80, 0x81, 0x82, 0x83, 0x84, 0x85, 0x86, 0x87, 0x88, 0x89, 0x8a, 0x8b, 0x8c,
     0x8d, 0x8e, 0x8f, 0x90, 0x91, 0x92, 0x93, 0x94, 0x95, 0x96, 0x97, 0x98, 0x99, 0x9a, 0x9b,
     0x9c, 0x9d, 0x9e, 0x9f, 0xa0, 0xa1, 0xa2, 0xa3, 0xa4, 0xa5, 0xa6, 0xa7, 0xa8, 0xa9, 0xaa,
     0xab, 0xac, 0xad, 0xae, 0xaf, 0xb0, 0xb1, 0xb2, 0xb3, 0xb4, 0xb5, 0xb6, 0xb7, 0xb8, 0xb9,
     0xba, 0xbb, 0xbc, 0xbd, 0xbe, 0xbf, 0xc0, 0xc1, 0xc2, 0xc3, 0xc4, 0xc5, 0xc6, 0xc7, 0xc8,
     0xc9, 0xca, 0xcb, 0xcc, 0xcd, 0xce, 0xcf, 0xd0, 0xd1, 0xd2, 0xd3, 0xd4, 0xd5, 0xd6, 0xd7,
     0xd8, 0xd9, 0xda, 0xdb, 0xdc, 0xdd, 0xde, 0xdf, 0xe0, 0xe1, 0xe2, 0xe3, 0xe4, 0xe5, 0xe6,
     0xe7, 0xe8, 0xe9, 0xea, 0xeb, 0xec, 0xed, 0xee, 0xef, 0xf0, 0xf1, 0xf2, 0xf3, 0xf4, 0xf5,
     0xf6, 0xf7, 0xf8, 0xf9, 0xfa, 0xfb, 0xfc, 0xfd, 0xfe, 0xff]"

text \<open>The index of the tables is shifted by one: their first entry is for EOF.\<close>

definition old_switch_toupper :: "int \<Rightarrow> int" where
  "old_switch_toupper c =
     (if (of_int c :: u32) > 255 then c else if c < -1 then -1 else switch_C_toupper ! nat (c + 1))"

definition old_switch_tolower :: "int \<Rightarrow> int" where
  "old_switch_tolower c =
     (if (of_int c :: u32) > 255 then c else if c < -1 then -1 else switch_C_tolower ! nat (c + 1))"

definition ct_U :: int where "ct_U = 0x01"
definition ct_L :: int where "ct_L = 0x02"
definition ct_N :: int where "ct_N = 0x04"
definition ct_S :: int where "ct_S = 0x08"
definition ct_P :: int where "ct_P = 0x10"
definition ct_C :: int where "ct_C = 0x20"
definition ct_X :: int where "ct_X = 0x40"
definition ct_B :: int where "ct_B = 0x80"

definition switch_C_ctype :: "int list" where
  "switch_C_ctype = [
     0, ct_C, ct_C, ct_C, ct_C, ct_C, ct_C, ct_C, ct_C, ct_C, (ct_C OR ct_S), (ct_C OR ct_S),
     (ct_C OR ct_S), (ct_C OR ct_S), (ct_C OR ct_S), ct_C, ct_C, ct_C, ct_C, ct_C, ct_C, ct_C,
     ct_C, ct_C, ct_C, ct_C, ct_C, ct_C, ct_C, ct_C, ct_C, ct_C, ct_C, (ct_S OR ct_B), ct_P, ct_P,
     ct_P, ct_P, ct_P, ct_P, ct_P, ct_P, ct_P, ct_P, ct_P, ct_P, ct_P, ct_P, ct_P, ct_N, ct_N,
     ct_N, ct_N, ct_N, ct_N, ct_N, ct_N, ct_N, ct_N, ct_P, ct_P, ct_P, ct_P, ct_P, ct_P, ct_P,
     (ct_U OR ct_X), (ct_U OR ct_X), (ct_U OR ct_X), (ct_U OR ct_X), (ct_U OR ct_X),
     (ct_U OR ct_X), ct_U, ct_U, ct_U, ct_U, ct_U, ct_U, ct_U, ct_U, ct_U, ct_U, ct_U, ct_U, ct_U,
     ct_U, ct_U, ct_U, ct_U, ct_U, ct_U, ct_U, ct_P, ct_P, ct_P, ct_P, ct_P, ct_P, (ct_L OR ct_X),
     (ct_L OR ct_X), (ct_L OR ct_X), (ct_L OR ct_X), (ct_L OR ct_X), (ct_L OR ct_X), ct_L, ct_L,
     ct_L, ct_L, ct_L, ct_L, ct_L, ct_L, ct_L, ct_L, ct_L, ct_L, ct_L, ct_L, ct_L, ct_L, ct_L,
     ct_L, ct_L, ct_L, ct_P, ct_P, ct_P, ct_P, ct_C, ct_C, ct_C, ct_C, ct_C, ct_C, ct_C, ct_C,
     ct_C, ct_C, ct_C, ct_C, ct_C, ct_C, ct_C, ct_C, ct_C, ct_C, ct_C, ct_C, ct_C, ct_C, ct_C,
     ct_C, ct_C, ct_C, ct_C, ct_C, ct_C, ct_C, ct_C, ct_C, ct_C, ct_P, ct_P, ct_P, ct_P, ct_P,
     ct_P, ct_P, ct_P, ct_P, ct_P, ct_P, ct_P, ct_P, ct_P, ct_P, ct_P, ct_P, ct_P, ct_P, ct_P,
     ct_P, ct_P, ct_P, ct_P, ct_P, ct_P, ct_P, ct_P, ct_P, ct_P, ct_P, ct_P, ct_P, ct_P, ct_P,
     ct_P, ct_P, ct_P, ct_P, ct_P, ct_P, ct_P, ct_P, ct_P, ct_P, ct_P, ct_P, ct_P, ct_P, ct_P,
     ct_P, ct_P, ct_P, ct_P, ct_P, ct_P, ct_P, ct_P, ct_P, ct_P, ct_P, ct_P, ct_P, ct_P, ct_P,
     ct_P, ct_P, ct_P, ct_P, ct_P, ct_P, ct_P, ct_P, ct_P, ct_P, ct_P, ct_P, ct_P, ct_P, ct_P,
     ct_P, ct_P, ct_P, ct_P, ct_P, ct_P, ct_P, ct_P, ct_P, ct_P, ct_P, ct_P, ct_P, ct_P, ct_P, ct_P]"

definition switch_isalnum :: "int \<Rightarrow> int" where
  "switch_isalnum c = (if c < 0 then 0 else if c > 255 then 0 else switch_C_ctype ! nat (c + 1) AND (ct_U OR ct_L OR ct_N))"

definition switch_isalpha :: "int \<Rightarrow> int" where
  "switch_isalpha c = (if c < 0 then 0 else if c > 255 then 0 else switch_C_ctype ! nat (c + 1) AND (ct_U OR ct_L))"

definition switch_iscntrl :: "int \<Rightarrow> int" where
  "switch_iscntrl c = (if c < 0 then 0 else if c > 255 then 0 else switch_C_ctype ! nat (c + 1) AND (ct_C))"

definition switch_isdigit :: "int \<Rightarrow> int" where
  "switch_isdigit c = (if c < 0 then 0 else if c > 255 then 0 else switch_C_ctype ! nat (c + 1) AND (ct_N))"

definition switch_isgraph :: "int \<Rightarrow> int" where
  "switch_isgraph c = (if c < 0 then 0 else if c > 255 then 0 else switch_C_ctype ! nat (c + 1) AND (ct_P OR ct_U OR ct_L OR ct_N))"

definition switch_islower :: "int \<Rightarrow> int" where
  "switch_islower c = (if c < 0 then 0 else if c > 255 then 0 else switch_C_ctype ! nat (c + 1) AND (ct_L))"

definition switch_isprint :: "int \<Rightarrow> int" where
  "switch_isprint c = (if c < 0 then 0 else if c > 255 then 0 else switch_C_ctype ! nat (c + 1) AND (ct_P OR ct_U OR ct_L OR ct_N OR ct_B))"

definition switch_ispunct :: "int \<Rightarrow> int" where
  "switch_ispunct c = (if c < 0 then 0 else if c > 255 then 0 else switch_C_ctype ! nat (c + 1) AND (ct_P))"

definition switch_isspace :: "int \<Rightarrow> int" where
  "switch_isspace c = (if c < 0 then 0 else if c > 255 then 0 else switch_C_ctype ! nat (c + 1) AND (ct_S))"

definition switch_isupper :: "int \<Rightarrow> int" where
  "switch_isupper c = (if c < 0 then 0 else if c > 255 then 0 else switch_C_ctype ! nat (c + 1) AND (ct_U))"

definition switch_isxdigit :: "int \<Rightarrow> int" where
  "switch_isxdigit c = (if c < 0 then 0 else if c > 255 then 0 else switch_C_ctype ! nat (c + 1) AND (ct_N OR ct_X))"

lemmas ct_defs = ct_U_def ct_L_def ct_N_def ct_S_def ct_P_def ct_C_def ct_X_def ct_B_def

lemmas switch_is_defs = switch_isalnum_def switch_isalpha_def switch_iscntrl_def switch_isdigit_def switch_isgraph_def
  switch_islower_def switch_isprint_def switch_ispunct_def switch_isspace_def switch_isupper_def switch_isxdigit_def

text \<open>A statement on all bytes, checked entry by entry along a table.\<close>

definition byte_range :: "int list" where
  "byte_range = map int [0..<256]"

lemma byte_range: "length byte_range = 256" "n < 256 \<Longrightarrow> byte_range ! n = int n"
  by (simp_all add: byte_range_def)

lemma table_all:
  assumes "length tab = 257" and "list_all (\<lambda>(i, x). P i x) (zip byte_range (tl tab))" and "0 \<le> c" and "c \<le> 255"
  shows "P c (tab ! nat (c + 1))"
proof -
  have n: "nat c < 256" "nat (c + 1) = Suc (nat c)" "int (nat c) = c" using assms(3,4) by simp_all
  then have "nat c < length (zip byte_range (tl tab))" using assms(1) by (simp add: byte_range)
  from assms(2) [unfolded list_all_length, rule_format, OF this] n assms(1) show ?thesis
    by (simp add: byte_range nth_tl)
qed

lemma tables_eq:
  "list_all (\<lambda>(i, x). x = (if 97 \<le> i \<and> i \<le> 122 then i - 32 else i)) (zip byte_range (tl switch_C_toupper))"
  "list_all (\<lambda>(i, x). x = (if 65 \<le> i \<and> i \<le> 90 then i + 32 else i)) (zip byte_range (tl switch_C_tolower))"
  by code_simp+

lemma ctype_eq:
  "list_all (\<lambda>(i, x). x =
     (if 65 \<le> i \<and> i \<le> 70 then 0x41 else if 71 \<le> i \<and> i \<le> 90 then 0x01
      else if 97 \<le> i \<and> i \<le> 102 then 0x42 else if 103 \<le> i \<and> i \<le> 122 then 0x02
      else if 48 \<le> i \<and> i \<le> 57 then 0x04 else if i = 32 then 0x88
      else if 9 \<le> i \<and> i \<le> 13 then 0x28 else if i < 32 \<or> (127 \<le> i \<and> i < 160) then 0x20 else 0x10))
     (zip byte_range (tl switch_C_ctype))"
  by code_simp

lemma ctype_lookup:
  assumes "0 \<le> c" and "c \<le> 255"
  shows "switch_C_ctype ! nat (c + 1) =
     (if 65 \<le> c \<and> c \<le> 70 then 0x41 else if 71 \<le> c \<and> c \<le> 90 then 0x01
      else if 97 \<le> c \<and> c \<le> 102 then 0x42 else if 103 \<le> c \<and> c \<le> 122 then 0x02
      else if 48 \<le> c \<and> c \<le> 57 then 0x04 else if c = 32 then 0x88
      else if 9 \<le> c \<and> c \<le> 13 then 0x28 else if c < 32 \<or> (127 \<le> c \<and> c < 160) then 0x20 else 0x10)"
  by (rule table_all [OF _ ctype_eq assms]) (simp add: switch_C_ctype_def)

lemma case_lookup:
  assumes "0 \<le> c" and "c \<le> 255"
  shows "switch_C_toupper ! nat (c + 1) = (if 97 \<le> c \<and> c \<le> 122 then c - 32 else c)"
    "switch_C_tolower ! nat (c + 1) = (if 65 \<le> c \<and> c \<le> 90 then c + 32 else c)"
  by (rule table_all [OF _ tables_eq(1) assms], simp add: switch_C_toupper_def)
     (rule table_all [OF _ tables_eq(2) assms], simp add: switch_C_tolower_def)

text \<open>
  The class tests read from the table are the classes of the ASCII characters (with the upper half
  of the code page counted as punctuation from 160 on), and an argument outside a byte is in no class.
\<close>

theorem ctype_classes:
  "(switch_isupper c \<noteq> 0 \<longleftrightarrow> 65 \<le> c \<and> c \<le> 90) \<and> (switch_islower c \<noteq> 0 \<longleftrightarrow> 97 \<le> c \<and> c \<le> 122) \<and>
   (switch_isdigit c \<noteq> 0 \<longleftrightarrow> 48 \<le> c \<and> c \<le> 57) \<and>
   (switch_isalpha c \<noteq> 0 \<longleftrightarrow> switch_isupper c \<noteq> 0 \<or> switch_islower c \<noteq> 0) \<and>
   (switch_isalnum c \<noteq> 0 \<longleftrightarrow> switch_isalpha c \<noteq> 0 \<or> switch_isdigit c \<noteq> 0) \<and>
   (switch_isxdigit c \<noteq> 0 \<longleftrightarrow> switch_isdigit c \<noteq> 0 \<or> (65 \<le> c \<and> c \<le> 70) \<or> (97 \<le> c \<and> c \<le> 102)) \<and>
   (switch_isspace c \<noteq> 0 \<longleftrightarrow> c = 32 \<or> (9 \<le> c \<and> c \<le> 13)) \<and>
   (switch_iscntrl c \<noteq> 0 \<longleftrightarrow> (0 \<le> c \<and> c < 32) \<or> (127 \<le> c \<and> c < 160)) \<and>
   (switch_isgraph c \<noteq> 0 \<longleftrightarrow> switch_isalnum c \<noteq> 0 \<or> switch_ispunct c \<noteq> 0) \<and>
   (switch_isprint c \<noteq> 0 \<longleftrightarrow> switch_isgraph c \<noteq> 0 \<or> c = 32)"
proof (cases "0 \<le> c \<and> c \<le> 255")
  case True
  then show ?thesis by (simp add: switch_is_defs ctype_lookup ct_defs) arith
next
  case False
  then show ?thesis by (auto simp: switch_is_defs)
qed

theorem ctype_classes_witness: "switch_isalnum 65 \<noteq> 0 \<and> switch_isspace 65 = 0"
  using ctype_classes [of 65] by simp

text \<open>The table-driven conversion and the word-wide one agree on every character.\<close>

lemma old_toupper_agrees: "old_switch_toupper (int (code c)) = int (code (toupper_char c))"
  "old_switch_tolower (int (code c)) = int (code (tolower_char c))"
proof -
  have r: "(0::int) \<le> int (code c)" "int (code c) \<le> 255" using code_less [of c] by linarith+
  have "take_bit 32 (code c) \<le> 255" using code_less [of c] take_bit_nat_less_eq_self [of 32 "code c"] by linarith
  then have "\<not> (of_int (int (code c)) :: u32) > 255" by (simp add: word_less_nat_alt unsigned_of_nat)
  with case_lookup [OF r] show "old_switch_toupper (int (code c)) = int (code (toupper_char c))"
    "old_switch_tolower (int (code c)) = int (code (tolower_char c))"
    by (auto simp: old_switch_toupper_def old_switch_tolower_def toupper_char_eq tolower_char_eq ascii_upper_def
        ascii_lower_byte upper_byte_def lower_byte_def)
qed

end
