(* ===== verification/FS_CoreHash.thy ===== *)
theory FS_CoreHash
  imports FS_Hashtable FS_Chars
begin

text \<open>
  The string-keyed tables of \<^verbatim>\<open>src/src/lib/libfreeswitch/switch_core_hash.c\<close> over the hash table:
  hash functions and key equality (\<^verbatim>\<open>src/src/include/switch_hashtable.h\<close>), the case-insensitive
  variant with its word-wide lower-casing of the theory \<open>FS_Chars\<close>, and the operations the
  rest of the core calls. The contract they promise is the locale \<open>assoc_store\<close>.
\<close>

section \<open>Keys\<close>

definition switch_hash_equalkeys :: "string \<Rightarrow> string \<Rightarrow> bool" where
  "switch_hash_equalkeys k1 k2 \<longleftrightarrow> k1 = k2"

definition switch_hash_equalkeys_ci :: "string \<Rightarrow> string \<Rightarrow> bool" where
  "switch_hash_equalkeys_ci k1 k2 \<longleftrightarrow> strcasecmp_eq k1 k2"

fun sdbm_step :: "u32 \<Rightarrow> u32 \<Rightarrow> u32" where
  "sdbm_step c h = c + push_bit 6 h + push_bit 16 h - h"

definition switch_hash_default :: "string \<Rightarrow> u32" where
  "switch_hash_default ky = fold (\<lambda>ch h. sdbm_step (of_char ch) h) ky 0"

definition switch_hash_default_ci :: "string \<Rightarrow> u32" where
  "switch_hash_default_ci ky = fold (\<lambda>ch h. sdbm_step (switch_tolower (of_char ch)) h) ky 0"

text \<open>The lower-casing trick on one byte is the lower-casing of the C locale.\<close>

lemma of_char_bytes: "(of_char ch :: u32) = word_of_bytes [code ch, 0, 0, 0]"
  by (simp add: word_of_bytes_def code_def of_nat_of_char)

lemma switch_tolower_char: "switch_tolower (of_char ch) = of_char (ascii_lower ch)"
proof -
  have "code (ascii_lower ch) = lower_byte (code ch)" by (simp add: ascii_lower_byte upper_lower_less)
  moreover have "lower_byte 0 = 0" by (simp add: lower_byte_def)
  ultimately show ?thesis unfolding of_char_bytes by (subst tolower_word) simp_all
qed

lemma switch_hash_default_ci_lower:
  "switch_hash_default_ci ky = switch_hash_default (map ascii_lower ky)"
  by (simp add: switch_hash_default_ci_def switch_hash_default_def fold_map comp_def switch_tolower_char
      del: sdbm_step.simps)

section \<open>Operations\<close>

text \<open>
  The allocations one insertion makes: the copy of the key, the larger table (\<open>calloc\<close>, else
  \<open>reallocarray\<close>), the entry.
\<close>

record alloc_outcome =
  strdup_ok :: bool
  calloc_ok :: bool
  realloc_ok :: bool
  entry_ok :: bool

type_synonym 'v switch_hash = "(string, 'v) switch_hashtable"

definition switch_core_hash_init_case ::
    "bool \<Rightarrow> bool \<Rightarrow> bool \<Rightarrow> (switch_status_t \<times> 'v switch_hash option) c" where
  "switch_core_hash_init_case struct_ok table_ok case_sensitive =
     (if case_sensitive
      then switch_create_hashtable struct_ok table_ok 16 switch_hash_default switch_hash_equalkeys
      else switch_create_hashtable struct_ok table_ok 16 switch_hash_default_ci switch_hash_equalkeys_ci)"

definition switch_core_hash_destroy ::
    "'v switch_hash option \<Rightarrow> (switch_status_t \<times> (string, 'v) release list) c" where
  "switch_core_hash_destroy ho =
     (case ho of None \<Rightarrow> Inl Assertion_Failed
      | Some h \<Rightarrow> Inr (SWITCH_STATUS_SUCCESS, switch_hashtable_destroy h))"

definition switch_core_hash_insert_destructor ::
    "alloc_outcome \<Rightarrow> 'v switch_hash \<Rightarrow> string \<Rightarrow> 'v option \<Rightarrow> nat option \<Rightarrow>
     (switch_status_t \<times> (string, 'v) release list \<times> 'v switch_hash) c" where
  "switch_core_hash_insert_destructor m h key data destructor =
     (if \<not> strdup_ok m then Inl Null_Deref
      else
        bindE (switch_hashtable_insert_destructor (calloc_ok m) (realloc_ok m) (entry_ok m) h key data
                 (HASHTABLE_FLAG_FREE_KEY OR HASHTABLE_DUP_CHECK) destructor)
          (\<lambda>(_, rel, h'). Inr (SWITCH_STATUS_SUCCESS, rel, h')))"

definition switch_core_hash_insert ::
    "alloc_outcome \<Rightarrow> 'v switch_hash \<Rightarrow> string \<Rightarrow> 'v option \<Rightarrow>
     (switch_status_t \<times> (string, 'v) release list \<times> 'v switch_hash) c" where
  "switch_core_hash_insert m h key data = switch_core_hash_insert_destructor m h key data None"

text \<open>
  The locked variants take the lock and unlock calls of the threading library, which act on a world
  \<open>'w\<close>; the lock may be NULL.
\<close>

definition opt_call :: "('m \<Rightarrow> 'w \<Rightarrow> 'w) \<Rightarrow> 'm option \<Rightarrow> 'w \<Rightarrow> 'w" where
  "opt_call f mo w = (case mo of Some m \<Rightarrow> f m w | None \<Rightarrow> w)"

definition switch_core_hash_insert_locked ::
    "('m \<Rightarrow> 'w \<Rightarrow> 'w) \<Rightarrow> ('m \<Rightarrow> 'w \<Rightarrow> 'w) \<Rightarrow> alloc_outcome \<Rightarrow> 'v switch_hash \<Rightarrow> string \<Rightarrow> 'v option \<Rightarrow>
     'm option \<Rightarrow> 'w \<Rightarrow> (switch_status_t \<times> (string, 'v) release list \<times> 'v switch_hash \<times> 'w) c" where
  "switch_core_hash_insert_locked lock unlock m h key data mutex w =
     (let w1 = opt_call lock mutex w in
      bindE (switch_core_hash_insert m h key data) (\<lambda>(_, rel, h').
        Inr (SWITCH_STATUS_SUCCESS, rel, h', opt_call unlock mutex w1)))"

definition switch_core_hash_insert_wrlock ::
    "('m \<Rightarrow> 'w \<Rightarrow> 'w) \<Rightarrow> ('m \<Rightarrow> 'w \<Rightarrow> 'w) \<Rightarrow> alloc_outcome \<Rightarrow> 'v switch_hash \<Rightarrow> string \<Rightarrow> 'v option \<Rightarrow>
     'm option \<Rightarrow> 'w \<Rightarrow> (switch_status_t \<times> (string, 'v) release list \<times> 'v switch_hash \<times> 'w) c" where
  "switch_core_hash_insert_wrlock wrlock unlock m h key data rwlock w =
     (let w1 = opt_call wrlock rwlock w in
      bindE (switch_core_hash_insert m h key data) (\<lambda>(_, rel, h').
        Inr (SWITCH_STATUS_SUCCESS, rel, h', opt_call unlock rwlock w1)))"

definition switch_core_hash_delete :: "'v switch_hash \<Rightarrow> string \<Rightarrow>
    switch_status_t \<times> (string, 'v) release list \<times> 'v switch_hash" where
  "switch_core_hash_delete h key =
     (case switch_hashtable_remove h key of (_, rel, h') \<Rightarrow> (SWITCH_STATUS_SUCCESS, rel, h'))"

definition switch_core_hash_delete_locked ::
    "('m \<Rightarrow> 'w \<Rightarrow> 'w) \<Rightarrow> ('m \<Rightarrow> 'w \<Rightarrow> 'w) \<Rightarrow> 'v switch_hash \<Rightarrow> string \<Rightarrow> 'm option \<Rightarrow> 'w \<Rightarrow>
     switch_status_t \<times> (string, 'v) release list \<times> 'v switch_hash \<times> 'w" where
  "switch_core_hash_delete_locked lock unlock h key mutex w =
     (let w1 = opt_call lock mutex w
      in case switch_core_hash_delete h key of (_, rel, h') \<Rightarrow>
           (SWITCH_STATUS_SUCCESS, rel, h', opt_call unlock mutex w1))"

definition switch_core_hash_delete_wrlock ::
    "('m \<Rightarrow> 'w \<Rightarrow> 'w) \<Rightarrow> ('m \<Rightarrow> 'w \<Rightarrow> 'w) \<Rightarrow> 'v switch_hash \<Rightarrow> string \<Rightarrow> 'm option \<Rightarrow> 'w \<Rightarrow>
     switch_status_t \<times> (string, 'v) release list \<times> 'v switch_hash \<times> 'w" where
  "switch_core_hash_delete_wrlock wrlock unlock h key rwlock w =
     (let w1 = opt_call wrlock rwlock w
      in case switch_core_hash_delete h key of (_, rel, h') \<Rightarrow>
           (SWITCH_STATUS_SUCCESS, rel, h', opt_call unlock rwlock w1))"

definition switch_core_hash_find :: "'v switch_hash \<Rightarrow> string \<Rightarrow> 'v option" where
  "switch_core_hash_find h key = switch_hashtable_search h key"

definition switch_core_hash_find_locked ::
    "('m \<Rightarrow> 'w \<Rightarrow> 'w) \<Rightarrow> ('m \<Rightarrow> 'w \<Rightarrow> 'w) \<Rightarrow> 'v switch_hash \<Rightarrow> string \<Rightarrow> 'm option \<Rightarrow> 'w \<Rightarrow> 'v option \<times> 'w" where
  "switch_core_hash_find_locked lock unlock h key mutex w =
     (let w1 = opt_call lock mutex w;
          val = switch_core_hash_find h key
      in (val, opt_call unlock mutex w1))"

definition switch_core_hash_find_rdlock ::
    "('m \<Rightarrow> 'w \<Rightarrow> 'w) \<Rightarrow> ('m \<Rightarrow> 'w \<Rightarrow> 'w) \<Rightarrow> 'v switch_hash \<Rightarrow> string \<Rightarrow> 'm option \<Rightarrow> 'w \<Rightarrow> 'v option \<times> 'w" where
  "switch_core_hash_find_rdlock rdlock unlock h key rwlock w =
     (let w1 = opt_call rdlock rwlock w;
          val = switch_core_hash_find h key
      in (val, opt_call unlock rwlock w1))"

definition switch_core_hash_first :: "'v switch_hash \<Rightarrow> (string, 'v) switch_hashtable_iterator option" where
  "switch_core_hash_first h = switch_hashtable_first_iter h"

definition switch_core_hash_next :: "'v switch_hash \<Rightarrow> (string, 'v) switch_hashtable_iterator \<Rightarrow>
    (string, 'v) switch_hashtable_iterator option" where
  "switch_core_hash_next h hi = switch_hashtable_next h hi"

definition switch_core_hash_this ::
    "(string, 'v) switch_hashtable_iterator \<Rightarrow> string option \<times> nat \<times> 'v option" where
  "switch_core_hash_this hi = switch_hashtable_this length hi"

definition switch_core_hash_empty :: "'v switch_hash \<Rightarrow> bool" where
  "switch_core_hash_empty h = (switch_core_hash_first h = None)"

section \<open>The contract of an associative store\<close>

text \<open>
  What the registries of the core rely on. \<open>canon\<close> is the representative of a key; \<open>view\<close> is the map
  the store holds. The store's \<open>find\<close> cannot tell a missing key from a stored NULL.
\<close>

locale assoc_store =
  fixes wf :: "'s \<Rightarrow> bool"
    and canon :: "'k \<Rightarrow> 'c"
    and view :: "'s \<Rightarrow> 'c \<rightharpoonup> 'v option"
    and find_op :: "'s \<Rightarrow> 'k \<Rightarrow> 'v option"
    and insert_op :: "'m \<Rightarrow> 's \<Rightarrow> 'k \<Rightarrow> 'v option \<Rightarrow> (switch_status_t \<times> 'r \<times> 's) c"
    and delete_op :: "'s \<Rightarrow> 'k \<Rightarrow> switch_status_t \<times> 'r \<times> 's"
    and mem_ok :: "'m \<Rightarrow> bool"
  assumes find_law: "wf s \<Longrightarrow> find_op s k = (case view s (canon k) of None \<Rightarrow> None | Some v \<Rightarrow> v)"
    and insert_law: "wf s \<Longrightarrow> mem_ok m \<Longrightarrow>
        \<exists>r s'. insert_op m s k v = Inr (SWITCH_STATUS_SUCCESS, r, s') \<and> wf s' \<and> view s' = (view s)(canon k \<mapsto> v)"
    and delete_law: "wf s \<Longrightarrow>
        \<exists>r s'. delete_op s k = (SWITCH_STATUS_SUCCESS, r, s') \<and> wf s' \<and> view s' = (view s)(canon k := None)"
begin

text \<open>Insert then find: the same key (up to \<open>canon\<close>) gives the value, any other what it gave before.\<close>

lemma find_after_insert:
  assumes "wf s" and "mem_ok m"
  shows "\<exists>r s'. insert_op m s k v = Inr (SWITCH_STATUS_SUCCESS, r, s') \<and> wf s' \<and>
     (\<forall>k'. find_op s' k' = (if canon k' = canon k then v else find_op s k'))"
  using insert_law [OF assms] find_law assms(1) by fastforce

lemma find_after_delete:
  assumes "wf s"
  shows "\<exists>r s'. delete_op s k = (SWITCH_STATUS_SUCCESS, r, s') \<and> wf s' \<and>
     (\<forall>k'. find_op s' k' = (if canon k' = canon k then None else find_op s k'))"
  using delete_law [OF assms] find_law assms by fastforce

end

definition mem_good :: "alloc_outcome \<Rightarrow> bool" where
  "mem_good m \<longleftrightarrow> strdup_ok m \<and> entry_ok m \<and> (calloc_ok m \<or> \<not> realloc_ok m)"

lemma dup_check_set: "(HASHTABLE_FLAG_FREE_KEY OR HASHTABLE_DUP_CHECK) AND HASHTABLE_DUP_CHECK \<noteq> 0"
  by (simp add: HASHTABLE_FLAG_FREE_KEY_def HASHTABLE_DUP_CHECK_def)

lemma switch_core_hash_insert_spec:
  assumes "ht_wf canon h" and "strdup_ok m" and "calloc_ok m \<or> \<not> realloc_ok m"
  shows "\<exists>rel h'. switch_core_hash_insert m h k v = Inr (SWITCH_STATUS_SUCCESS, rel, h') \<and> ht_wf canon h' \<and>
     ht_map canon h' = (if entry_ok m then (ht_map canon h)(canon k \<mapsto> v) else (ht_map canon h)(canon k := None))"
  using switch_hashtable_insert_spec [OF assms(1) dup_check_set assms(3), of "entry_ok m" k v None] assms(2)
  by (auto simp: switch_core_hash_insert_def switch_core_hash_insert_destructor_def)

lemma switch_core_hash_delete_spec:
  assumes "ht_wf canon h"
  shows "\<exists>rel h'. switch_core_hash_delete h k = (SWITCH_STATUS_SUCCESS, rel, h') \<and> ht_wf canon h' \<and>
     ht_map canon h' = (ht_map canon h)(canon k := None)"
  using switch_hashtable_remove_spec [OF assms, of k] by (auto simp: switch_core_hash_delete_def)

lemma switch_core_hash_find_spec:
  "ht_wf canon h \<Longrightarrow> switch_core_hash_find h k = (case ht_map canon h (canon k) of None \<Rightarrow> None | Some v \<Rightarrow> v)"
  unfolding switch_core_hash_find_def ht_wf_def by (rule switch_hashtable_search_spec) simp

lemma assoc_store_core_hash:
  "assoc_store (ht_wf canon) canon (ht_map canon) switch_core_hash_find switch_core_hash_insert
     switch_core_hash_delete mem_good"
proof
  fix s :: "'v switch_hash" and k m v
  show "ht_wf canon s \<Longrightarrow> switch_core_hash_find s k = (case ht_map canon s (canon k) of None \<Rightarrow> None | Some v \<Rightarrow> v)"
    by (rule switch_core_hash_find_spec)
  show "ht_wf canon s \<Longrightarrow> mem_good m \<Longrightarrow> \<exists>r s'. switch_core_hash_insert m s k v = Inr (SWITCH_STATUS_SUCCESS, r, s') \<and>
      ht_wf canon s' \<and> ht_map canon s' = (ht_map canon s)(canon k \<mapsto> v)"
    using switch_core_hash_insert_spec [of canon s m k v] by (auto simp: mem_good_def)
  show "ht_wf canon s \<Longrightarrow> \<exists>r s'. switch_core_hash_delete s k = (SWITCH_STATUS_SUCCESS, r, s') \<and> ht_wf canon s' \<and>
      ht_map canon s' = (ht_map canon s)(canon k := None)"
    by (rule switch_core_hash_delete_spec)
qed

interpretation chash: assoc_store "ht_wf (\<lambda>k. k)" "\<lambda>k. k" "ht_map (\<lambda>k. k)"
    switch_core_hash_find switch_core_hash_insert switch_core_hash_delete mem_good
  by (rule assoc_store_core_hash)

interpretation chash_ci: assoc_store "ht_wf (map ascii_lower)" "map ascii_lower" "ht_map (map ascii_lower)"
    switch_core_hash_find switch_core_hash_insert switch_core_hash_delete mem_good
  by (rule assoc_store_core_hash)

lemma switch_core_hash_init_spec:
  fixes canon :: "string \<Rightarrow> string"
  assumes "canon = (if case_sensitive then (\<lambda>k. k) else map ascii_lower)"
  shows "\<exists>h :: 'v switch_hash. switch_core_hash_init_case True True case_sensitive = Inr (SWITCH_STATUS_SUCCESS, Some h) \<and>
     ht_wf canon h \<and> ht_map canon h = Map.empty \<and> ht_tablelength h = 53"
proof (cases case_sensitive)
  case True
  have "\<exists>h :: 'v switch_hash. switch_create_hashtable True True 16 switch_hash_default switch_hash_equalkeys =
      Inr (SWITCH_STATUS_SUCCESS, Some h) \<and> ht_wf (\<lambda>k. k) h \<and> ht_map (\<lambda>k. k) h = Map.empty \<and> 16 < ht_tablelength h \<and>
      ht_entries h = [] \<and> (\<forall>j < ht_primeindex h. primes ! j \<le> 16) \<and>
      ht_hashfn h = switch_hash_default \<and> ht_eqfn h = switch_hash_equalkeys"
    by (rule switch_create_hashtable_spec) (simp_all add: switch_hash_equalkeys_def)
  with True assms show ?thesis
    by (auto simp: switch_core_hash_init_case_def switch_create_hashtable_def primes_def)
next
  case False
  have "\<exists>h :: 'v switch_hash. switch_create_hashtable True True 16 switch_hash_default_ci switch_hash_equalkeys_ci =
      Inr (SWITCH_STATUS_SUCCESS, Some h) \<and> ht_wf (map ascii_lower) h \<and> ht_map (map ascii_lower) h = Map.empty \<and>
      16 < ht_tablelength h \<and> ht_entries h = [] \<and> (\<forall>j < ht_primeindex h. primes ! j \<le> 16) \<and>
      ht_hashfn h = switch_hash_default_ci \<and> ht_eqfn h = switch_hash_equalkeys_ci"
    by (rule switch_create_hashtable_spec)
      (simp_all add: switch_hash_equalkeys_ci_def strcasecmp_eq_def switch_hash_default_ci_lower)
  with False assms show ?thesis
    by (auto simp: switch_core_hash_init_case_def switch_create_hashtable_def primes_def)
qed

section \<open>Properties\<close>

datatype 'v hash_op = Hash_Insert alloc_outcome string "'v option" | Hash_Delete string

fun hash_step :: "'v hash_op \<Rightarrow> 'v switch_hash \<Rightarrow> 'v switch_hash c" where
  "hash_step (Hash_Insert m k v) h = bindE (switch_core_hash_insert m h k v) (\<lambda>(_, _, h'). Inr h')"
| "hash_step (Hash_Delete k) h = (case switch_core_hash_delete h k of (_, _, h') \<Rightarrow> Inr h')"

fun hash_op_ok :: "'v hash_op \<Rightarrow> bool" where
  "hash_op_ok (Hash_Insert m k v) = mem_good m"
| "hash_op_ok (Hash_Delete k) = True"

text \<open>The specification: a map from canonical keys, updated by the operations in turn.\<close>

fun map_step :: "(string \<Rightarrow> string) \<Rightarrow> 'v hash_op \<Rightarrow> (string \<rightharpoonup> 'v option) \<Rightarrow> (string \<rightharpoonup> 'v option)" where
  "map_step canon (Hash_Insert m k v) f = f(canon k \<mapsto> v)"
| "map_step canon (Hash_Delete k) f = f(canon k := None)"

lemma hash_step_spec:
  assumes "ht_wf canon h" and "hash_op_ok x"
  shows "\<exists>h'. hash_step x h = Inr h' \<and> ht_wf canon h' \<and> ht_map canon h' = map_step canon x (ht_map canon h)"
proof (cases x)
  case (Hash_Insert m k v)
  with assms switch_core_hash_insert_spec [OF assms(1), of m k v] show ?thesis by (auto simp: mem_good_def)
next
  case (Hash_Delete k)
  with switch_core_hash_delete_spec [OF assms(1), of k] show ?thesis by auto
qed

interpretation hash_ops: op_system hash_step "ht_wf (\<lambda>k. k)" hash_op_ok
  by unfold_locales (use hash_step_spec in blast)

lemma hash_run_spec:
  assumes "ht_wf canon h" and "\<forall>x \<in> set ops. hash_op_ok x"
  shows "\<exists>h'. run_ops hash_step ops h = Inr h' \<and> ht_wf canon h' \<and>
     ht_map canon h' = fold (map_step canon) ops (ht_map canon h)"
  using assms
proof (induction ops arbitrary: h)
  case (Cons x ops)
  obtain h1 where "hash_step x h = Inr h1" "ht_wf canon h1" "ht_map canon h1 = map_step canon x (ht_map canon h)"
    using hash_step_spec [OF Cons.prems(1), of x] Cons.prems(2) by auto
  with Cons.IH [of h1] Cons.prems(2) show ?case by auto
qed simp

lemma ht_count_dom: "ht_wf canon h \<Longrightarrow> ht_entrycount h = of_nat (card (dom (ht_map canon h)))"
proof -
  assume wf: "ht_wf canon h"
  have "dom (ht_map canon h) = set (map (canon \<circ> e_k) (ht_entries h))"
    by (auto simp: ht_map_def dom_map_of_conv_image_fst image_image)
  moreover have "distinct (map (canon \<circ> e_k) (ht_entries h))" using wf by (simp add: ht_wf_def ht_str_def)
  ultimately have "card (dom (ht_map canon h)) = length (ht_entries h)"
    by (metis distinct_card length_map)
  then show ?thesis using wf by (simp add: ht_wf_def)
qed

text \<open>C1. A fresh core hash, case-sensitive or not, after any sequence of insertions and deletions
  (with any growth of the table on the way) answers every lookup as the finite map the sequence
  defines, keys being compared exactly or up to case, and counts exactly the keys of that map.\<close>

theorem core_hash_refines_map:
  assumes "canon = (if case_sensitive then (\<lambda>k. k) else map ascii_lower)"
    and "\<forall>x \<in> set ops. hash_op_ok x"
  shows "\<exists>(h :: 'v switch_hash) h'.
     switch_core_hash_init_case True True case_sensitive = Inr (SWITCH_STATUS_SUCCESS, Some h) \<and>
     run_ops hash_step ops h = Inr h' \<and>
     (\<forall>k. switch_core_hash_find h' k =
        (case fold (map_step canon) ops Map.empty (canon k) of None \<Rightarrow> None | Some v \<Rightarrow> v)) \<and>
     switch_hashtable_count h' = of_nat (card (dom (fold (map_step canon) ops Map.empty)))"
proof -
  obtain h :: "'v switch_hash" where h: "switch_core_hash_init_case True True case_sensitive =
      Inr (SWITCH_STATUS_SUCCESS, Some h)" "ht_wf canon h" "ht_map canon h = Map.empty"
    using switch_core_hash_init_spec [OF assms(1)] by blast
  obtain h' where h': "run_ops hash_step ops h = Inr h'" "ht_wf canon h'"
      "ht_map canon h' = fold (map_step canon) ops Map.empty"
    using hash_run_spec [OF h(2) assms(2)] h(3) by auto
  show ?thesis
    using h(1) h' switch_core_hash_find_spec [OF h'(2)] ht_count_dom [OF h'(2)]
    by (intro exI [of _ h] exI [of _ h']) (simp add: switch_hashtable_count_def)
qed

definition demo_mem :: alloc_outcome where
  "demo_mem = \<lparr>strdup_ok = True, calloc_ok = True, realloc_ok = True, entry_ok = True\<rparr>"

theorem core_hash_refines_map_witness:
  "\<exists>h h'. switch_core_hash_init_case True True False = Inr (SWITCH_STATUS_SUCCESS, Some (h :: nat switch_hash)) \<and>
     run_ops hash_step [Hash_Insert demo_mem ''Foo'' (Some 1), Hash_Insert demo_mem ''FOO'' (Some 2)] h = Inr h' \<and>
     switch_core_hash_find h' ''foo'' = Some 2"
proof -
  let ?ops = "[Hash_Insert demo_mem ''Foo'' (Some 1), Hash_Insert demo_mem ''FOO'' (Some (2::nat))]"
  have "\<forall>x \<in> set ?ops. hash_op_ok x" by (simp add: mem_good_def demo_mem_def)
  then obtain h h' :: "nat switch_hash" where
      h: "switch_core_hash_init_case True True False = Inr (SWITCH_STATUS_SUCCESS, Some h)"
      "run_ops hash_step ?ops h = Inr h'"
      "switch_core_hash_find h' ''foo'' = (case fold (map_step (map ascii_lower)) ?ops Map.empty
         (map ascii_lower ''foo'') of None \<Rightarrow> None | Some v \<Rightarrow> v)"
    using core_hash_refines_map [OF refl, of ?ops False] by (simp only: if_False) blast
  have "map ascii_lower ''foo'' = ''foo''" "map ascii_lower ''FOO'' = ''foo''" by code_simp+
  then have "switch_core_hash_find h' ''foo'' = Some 2" using h(3) by (simp del: list.map)
  with h(1,2) show ?thesis by blast
qed

lemma first_iter_spec:
  assumes "length (ht_table h) = ht_tablelength h"
  shows "it_ok h (switch_hashtable_first_iter h)" and "it_rest h (switch_hashtable_first_iter h) = ht_entries h"
  using next_from_pos [OF assms, of 0]
  by (simp_all add: switch_hashtable_first_iter_def switch_hashtable_next_def ht_entries_def Let_def)

text \<open>C12. Iterating over a well-formed table from \<open>switch_hashtable_first\<close> by \<open>switch_hashtable_next\<close>
  ends, and visits every entry of the table exactly once: the visited entries are those of the
  chains in order, and no two have the same key.\<close>

theorem hashtable_iteration_complete:
  assumes "ht_wf canon h"
  shows "iterate_from (Suc (length (ht_entries h))) h (switch_hashtable_first_iter h) = Some (ht_entries h) \<and>
     distinct (map (canon \<circ> e_k) (ht_entries h))"
proof -
  have len: "length (ht_table h) = ht_tablelength h" and d: "distinct (map (canon \<circ> e_k) (ht_entries h))"
    using assms by (simp_all add: ht_wf_def ht_str_def ht_placed_def)
  from iterate_from_spec [OF len first_iter_spec(1) [OF len]] first_iter_spec(2) [OF len] d show ?thesis by simp
qed

theorem hashtable_iteration_complete_witness:
  "\<exists>h. switch_core_hash_init_case True True True = Inr (SWITCH_STATUS_SUCCESS, Some (h :: nat switch_hash)) \<and>
     iterate_from (Suc (length (ht_entries h))) h (switch_hashtable_first_iter h) = Some (ht_entries h)"
proof -
  obtain h :: "nat switch_hash" where h: "switch_core_hash_init_case True True True = Inr (SWITCH_STATUS_SUCCESS, Some h)"
      "ht_wf (\<lambda>k. k) h"
    using switch_core_hash_init_spec [of "\<lambda>k. k" True] by auto
  from hashtable_iteration_complete [OF h(2)] h(1) show ?thesis by blast
qed

text \<open>
  An insertion whose entry cannot be allocated reports success all the same, and the value the key
  had before is gone.
\<close>

lemma core_hash_insert_out_of_memory:
  assumes "ht_wf canon h" and "strdup_ok m" and "calloc_ok m \<or> \<not> realloc_ok m" and "\<not> entry_ok m"
  shows "\<exists>rel h'. switch_core_hash_insert m h k v = Inr (SWITCH_STATUS_SUCCESS, rel, h') \<and>
     switch_core_hash_find h' k = None"
  using switch_core_hash_insert_spec [OF assms(1-3), of k v] switch_core_hash_find_spec assms(4) by fastforce

text \<open>When \<open>calloc\<close> fails and \<open>reallocarray\<close> succeeds, expansion runs into undefined behaviour.\<close>

lemma hashtable_expand_plan_b:
  "Suc (ht_primeindex h) < prime_table_length \<Longrightarrow> hashtable_expand False True h = Inl Wild_Pointer"
  by (simp add: hashtable_expand_def)

end
