(* ===== verification/FS_PortAllocator.thy ===== *)
theory FS_PortAllocator
  imports FS_Prelude
begin

text \<open>
  The RTP port allocator, \<^verbatim>\<open>src/src/lib/libfreeswitch/switch_core_port_allocator.c\<close>: a track of
  one signed byte per port of a range. A positive entry is a port in use, zero a free one, a
  negative one a port in quarantine that every walk over it moves one step towards zero. Memory
  pools, mutexes, sockets and the random source belong to other libraries; they are the fields of
  \<open>port_env\<close>, functions on a world \<open>'w\<close>. The request loop has no bound in the code, so it is a
  \<open>partial_function\<close>: \<open>None\<close> is a run that never returns.
\<close>

section \<open>Data\<close>

definition SPF_ODD :: u32 where "SPF_ODD = 1"
definition SPF_EVEN :: u32 where "SPF_EVEN = 2"
definition SPF_ROBUST_TCP :: u32 where "SPF_ROBUST_TCP = 4"
definition SPF_ROBUST_UDP :: u32 where "SPF_ROBUST_UDP = 8"

record switch_core_port_allocator =
  pa_ip :: string
  pa_start :: u16
  pa_end :: u16
  pa_next :: u16
  pa_track :: "int list"
  pa_track_len :: u32
  pa_track_used :: u32
  pa_flags :: u32

datatype socket_type = SOCK_DGRAM | SOCK_STREAM

record 'w port_env =
  new_memory_pool :: "'w \<Rightarrow> switch_status_t \<times> 'w"
  destroy_memory_pool :: "'w \<Rightarrow> 'w"
  sockaddr_info_get :: "string \<Rightarrow> u16 \<Rightarrow> 'w \<Rightarrow> switch_status_t \<times> 'w"
  socket_create :: "socket_type \<Rightarrow> 'w \<Rightarrow> switch_status_t \<times> 'w"
  socket_bind :: "'w \<Rightarrow> switch_status_t \<times> 'w"
  socket_close :: "'w \<Rightarrow> 'w"
  arc4random_uniform :: "u32 \<Rightarrow> 'w \<Rightarrow> u32 \<times> 'w"
  mutex_lock :: "'w \<Rightarrow> 'w"
  mutex_unlock :: "'w \<Rightarrow> 'w"

definition pa_flag :: "switch_core_port_allocator \<Rightarrow> u32 \<Rightarrow> bool" where
  "pa_flag a f \<longleftrightarrow> pa_flags a AND f \<noteq> 0"

section \<open>Operations\<close>

definition round_start :: "bool \<Rightarrow> bool \<Rightarrow> u16 \<Rightarrow> u16" where
  "round_start want_even want_odd start =
     (if want_even \<and> want_odd then start
      else if want_even then (if start mod 2 \<noteq> 0 then start + 1 else start)
      else if want_odd then (if start mod 2 = 0 then start + 1 else start)
      else start)"

definition round_end :: "bool \<Rightarrow> bool \<Rightarrow> u16 \<Rightarrow> u16" where
  "round_end want_even want_odd ending =
     (if want_even \<and> want_odd then ending
      else if want_even then (if ending mod 2 \<noteq> 0 then ending - 1 else ending)
      else if want_odd then (if ending mod 2 = 0 then ending - 1 else ending)
      else ending)"

text \<open>
  \<open>end - start\<close> is computed at \<open>int\<close> and stored at 32 bits. \<open>alloc_ok\<close> is the outcome of the
  allocation of the structure; the allocation of the track aborts the process when it fails.
\<close>

definition switch_core_port_allocator_new ::
    "'w port_env \<Rightarrow> bool \<Rightarrow> u32 \<Rightarrow> string \<Rightarrow> u16 \<Rightarrow> u16 \<Rightarrow> u32 \<Rightarrow> 'w \<Rightarrow>
     switch_status_t \<times> switch_core_port_allocator option \<times> 'w" where
  "switch_core_port_allocator_new env alloc_ok port_alloc_flags ip start ending flags w =
     (case new_memory_pool env w of (status, w1) \<Rightarrow>
        if status \<noteq> SWITCH_STATUS_SUCCESS then (status, None, w1)
        else if \<not> alloc_ok then (SWITCH_STATUS_MEMERR, None, destroy_memory_pool env w1)
        else
          let want_even = flags AND SPF_EVEN \<noteq> 0;
              want_odd = flags AND SPF_ODD \<noteq> 0;
              start = round_start want_even want_odd start;
              ending = round_end want_even want_odd ending;
              track_len0 = (of_int (uint ending - uint start + 2) :: u32);
              track_len = (if want_even \<and> want_odd then track_len0 else track_len0 div 2)
          in (SWITCH_STATUS_SUCCESS,
              Some \<lparr>pa_ip = ip, pa_start = start, pa_end = ending, pa_next = start,
                    pa_track = replicate (unat (track_len + 2)) 0, pa_track_len = track_len,
                    pa_track_used = 0, pa_flags = flags OR port_alloc_flags\<rparr>, w1))"

definition test_port :: "'w port_env \<Rightarrow> switch_core_port_allocator \<Rightarrow> socket_type \<Rightarrow> u16 \<Rightarrow> 'w \<Rightarrow> bool \<times> 'w" where
  "test_port env a type port w =
     (case new_memory_pool env w of (status, w) \<Rightarrow>
        if status \<noteq> SWITCH_STATUS_SUCCESS then (False, w)
        else
          (case sockaddr_info_get env (pa_ip a) port w of (status, w) \<Rightarrow>
             if status \<noteq> SWITCH_STATUS_SUCCESS then (False, destroy_memory_pool env w)
             else
               (case socket_create env type w of (status, w) \<Rightarrow>
                  if status \<noteq> SWITCH_STATUS_SUCCESS then (False, destroy_memory_pool env w)
                  else
                    (case socket_bind env w of (status, w) \<Rightarrow>
                       (status = SWITCH_STATUS_SUCCESS, destroy_memory_pool env (socket_close env w))))))"

text \<open>The walk up the track from a used entry to a free one, at most once around.\<close>

function walk_up :: "nat \<Rightarrow> int list \<Rightarrow> nat \<Rightarrow> nat \<Rightarrow> (int list \<times> nat \<times> nat) c" where
  "walk_up len track index tries =
     (if index \<ge> length track then Inl Out_Of_Bounds
      else if track ! index \<noteq> 0 \<and> tries < len then
        walk_up len (if track ! index < 0 then track[index := track ! index + 1] else track)
          (if index + 1 \<ge> len then 0 else index + 1) (tries + 1)
      else Inr (track, index, tries))"
  by pat_completeness auto

termination walk_up
  by (relation "measure (\<lambda>(len, track, index, tries). len - tries)") auto

declare walk_up.simps [simp del]

definition port_at :: "switch_core_port_allocator \<Rightarrow> nat \<Rightarrow> u16" where
  "port_at a index =
     (if pa_flag a SPF_EVEN \<and> pa_flag a SPF_ODD then of_nat (index + unat (pa_start a))
      else of_nat (index + unat (pa_start a) div 2) * 2)"

definition robust_check :: "'w port_env \<Rightarrow> switch_core_port_allocator \<Rightarrow> u16 \<Rightarrow> 'w \<Rightarrow> bool \<times> 'w" where
  "robust_check env a port w =
     (let (r, w) = (if pa_flag a SPF_ROBUST_UDP then test_port env a SOCK_DGRAM port w else (True, w))
      in if pa_flag a SPF_ROBUST_TCP then test_port env a SOCK_STREAM port w else (r, w))"

text \<open>One round of the outer loop: \<open>Inl\<close> leaves the loop, \<open>Inr\<close> goes round again.\<close>

definition request_step ::
    "'w port_env \<Rightarrow> switch_core_port_allocator \<Rightarrow> 'w \<Rightarrow>
     (u16 option \<times> switch_core_port_allocator \<times> 'w) c + (switch_core_port_allocator \<times> 'w)" where
  "request_step env a w =
     (if pa_track_used a < pa_track_len a then
        (case arc4random_uniform env (pa_track_len a) w of (index0, w1) \<Rightarrow>
         (case walk_up (unat (pa_track_len a)) (pa_track a) (unat index0) 0 of
            Inl fault \<Rightarrow> Inl (Inl fault)
          | Inr (track, index, tries) \<Rightarrow>
              if tries < unat (pa_track_len a) then
                (case robust_check env a (port_at a index) w1 of (r, w2) \<Rightarrow>
                   if r then Inl (Inr (Some (port_at a index),
                               a\<lparr>pa_track := track[index := 1], pa_track_used := pa_track_used a + 1\<rparr>, w2))
                   else Inr (a\<lparr>pa_track := track[index := -4]\<rparr>, w2))
              else Inr (a\<lparr>pa_track := track\<rparr>, w1)))
      else Inl (Inr (None, a, w)))"

partial_function (option) request_loop ::
    "'w port_env \<Rightarrow> switch_core_port_allocator \<Rightarrow> 'w \<Rightarrow> (u16 option \<times> switch_core_port_allocator \<times> 'w) c option" where
  "request_loop env a w =
     (case request_step env a w of
        Inl r \<Rightarrow> Some r
      | Inr (a', w') \<Rightarrow> request_loop env a' w')"

definition switch_core_port_allocator_request_port ::
    "'w port_env \<Rightarrow> switch_core_port_allocator \<Rightarrow> 'w \<Rightarrow>
     (switch_status_t \<times> u16 \<times> switch_core_port_allocator \<times> 'w) c option" where
  "switch_core_port_allocator_request_port env a w =
     (case request_loop env a (mutex_lock env w) of
        None \<Rightarrow> None
      | Some (Inl fault) \<Rightarrow> Some (Inl fault)
      | Some (Inr (Some port, a', w')) \<Rightarrow> Some (Inr (SWITCH_STATUS_SUCCESS, port, a', mutex_unlock env w'))
      | Some (Inr (None, a', w')) \<Rightarrow> Some (Inr (SWITCH_STATUS_FALSE, 0, a', mutex_unlock env w')))"

definition switch_core_port_allocator_free_port ::
    "'w port_env \<Rightarrow> switch_core_port_allocator \<Rightarrow> u16 \<Rightarrow> 'w \<Rightarrow>
     (switch_status_t \<times> switch_core_port_allocator \<times> 'w) c" where
  "switch_core_port_allocator_free_port env a port w =
     (if port < pa_start a then Inr (SWITCH_STATUS_GENERR, a, w)
      else
        let index0 = unat port - unat (pa_start a);
            index = (if pa_flag a SPF_EVEN \<and> pa_flag a SPF_ODD then index0 else index0 div 2);
            w1 = mutex_lock env w
        in if index \<ge> length (pa_track a) then Inl Out_Of_Bounds
           else if pa_track a ! index > 0 then
             Inr (SWITCH_STATUS_SUCCESS,
                  a\<lparr>pa_track := (pa_track a)[index := -4], pa_track_used := pa_track_used a - 1\<rparr>,
                  mutex_unlock env w1)
           else Inr (SWITCH_STATUS_FALSE, a, mutex_unlock env w1))"

definition switch_core_port_allocator_destroy :: "'w port_env \<Rightarrow> 'w \<Rightarrow> switch_core_port_allocator option \<times> 'w" where
  "switch_core_port_allocator_destroy env w = (None, destroy_memory_pool env w)"

section \<open>The walk\<close>

definition bump :: "int \<Rightarrow> int" where
  "bump x = (if x < 0 then x + 1 else x)"

definition walk_offset :: "nat \<Rightarrow> nat \<Rightarrow> nat \<Rightarrow> nat" where
  "walk_offset len p i = (i + len - p) mod len"

text \<open>The track after \<open>k\<close> steps of a walk that started at \<open>p\<close>.\<close>

definition sweep :: "nat \<Rightarrow> nat \<Rightarrow> nat \<Rightarrow> int list \<Rightarrow> int list" where
  "sweep len p k tr =
     map (\<lambda>i. if i < len \<and> walk_offset len p i < k then bump (tr ! i) else tr ! i) [0..<length tr]"

lemma walk_offset_iff:
  assumes "p < len" and "i < len" and "k < len"
  shows "walk_offset len p i = k \<longleftrightarrow> i = (p + k) mod len"
proof (cases "p \<le> i")
  case True
  then have "i + len - p = (i - p) + len" by simp
  then have "walk_offset len p i = (i - p) mod len" by (simp only: walk_offset_def mod_add_self2)
  then have "walk_offset len p i = i - p" using assms by simp
  then show ?thesis using assms True by (cases "p + k < len") (auto simp: mod_if)
next
  case False
  then have "walk_offset len p i = i + len - p" using assms by (simp add: walk_offset_def)
  then show ?thesis using assms False by (cases "p + k < len") (auto simp: mod_if)
qed

lemma sweep_length [simp]: "length (sweep len p k tr) = length tr"
  by (simp add: sweep_def)

lemma sweep_nth: "i < length tr \<Longrightarrow>
    sweep len p k tr ! i = (if i < len \<and> walk_offset len p i < k then bump (tr ! i) else tr ! i)"
  by (simp add: sweep_def)

lemma sweep_0: "sweep len p 0 tr = tr"
  by (rule nth_equalityI) (simp_all add: sweep_nth)

lemma sweep_Suc:
  assumes "p < len" and "len \<le> length tr" and "k < len" and "q = (p + k) mod len"
  shows "sweep len p (Suc k) tr = (sweep len p k tr)[q := bump (sweep len p k tr ! q)]"
    and "sweep len p k tr ! q = tr ! q"
proof -
  have q: "q < len" using assms by simp
  have off: "walk_offset len p i = k \<longleftrightarrow> i = q" if "i < len" for i
    using walk_offset_iff [OF assms(1) that assms(3)] assms(4) by simp
  then have "walk_offset len p q = k" using q by simp
  then show nth: "sweep len p k tr ! q = tr ! q" using q assms(2) by (simp add: sweep_nth)
  show "sweep len p (Suc k) tr = (sweep len p k tr)[q := bump (sweep len p k tr ! q)]"
  proof (rule nth_equalityI)
    fix i
    assume "i < length (sweep len p (Suc k) tr)"
    then have i: "i < length tr" by simp
    show "sweep len p (Suc k) tr ! i = (sweep len p k tr)[q := bump (sweep len p k tr ! q)] ! i"
    proof (cases "i < len")
      case True
      then show ?thesis using off [OF True] i nth
        by (cases "i = q") (auto simp: sweep_nth nth_list_update less_Suc_eq)
    next
      case False
      then have "i \<noteq> q" using q by auto
      with False i show ?thesis by (simp add: sweep_nth)
    qed
  qed simp
qed

lemma bump_list: "(if xs ! i < 0 then xs[i := xs ! i + 1] else xs) = xs[i := bump (xs ! i)]"
  by (simp add: bump_def)

lemma next_index:
  assumes "p < (len :: nat)" and "q = (p + k) mod len"
  shows "(if q + 1 \<ge> len then 0 else q + 1) = (p + Suc k) mod len"
proof -
  have "q < len" using assms by simp
  then show ?thesis unfolding add_Suc_right mod_Suc assms(2) [symmetric] by auto
qed

lemma walk_up_spec:
  assumes "p < len" and "len \<le> length tr" and "t \<le> len"
  shows "\<exists>k. t \<le> k \<and> k \<le> len \<and>
     walk_up len (sweep len p t tr) ((p + t) mod len) t = Inr (sweep len p k tr, (p + k) mod len, k) \<and>
     (k < len \<longrightarrow> tr ! ((p + k) mod len) = 0) \<and> (\<forall>j. t \<le> j \<and> j < k \<longrightarrow> tr ! ((p + j) mod len) \<noteq> 0)"
  using assms(3)
proof (induction "len - t" arbitrary: t)
  case 0
  let ?q = "(p + t) mod len"
  have "?q < length (sweep len p t tr)" using assms by (auto intro: less_le_trans [OF mod_less_divisor])
  with 0 have "walk_up len (sweep len p t tr) ?q t = Inr (sweep len p t tr, ?q, t)"
    by (subst walk_up.simps) auto
  then show ?case using 0 by (intro exI [of _ t]) auto
next
  case (Suc d)
  let ?q = "(p + t) mod len"
  have t: "t < len" using Suc.hyps(2) by simp
  have q: "?q < length (sweep len p t tr)" using assms by (auto intro: less_le_trans [OF mod_less_divisor])
  note sw = sweep_Suc [OF assms(1,2) t refl]
  show ?case
  proof (cases "tr ! ?q = 0")
    case True
    with q sw(2) have "walk_up len (sweep len p t tr) ?q t = Inr (sweep len p t tr, ?q, t)"
      by (subst walk_up.simps) auto
    then show ?thesis using True t by (intro exI [of _ t]) auto
  next
    case False
    have "walk_up len (sweep len p t tr) ?q t = walk_up len (sweep len p (Suc t) tr) ((p + Suc t) mod len) (Suc t)"
      by (subst walk_up.simps)
        (use q sw False t next_index [OF assms(1) refl, of t] bump_list [of "sweep len p t tr" ?q] in auto)
    moreover have "d = len - Suc t" using Suc.hyps(2) by simp
    then obtain k where k: "Suc t \<le> k" "k \<le> len"
        "walk_up len (sweep len p (Suc t) tr) ((p + Suc t) mod len) (Suc t) = Inr (sweep len p k tr, (p + k) mod len, k)"
        "k < len \<longrightarrow> tr ! ((p + k) mod len) = 0" "\<forall>j. Suc t \<le> j \<and> j < k \<longrightarrow> tr ! ((p + j) mod len) \<noteq> 0"
      using Suc.hyps(1) [of "Suc t"] t by (meson Suc_leI)
    moreover have "\<forall>j. t \<le> j \<and> j < k \<longrightarrow> tr ! ((p + j) mod len) \<noteq> 0"
      using k(5) False by (metis Suc_leI le_neq_implies_less)
    ultimately show ?thesis by (metis Suc_leD)
  qed
qed

section \<open>Invariant\<close>

definition pa_len :: "switch_core_port_allocator \<Rightarrow> nat" where
  "pa_len a = unat (pa_track_len a)"

definition pa_busy :: "switch_core_port_allocator \<Rightarrow> nat set" where
  "pa_busy a = {i. i < length (pa_track a) \<and> pa_track a ! i > 0}"

text \<open>The entries are in range, the entries past the range are not in use, and the counter is right.\<close>

definition pa_wf :: "switch_core_port_allocator \<Rightarrow> bool" where
  "pa_wf a \<longleftrightarrow> length (pa_track a) = pa_len a + 2 \<and>
     (\<forall>i < length (pa_track a). -4 \<le> pa_track a ! i \<and> pa_track a ! i \<le> 1) \<and>
     pa_busy a \<subseteq> {..<pa_len a} \<and> unat (pa_track_used a) = card (pa_busy a)"

definition rand_ok :: "'w port_env \<Rightarrow> bool" where
  "rand_ok env \<longleftrightarrow> (\<forall>n w. 0 < n \<longrightarrow> fst (arc4random_uniform env n w) < n)"

definition not_robust :: "switch_core_port_allocator \<Rightarrow> bool" where
  "not_robust a \<longleftrightarrow> \<not> pa_flag a SPF_ROBUST_UDP \<and> \<not> pa_flag a SPF_ROBUST_TCP"

definition pa_same_range :: "switch_core_port_allocator \<Rightarrow> switch_core_port_allocator \<Rightarrow> bool" where
  "pa_same_range a b \<longleftrightarrow> pa_flags a = pa_flags b \<and> pa_start a = pa_start b \<and> pa_end a = pa_end b \<and>
     pa_track_len a = pa_track_len b"

lemma pa_busy_finite [simp]: "finite (pa_busy a)"
  by (simp add: pa_busy_def)

lemma pa_busy_le: "pa_wf a \<Longrightarrow> card (pa_busy a) \<le> pa_len a"
  using card_mono [of "{..<pa_len a}" "pa_busy a"] by (simp add: pa_wf_def)

lemma pa_not_full:
  assumes "pa_wf a"
  shows "pa_track_used a < pa_track_len a \<longleftrightarrow> (\<exists>i < pa_len a. i \<notin> pa_busy a)"
proof -
  have sub: "pa_busy a \<subseteq> {..<pa_len a}" using assms by (simp add: pa_wf_def)
  have "pa_track_used a < pa_track_len a \<longleftrightarrow> card (pa_busy a) < card {..<pa_len a}"
    using assms by (simp add: pa_wf_def pa_len_def word_less_nat_alt)
  also have "\<dots> \<longleftrightarrow> pa_busy a \<noteq> {..<pa_len a}"
    using sub by (metis card_mono card_subset_eq finite_lessThan nat_neq_iff not_less psubsetI psubset_card_mono)
  also have "\<dots> \<longleftrightarrow> (\<exists>i < pa_len a. i \<notin> pa_busy a)" using sub by auto
  finally show ?thesis .
qed

lemma port_at_cong: "pa_same_range a b \<Longrightarrow> port_at a = port_at b"
  by (rule ext) (simp add: pa_same_range_def port_at_def pa_flag_def)

lemma pa_wf_sweep:
  assumes "pa_wf a"
  shows "pa_wf (a\<lparr>pa_track := sweep len p k (pa_track a)\<rparr>)"
    and "pa_busy (a\<lparr>pa_track := sweep len p k (pa_track a)\<rparr>) = pa_busy a"
proof -
  show b: "pa_busy (a\<lparr>pa_track := sweep len p k (pa_track a)\<rparr>) = pa_busy a"
    by (auto simp: pa_busy_def sweep_nth bump_def split: if_splits)
  show "pa_wf (a\<lparr>pa_track := sweep len p k (pa_track a)\<rparr>)"
    using assms by (auto simp: pa_wf_def b pa_len_def sweep_nth bump_def)
qed

lemma pa_busy_update:
  assumes "i < length (pa_track a)" and "\<not> pa_track a ! i > 0"
  shows "pa_busy (a\<lparr>pa_track := (pa_track a)[i := v]\<rparr>) = (if v > 0 then insert i (pa_busy a) else pa_busy a)"
  using assms by (auto simp: pa_busy_def nth_list_update split: if_splits)

lemma pa_wf_quarantine:
  assumes "pa_wf a" and "i < pa_len a" and "pa_track a ! i = 0"
  shows "pa_wf (a\<lparr>pa_track := (pa_track a)[i := -4]\<rparr>)"
  using assms pa_busy_update [of i a "-4"]
  by (auto simp: pa_wf_def pa_len_def nth_list_update)

lemma pa_wf_take:
  assumes wf: "pa_wf a" and i: "i < pa_len a" and free: "pa_track a ! i = 0"
  shows "pa_wf (a\<lparr>pa_track := (pa_track a)[i := 1], pa_track_used := pa_track_used a + 1\<rparr>)"
    and "pa_busy (a\<lparr>pa_track := (pa_track a)[i := 1], pa_track_used := pa_track_used a + 1\<rparr>) = insert i (pa_busy a)"
proof -
  have il: "i < length (pa_track a)" using wf i by (simp add: pa_wf_def)
  have ni: "i \<notin> pa_busy a" using free by (simp add: pa_busy_def)
  show b: "pa_busy (a\<lparr>pa_track := (pa_track a)[i := 1], pa_track_used := pa_track_used a + 1\<rparr>) = insert i (pa_busy a)"
    using pa_busy_update [of i a 1] il free by (simp add: pa_busy_def)
  have "pa_track_used a < pa_track_len a" using pa_not_full [OF wf] i ni by blast
  then have "unat (pa_track_used a + 1) = Suc (unat (pa_track_used a))"
    by (rule unat_Suc_less)
  then show "pa_wf (a\<lparr>pa_track := (pa_track a)[i := 1], pa_track_used := pa_track_used a + 1\<rparr>)"
    using wf i ni by (auto simp: pa_wf_def b pa_len_def nth_list_update)
qed

section \<open>The request loop\<close>

text \<open>One round of the loop: the walk stops at a free entry it did not pass before, or went around.\<close>

lemma request_round:
  assumes wf: "pa_wf a" and rand: "rand_ok env" and room: "pa_track_used a < pa_track_len a"
    and r: "arc4random_uniform env (pa_track_len a) w = (index0, w1)"
  obtains p k where "p < pa_len a" "k \<le> pa_len a"
    "walk_up (pa_len a) (pa_track a) (unat index0) 0 =
       Inr (sweep (pa_len a) p k (pa_track a), (p + k) mod pa_len a, k)"
    "k < pa_len a \<Longrightarrow> pa_track a ! ((p + k) mod pa_len a) = 0 \<and>
       sweep (pa_len a) p k (pa_track a) ! ((p + k) mod pa_len a) = 0"
    "\<forall>j < k. pa_track a ! ((p + j) mod pa_len a) \<noteq> 0"
proof -
  have "0 < pa_track_len a" using room by (rule le_less_trans [OF word_zero_le])
  then have "index0 < pa_track_len a" using rand r unfolding rand_ok_def by (metis fst_conv)
  then have p: "unat index0 < pa_len a" by (simp add: pa_len_def word_less_nat_alt)
  have len: "pa_len a \<le> length (pa_track a)" using wf by (simp add: pa_wf_def)
  obtain k where k: "k \<le> pa_len a"
      "walk_up (pa_len a) (pa_track a) (unat index0) 0 =
       Inr (sweep (pa_len a) (unat index0) k (pa_track a), (unat index0 + k) mod pa_len a, k)"
      "k < pa_len a \<longrightarrow> pa_track a ! ((unat index0 + k) mod pa_len a) = 0"
      "\<forall>j < k. pa_track a ! ((unat index0 + j) mod pa_len a) \<noteq> 0"
    using walk_up_spec [OF p len, of 0] p by (auto simp: sweep_0)
  show ?thesis
    by (rule that [of "unat index0" k])
      (use p k sweep_Suc(2) [OF p len _ refl, of k] in auto)
qed

definition loop_post :: "switch_core_port_allocator \<Rightarrow> (u16 option \<times> switch_core_port_allocator \<times> 'w) c \<Rightarrow> bool" where
  "loop_post a r \<longleftrightarrow> (\<exists>po a' w'. r = Inr (po, a', w') \<and> pa_wf a' \<and> pa_same_range a a' \<and>
     (case po of None \<Rightarrow> pa_busy a' = pa_busy a \<and> pa_busy a = {..<pa_len a}
      | Some port \<Rightarrow> \<exists>i < pa_len a. i \<notin> pa_busy a \<and> port = port_at a i \<and> pa_busy a' = insert i (pa_busy a)))"

lemma loop_post_mono:
  assumes "loop_post b r" and "pa_same_range a b" and "pa_busy b = pa_busy a"
  shows "loop_post a r"
proof -
  have eqs: "port_at b = port_at a" "pa_len b = pa_len a" "pa_busy b = pa_busy a"
    using port_at_cong [OF assms(2)] assms(2,3) by (simp_all add: pa_same_range_def pa_len_def)
  obtain po a' w' where r: "r = Inr (po, a', w')" "pa_wf a'" "pa_same_range b a'"
      "case po of None \<Rightarrow> pa_busy a' = pa_busy b \<and> pa_busy b = {..<pa_len b}
       | Some port \<Rightarrow> \<exists>i < pa_len b. i \<notin> pa_busy b \<and> port = port_at b i \<and> pa_busy a' = insert i (pa_busy b)"
    using assms(1) unfolding loop_post_def by blast
  have "pa_same_range a a'" using r(3) assms(2) by (simp add: pa_same_range_def)
  with r(1,2) r(4) [unfolded eqs] show ?thesis unfolding loop_post_def by blast
qed

lemma request_step_found:
  assumes b: "pa_wf b" "pa_busy b = pa_busy a" "pa_same_range a b" and q: "q < pa_len a" and zero: "pa_track b ! q = 0"
  shows "loop_post a (Inr (Some (port_at a q),
           b\<lparr>pa_track := (pa_track b)[q := 1], pa_track_used := pa_track_used b + 1\<rparr>, w))"
proof -
  let ?c = "b\<lparr>pa_track := (pa_track b)[q := 1], pa_track_used := pa_track_used b + 1\<rparr>"
  have qb: "q < pa_len b" using b(3) q by (simp add: pa_same_range_def pa_len_def)
  have "pa_wf ?c" "pa_busy ?c = insert q (pa_busy a)"
    using pa_wf_take [OF b(1) qb zero] b(2) by simp_all
  moreover have nb: "q \<notin> pa_busy b" using zero by (simp add: pa_busy_def)
  have "q \<notin> pa_busy a" using nb unfolding b(2) .
  moreover have "pa_same_range a ?c" using b(3) by (simp add: pa_same_range_def)
  ultimately show ?thesis using q unfolding loop_post_def by (simp, blast)
qed

lemma request_step_quarantine:
  assumes b: "pa_wf b" "pa_busy b = pa_busy a" "pa_same_range a b" and q: "q < pa_len a" and zero: "pa_track b ! q = 0"
  defines "c \<equiv> b\<lparr>pa_track := (pa_track b)[q := -4]\<rparr>"
  shows "pa_wf c \<and> pa_busy c = pa_busy a \<and> pa_same_range a c"
proof -
  have qb: "q < pa_len b" using b(3) q by (simp add: pa_same_range_def pa_len_def)
  then have "q < length (pa_track b)" using b(1) by (simp add: pa_wf_def)
  then show ?thesis
    using pa_wf_quarantine [OF b(1) qb zero] pa_busy_update [of q b "-4"] b(2,3) zero
    by (simp add: c_def pa_same_range_def)
qed

lemma request_step_spec:
  assumes wf: "pa_wf a" and rand: "rand_ok env"
  shows "case request_step env a w of Inl r \<Rightarrow> loop_post a r
     | Inr (a', w') \<Rightarrow> pa_wf a' \<and> pa_busy a' = pa_busy a \<and> pa_same_range a a'"
proof (cases "pa_track_used a < pa_track_len a")
  case False
  then have "pa_busy a = {..<pa_len a}" using pa_not_full [OF wf] wf by (auto simp: pa_wf_def)
  with False wf show ?thesis by (simp add: request_step_def loop_post_def pa_same_range_def)
next
  case True
  obtain index0 w1 where r1: "arc4random_uniform env (pa_track_len a) w = (index0, w1)" by fastforce
  obtain p k where pk: "p < pa_len a"
    "walk_up (pa_len a) (pa_track a) (unat index0) 0 =
       Inr (sweep (pa_len a) p k (pa_track a), (p + k) mod pa_len a, k)"
    "k < pa_len a \<Longrightarrow> sweep (pa_len a) p k (pa_track a) ! ((p + k) mod pa_len a) = 0"
    by (rule request_round [OF wf rand True r1]) auto
  define b where "b = a\<lparr>pa_track := sweep (pa_len a) p k (pa_track a)\<rparr>"
  define q where "q = (p + k) mod pa_len a"
  obtain ok w2 where rc: "robust_check env a (port_at a q) w1 = (ok, w2)" by fastforce
  have step: "request_step env a w =
     (if k < pa_len a then
        if ok then Inl (Inr (Some (port_at a q),
               b\<lparr>pa_track := (pa_track b)[q := 1], pa_track_used := pa_track_used b + 1\<rparr>, w2))
        else Inr (b\<lparr>pa_track := (pa_track b)[q := -4]\<rparr>, w2)
      else Inr (b, w1))"
    using True r1 pk(2) rc by (simp add: request_step_def b_def q_def pa_len_def)
  have b: "pa_wf b" "pa_busy b = pa_busy a" "pa_same_range a b"
    unfolding b_def using pa_wf_sweep [OF wf] by (simp_all add: pa_same_range_def)
  have q: "q < pa_len a" using pk(1) by (simp add: q_def)
  have zero: "k < pa_len a \<Longrightarrow> pa_track b ! q = 0" using pk(3) by (simp add: b_def q_def)
  show ?thesis
    using b request_step_found [OF b q zero, of w2] request_step_quarantine [OF b q zero] by (simp add: step)
qed

lemma request_loop_safe:
  assumes "request_loop env a w = Some r" and "rand_ok env" and "pa_wf a"
  shows "loop_post a r"
proof -
  have "rand_ok env \<longrightarrow> pa_wf a \<longrightarrow> loop_post a r"
  proof (rule request_loop.raw_induct [OF _ assms(1)], intro impI)
    fix rec and env :: "'a port_env" and a w r
    assume IH: "\<And>env a w r. rec env a w = Some r \<Longrightarrow> rand_ok env \<longrightarrow> pa_wf a \<longrightarrow> loop_post a r"
      and step: "(case request_step env a w of Inl r \<Rightarrow> Some r | Inr (a', w') \<Rightarrow> rec env a' w') = Some r"
      and rand: "rand_ok env" and wf: "pa_wf a"
    show "loop_post a r"
    proof (cases "request_step env a w")
      case (Inr x)
      obtain a' w' where x: "x = (a', w')" by fastforce
      then have "loop_post a' r" "pa_same_range a a'" "pa_busy a' = pa_busy a"
        using request_step_spec [OF wf rand, of w] step Inr rand IH [of env a' w' r] by simp_all
      then show ?thesis by (rule loop_post_mono)
    qed (use request_step_spec [OF wf rand, of w] step in simp)
  qed
  with assms(2,3) show ?thesis by simp
qed

section \<open>Progress\<close>

lemma robust_check_off: "not_robust a \<Longrightarrow> robust_check env a port w = (True, w)"
  by (simp add: not_robust_def robust_check_def)

lemma request_step_plain:
  assumes wf: "pa_wf a" and rand: "rand_ok env" and nr: "not_robust a" and i: "i < pa_len a" "i \<notin> pa_busy a"
  shows "(\<exists>q a'. request_step env a w = Inl (Inr (Some (port_at a q), a', snd (arc4random_uniform env (pa_track_len a) w))) \<and>
            q < pa_len a \<and> pa_track a ! q = 0) \<or>
     (\<exists>a'. request_step env a w = Inr (a', snd (arc4random_uniform env (pa_track_len a) w)) \<and>
            (\<forall>j < pa_len a. pa_track a ! j \<noteq> 0 \<and> pa_track a' ! j = bump (pa_track a ! j)))"
proof -
  have room: "pa_track_used a < pa_track_len a" using pa_not_full [OF wf] i by blast
  obtain index0 w1 where r1: "arc4random_uniform env (pa_track_len a) w = (index0, w1)" by fastforce
  obtain p k where pk: "p < pa_len a" "k \<le> pa_len a"
    "walk_up (pa_len a) (pa_track a) (unat index0) 0 =
       Inr (sweep (pa_len a) p k (pa_track a), (p + k) mod pa_len a, k)"
    "k < pa_len a \<Longrightarrow> pa_track a ! ((p + k) mod pa_len a) = 0"
    "\<forall>j < k. pa_track a ! ((p + j) mod pa_len a) \<noteq> 0"
    by (rule request_round [OF wf rand room r1]) auto
  show ?thesis
  proof (cases "k < pa_len a")
    case True
    let ?q = "(p + k) mod pa_len a"
    have "request_step env a w = Inl (Inr (Some (port_at a ?q),
        a\<lparr>pa_track := (sweep (pa_len a) p k (pa_track a))[?q := 1], pa_track_used := pa_track_used a + 1\<rparr>, w1))"
      using True room r1 pk(3) robust_check_off [OF nr, of env "port_at a ?q" w1]
      by (simp add: request_step_def pa_len_def)
    moreover have "?q < pa_len a" using pk(1) by simp
    ultimately show ?thesis using pk(4) True r1 by (metis snd_conv)
  next
    case False
    have "pa_track a ! j \<noteq> 0 \<and> sweep (pa_len a) p k (pa_track a) ! j = bump (pa_track a ! j)" if j: "j < pa_len a" for j
    proof -
      have off: "walk_offset (pa_len a) p j < k" using False j pk(1,2) by (simp add: walk_offset_def)
      then have "j = (p + walk_offset (pa_len a) p j) mod pa_len a"
        using walk_offset_iff [OF pk(1) j, of "walk_offset (pa_len a) p j"] pk(2) by simp
      moreover have "j < length (pa_track a)" using j wf by (simp add: pa_wf_def)
      moreover have "pa_track a ! ((p + walk_offset (pa_len a) p j) mod pa_len a) \<noteq> 0" using pk(5) off by simp
      ultimately show ?thesis using off j by (simp add: sweep_nth)
    qed
    then show ?thesis using False room r1 pk(3) by (simp add: request_step_def pa_len_def)
  qed
qed

text \<open>Without the robustness tests a quarantined entry is free after at most four rounds.\<close>

lemma request_loop_returns:
  assumes "pa_wf a" and "rand_ok env" and "not_robust a" and "i < pa_len a" and "pa_track a ! i = - int n"
  shows "\<exists>r. request_loop env a w = Some r"
  using assms
proof (induction n arbitrary: a w)
  case 0
  then have "i \<notin> pa_busy a" by (simp add: pa_busy_def)
  with 0 request_step_plain [of a env i w] show ?case
    by (subst request_loop.simps) auto
next
  case (Suc n)
  have nb: "i \<notin> pa_busy a" using Suc.prems(5) by (simp add: pa_busy_def)
  note st = request_step_spec [OF Suc.prems(1,2), of w]
  from request_step_plain [OF Suc.prems(1-4) nb, of w] show ?case
  proof (elim disjE exE conjE)
    fix a'
    let ?w = "snd (arc4random_uniform env (pa_track_len a) w)"
    assume s: "request_step env a w = Inr (a', ?w)"
      and b: "\<forall>j < pa_len a. pa_track a ! j \<noteq> 0 \<and> pa_track a' ! j = bump (pa_track a ! j)"
    have "pa_wf a'" "pa_same_range a a'" using st s by simp_all
    moreover from this have "not_robust a'" "pa_len a' = pa_len a"
      using Suc.prems(3) by (simp_all add: not_robust_def pa_flag_def pa_same_range_def pa_len_def)
    moreover have "pa_track a' ! i = - int n" using b Suc.prems(4,5) by (simp add: bump_def)
    ultimately show ?thesis using Suc.IH [of a' ?w] Suc.prems(2,4) s
      by (subst request_loop.simps) simp
  qed (subst request_loop.simps, simp)
qed

lemma request_loop_total:
  assumes wf: "pa_wf a" and "rand_ok env" and "not_robust a"
  shows "\<exists>r. request_loop env a w = Some r"
proof (cases "pa_track_used a < pa_track_len a")
  case True
  then obtain i where i: "i < pa_len a" "i \<notin> pa_busy a" using pa_not_full [OF wf] by blast
  have "i < length (pa_track a)" using wf i(1) by (simp add: pa_wf_def)
  then have "pa_track a ! i \<le> 0" using i(2) by (simp add: pa_busy_def)
  then have "pa_track a ! i = - int (nat (- (pa_track a ! i)))" by linarith
  then show ?thesis by (rule request_loop_returns [OF assms i(1)])
next
  case False
  then show ?thesis by (subst request_loop.simps) (simp add: request_step_def)
qed

section \<open>Ports and indices\<close>

definition pa_both :: "switch_core_port_allocator \<Rightarrow> bool" where
  "pa_both a \<longleftrightarrow> pa_flag a SPF_EVEN \<and> pa_flag a SPF_ODD"

text \<open>The range does not wrap around 16 bits, and a range of even ports starts at an even port.\<close>

definition pa_exact :: "switch_core_port_allocator \<Rightarrow> bool" where
  "pa_exact a \<longleftrightarrow> (if pa_both a then unat (pa_start a) + pa_len a \<le> 65536
                  else even (unat (pa_start a)) \<and> unat (pa_start a) + 2 * pa_len a \<le> 65536)"

lemma port_at_value:
  assumes "pa_exact a" and "i < pa_len a"
  shows "unat (port_at a i) = unat (pa_start a) + (if pa_both a then i else 2 * i)"
proof (cases "pa_both a")
  case True
  then have "port_at a i = of_nat (i + unat (pa_start a))" by (auto simp: port_at_def pa_both_def)
  moreover have "i + unat (pa_start a) < 65536" using assms True by (simp add: pa_exact_def)
  ultimately have "unat (port_at a i) = i + unat (pa_start a)" by (simp only: unat_of_nat) simp
  then show ?thesis using True by simp
next
  case False
  have "(of_nat (i + unat (pa_start a) div 2) :: u16) * 2 = of_nat ((i + unat (pa_start a) div 2) * 2)" by simp
  also have "(i + unat (pa_start a) div 2) * 2 = 2 * i + unat (pa_start a)"
    using assms(1) False by (simp add: pa_exact_def add_mult_distrib dvd_div_mult_self)
  finally have "port_at a i = of_nat (2 * i + unat (pa_start a))"
    using False by (auto simp: port_at_def pa_both_def)
  moreover have "2 * i + unat (pa_start a) < 65536" using assms False by (simp add: pa_exact_def)
  ultimately have "unat (port_at a i) = 2 * i + unat (pa_start a)" by (simp only: unat_of_nat) simp
  then show ?thesis using False by simp
qed

lemma port_at_inj:
  assumes "pa_exact a"
  shows "inj_on (port_at a) {..<pa_len a}"
proof (rule inj_onI)
  fix i j
  assume i: "i \<in> {..<pa_len a}" and j: "j \<in> {..<pa_len a}" and eq: "port_at a i = port_at a j"
  have "unat (port_at a i) = unat (pa_start a) + (if pa_both a then i else 2 * i)"
    using i by (intro port_at_value [OF assms]) simp
  moreover have "unat (port_at a i) = unat (pa_start a) + (if pa_both a then j else 2 * j)"
    unfolding eq using j by (intro port_at_value [OF assms]) simp
  ultimately show "i = j" by (cases "pa_both a") simp_all
qed

lemma free_port_spec:
  assumes wf: "pa_wf a" and ex: "pa_exact a" and i: "i \<in> pa_busy a"
  shows "\<exists>a'. switch_core_port_allocator_free_port env a (port_at a i) w =
       Inr (SWITCH_STATUS_SUCCESS, a', mutex_unlock env (mutex_lock env w)) \<and> pa_wf a' \<and> pa_same_range a a' \<and>
     pa_busy a' = pa_busy a - {i} \<and> pa_track a' ! i = -4"
proof -
  let ?a = "a\<lparr>pa_track := (pa_track a)[i := -4], pa_track_used := pa_track_used a - 1\<rparr>"
  have il: "i < pa_len a" "i < length (pa_track a)" "pa_track a ! i > 0"
    using i wf by (auto simp: pa_busy_def pa_wf_def)
  have "unat (port_at a i) = unat (pa_start a) + (if pa_both a then i else 2 * i)"
    by (rule port_at_value [OF ex il(1)])
  then have "switch_core_port_allocator_free_port env a (port_at a i) w =
      Inr (SWITCH_STATUS_SUCCESS, ?a, mutex_unlock env (mutex_lock env w))"
    using il by (auto simp: switch_core_port_allocator_free_port_def word_less_nat_alt pa_both_def)
  moreover have b: "pa_busy ?a = pa_busy a - {i}"
    using il by (auto simp: pa_busy_def nth_list_update split: if_splits)
  moreover have "0 < card (pa_busy a)" using i by (auto simp: card_gt_0_iff)
  then have "unat (pa_track_used a - 1) = card (pa_busy a) - 1"
    using wf unat_pred [of "pa_track_used a"] by (simp add: pa_wf_def)
  then have "pa_wf ?a" using wf i by (auto simp: pa_wf_def b pa_len_def nth_list_update)
  ultimately show ?thesis using il by (simp add: pa_same_range_def)
qed

section \<open>Creation\<close>

lemma u16_mod_2: "(x :: u16) mod 2 = 0 \<longleftrightarrow> even (unat x)"
proof -
  have "x mod 2 = 0 \<longleftrightarrow> unat (x mod 2) = 0" by (simp add: unat_eq_0)
  then show ?thesis by (simp add: unat_mod even_iff_mod_2_eq_zero)
qed

lemma round_even_start:
  assumes "start < ending"
  shows "unat (round_start True False start) = (if even (unat start) then unat start else unat start + 1)"
  using assms unat_Suc_less [OF assms] by (simp add: round_start_def u16_mod_2)

lemma round_even_end:
  assumes "start < ending"
  shows "unat (round_end True False ending) = (if even (unat ending) then unat ending else unat ending - 1)"
proof -
  have "0 < unat ending" using assms by (simp add: word_less_nat_alt)
  then show ?thesis using unat_pred [of ending] by (simp add: round_end_def u16_mod_2)
qed

lemma track_len_unat:
  assumes "unat (s :: u16) \<le> unat (e :: u16)"
  shows "unat (of_int (uint e - uint s + 2) :: u32) = unat e - unat s + 2"
proof -
  have e: "uint e - uint s + 2 = int (unat e - unat s + 2)"
    using assms by (simp add: of_nat_diff)
  have "unat e < 65536" using unsigned_less [of e] by simp
  then have "unat (of_nat (unat e - unat s + 2) :: u32) = unat e - unat s + 2"
    unfolding unat_of_nat by simp
  then show ?thesis unfolding e of_int_of_nat_eq .
qed

definition port_pool_ok :: "'w port_env \<Rightarrow> bool" where
  "port_pool_ok env \<longleftrightarrow> (\<forall>w. fst (new_memory_pool env w) = SWITCH_STATUS_SUCCESS)"

lemma pa_fresh:
  assumes "pa_track a = replicate (pa_len a + 2) 0" and "pa_track_used a = 0"
  shows "pa_busy a = {} \<and> pa_wf a"
proof -
  have nth: "\<forall>i < length (pa_track a). pa_track a ! i = 0" using assms(1) by (simp del: replicate.simps)
  then have "pa_busy a = {}" by (simp add: pa_busy_def)
  with nth assms show ?thesis by (simp add: pa_wf_def)
qed

lemma allocator_new_even:
  assumes pool: "port_pool_ok env" and lt: "start < ending" and odd: "tests AND SPF_ODD = 0"
  shows "\<exists>a w'. switch_core_port_allocator_new env True tests ip start ending SPF_EVEN w = (SWITCH_STATUS_SUCCESS, Some a, w') \<and>
     pa_wf a \<and> pa_exact a \<and> not_robust a = (tests AND SPF_ROBUST_UDP = 0 \<and> tests AND SPF_ROBUST_TCP = 0) \<and> pa_busy a = {} \<and> \<not> pa_both a \<and>
     start \<le> pa_start a \<and> unat (pa_start a) + 2 * pa_len a = unat (pa_end a) + 2 \<and> pa_end a \<le> ending"
proof -
  let ?s = "round_start True False start" and ?e = "round_end True False ending"
  note rs = round_even_start [OF lt] and re = round_even_end [OF lt]
  have lt': "unat start < unat ending" using lt by (simp add: word_less_nat_alt)
  have se: "unat ?s \<le> unat ?e" "even (unat ?s)" "even (unat ?e)" using rs re lt' by auto presburger+
  let ?l = "(of_int (uint ?e - uint ?s + 2) :: u32) div 2"
  have l: "unat ?l = (unat ?e - unat ?s) div 2 + 1" using track_len_unat [OF se(1)] by (simp add: unat_div)
  have small: "unat ?e < 65536" using unsigned_less [of ?e] by simp
  then have l2: "unat (?l + 2) = unat ?l + 2" using l by (simp add: unat_word_ariths(1))
  have twice: "unat ?s + 2 * unat ?l = unat ?e + 2" using l se by auto
  have f: "SPF_EVEN AND SPF_EVEN \<noteq> 0" "SPF_EVEN AND SPF_ODD = 0" "SPF_EVEN AND SPF_ROBUST_UDP = 0"
      "SPF_EVEN AND SPF_ROBUST_TCP = 0"
    by (simp_all add: SPF_EVEN_def SPF_ODD_def SPF_ROBUST_UDP_def SPF_ROBUST_TCP_def)
  define a where "a = \<lparr>pa_ip = ip, pa_start = ?s, pa_end = ?e, pa_next = ?s, pa_track = replicate (unat (?l + 2)) 0,
      pa_track_len = ?l, pa_track_used = 0, pa_flags = SPF_EVEN OR tests\<rparr>"
  obtain w1 where w1: "new_memory_pool env w = (SWITCH_STATUS_SUCCESS, w1)"
    using pool unfolding port_pool_ok_def by (metis prod.collapse)
  have "switch_core_port_allocator_new env True tests ip start ending SPF_EVEN w = (SWITCH_STATUS_SUCCESS, Some a, w1)"
    using f w1 by (simp add: switch_core_port_allocator_new_def a_def Let_def)
  moreover have fresh: "pa_busy a = {} \<and> pa_wf a"
    by (rule pa_fresh) (simp_all only: a_def pa_len_def l2 switch_core_port_allocator.simps)
  moreover have nb: "\<not> pa_both a" and "not_robust a = (tests AND SPF_ROBUST_UDP = 0 \<and> tests AND SPF_ROBUST_TCP = 0)"
    using f odd by (simp_all add: pa_both_def not_robust_def pa_flag_def a_def bit.conj_disj_distrib2)
  moreover have "pa_exact a" using nb twice small se(3) by (auto simp: pa_exact_def pa_len_def a_def) presburger
  moreover have "start \<le> pa_start a" "pa_end a \<le> ending" using rs re by (simp_all add: a_def word_le_nat_alt)
  moreover have "unat (pa_start a) + 2 * pa_len a = unat (pa_end a) + 2" using twice by (simp add: a_def pa_len_def)
  ultimately show ?thesis by blast
qed

section \<open>Clients\<close>

text \<open>
  A group of clients that request ports and give back ports they hold. \<open>None\<close> is a request that does not return.
\<close>

datatype port_op = Port_Request | Port_Release nat

fun client_step :: "'w port_env \<Rightarrow> port_op \<Rightarrow> switch_core_port_allocator \<times> u16 list \<times> 'w \<Rightarrow>
    (switch_core_port_allocator \<times> u16 list \<times> 'w) c option" where
  "client_step env Port_Request (a, held, w) =
     (case switch_core_port_allocator_request_port env a w of
        None \<Rightarrow> None
      | Some r \<Rightarrow> Some (bindE r (\<lambda>(status, port, a', w').
          Inr (a', if status = SWITCH_STATUS_SUCCESS then port # held else held, w'))))"
| "client_step env (Port_Release n) (a, held, w) =
     Some (if n < length held
      then bindE (switch_core_port_allocator_free_port env a (held ! n) w) (\<lambda>(_, a', w').
             Inr (a', remove1 (held ! n) held, w'))
      else Inr (a, held, w))"

fun client_run :: "'w port_env \<Rightarrow> port_op list \<Rightarrow> switch_core_port_allocator \<times> u16 list \<times> 'w \<Rightarrow>
    (switch_core_port_allocator \<times> u16 list \<times> 'w) c option" where
  "client_run env [] s = Some (Inr s)"
| "client_run env (x # xs) s =
     (case client_step env x s of
        None \<Rightarrow> None
      | Some (Inl fault) \<Rightarrow> Some (Inl fault)
      | Some (Inr s') \<Rightarrow> client_run env xs s')"

definition client_inv :: "switch_core_port_allocator \<Rightarrow> switch_core_port_allocator \<times> u16 list \<times> 'w \<Rightarrow> bool" where
  "client_inv a0 s \<longleftrightarrow> (case s of (a, held, w) \<Rightarrow>
     pa_wf a \<and> pa_exact a \<and> pa_same_range a0 a \<and> distinct held \<and> set held = port_at a ` pa_busy a)"

text \<open>What a step or a run may come to: it may fail to return only with a robustness test on, and it never faults.\<close>

definition client_post :: "switch_core_port_allocator \<Rightarrow> (switch_core_port_allocator \<times> u16 list \<times> 'w) c option \<Rightarrow> bool" where
  "client_post a0 r \<longleftrightarrow> (case r of None \<Rightarrow> \<not> not_robust a0 | Some (Inl _) \<Rightarrow> False | Some (Inr s) \<Rightarrow> client_inv a0 s)"

lemma request_port_spec:
  assumes "pa_wf a" and "rand_ok env"
  shows "case switch_core_port_allocator_request_port env a w of
       None \<Rightarrow> \<not> not_robust a
     | Some (Inl _) \<Rightarrow> False
     | Some (Inr (status, port, a', w')) \<Rightarrow> pa_wf a' \<and> pa_same_range a a' \<and>
         (if pa_busy a = {..<pa_len a}
          then status = SWITCH_STATUS_FALSE \<and> port = 0 \<and> pa_busy a' = pa_busy a
          else status = SWITCH_STATUS_SUCCESS \<and>
            (\<exists>i < pa_len a. i \<notin> pa_busy a \<and> port = port_at a i \<and> pa_busy a' = insert i (pa_busy a)))"
proof (cases "request_loop env a (mutex_lock env w)")
  case None
  then have "\<not> not_robust a" using request_loop_total [OF assms, of "mutex_lock env w"] by auto
  with None show ?thesis by (simp add: switch_core_port_allocator_request_port_def)
next
  case (Some r)
  then have "loop_post a r" by (rule request_loop_safe [OF _ assms(2,1)])
  then obtain po a' w' where r: "r = Inr (po, a', w')" "pa_wf a'" "pa_same_range a a'"
      "case po of None \<Rightarrow> pa_busy a' = pa_busy a \<and> pa_busy a = {..<pa_len a}
       | Some port \<Rightarrow> \<exists>i < pa_len a. i \<notin> pa_busy a \<and> port = port_at a i \<and> pa_busy a' = insert i (pa_busy a)"
    unfolding loop_post_def by blast
  show ?thesis
  proof (cases po)
    case None
    with Some r show ?thesis by (simp add: switch_core_port_allocator_request_port_def)
  next
    case (Some port)
    with r have "pa_busy a \<noteq> {..<pa_len a}" by auto
    with \<open>request_loop env a (mutex_lock env w) = Some r\<close> Some r show ?thesis
      by (simp add: switch_core_port_allocator_request_port_def)
  qed
qed

lemma pa_same_range_keeps:
  assumes "pa_same_range a b"
  shows "pa_exact b = pa_exact a" and "not_robust b = not_robust a" and "pa_len b = pa_len a" and "pa_both b = pa_both a"
  using assms
  by (simp_all add: pa_same_range_def pa_exact_def not_robust_def pa_len_def pa_both_def pa_flag_def)

lemma pa_same_range_trans: "pa_same_range a b \<Longrightarrow> pa_same_range b d \<Longrightarrow> pa_same_range a d"
  by (simp add: pa_same_range_def)

lemma client_request_post:
  assumes rand: "rand_ok env" and inv: "client_inv a0 (a, held, w)"
  shows "client_post a0 (client_step env Port_Request (a, held, w))"
proof (cases "switch_core_port_allocator_request_port env a w")
  case None
  then show ?thesis using request_port_spec [of a env w] rand inv pa_same_range_keeps(2) [of a0 a]
    by (auto simp: client_post_def client_inv_def)
next
  case (Some r)
  have a: "pa_wf a" "pa_exact a" "pa_same_range a0 a" "distinct held" "set held = port_at a ` pa_busy a"
    using inv by (simp_all add: client_inv_def)
  note sp = request_port_spec [OF a(1) rand, of w]
  then obtain status port a' w' where rq: "switch_core_port_allocator_request_port env a w = Some (Inr (status, port, a', w'))"
    using Some by (auto split: sum.splits prod.splits)
  with sp have s: "pa_wf a'" "pa_same_range a a'"
      and res: "if pa_busy a = {..<pa_len a} then status = SWITCH_STATUS_FALSE \<and> port = 0 \<and> pa_busy a' = pa_busy a
       else status = SWITCH_STATUS_SUCCESS \<and>
         (\<exists>i < pa_len a. i \<notin> pa_busy a \<and> port = port_at a i \<and> pa_busy a' = insert i (pa_busy a))" by simp_all
  have pa: "port_at a' = port_at a" using port_at_cong [OF s(2)] by simp
  have keep: "pa_exact a'" "pa_same_range a0 a'"
    using pa_same_range_keeps [OF s(2)] a pa_same_range_trans [OF a(3) s(2)] by simp_all
  show ?thesis
  proof (cases "pa_busy a = {..<pa_len a}")
    case True
    then show ?thesis using res rq s keep a pa by (simp add: client_post_def client_inv_def)
  next
    case False
    then obtain i where i: "i < pa_len a" "i \<notin> pa_busy a" "port = port_at a i" "pa_busy a' = insert i (pa_busy a)"
        "status = SWITCH_STATUS_SUCCESS" using res by auto
    have "pa_busy a \<subseteq> {..<pa_len a}" using a(1) by (simp add: pa_wf_def)
    then have "port_at a i \<notin> port_at a ` pa_busy a"
      using i(1,2) inj_on_image_mem_iff [OF port_at_inj [OF a(2)], of i "pa_busy a"] by simp
    then show ?thesis using i rq s keep a pa by (simp add: client_post_def client_inv_def)
  qed
qed

lemma client_release_post:
  assumes inv: "client_inv a0 (a, held, w)"
  shows "client_post a0 (client_step env (Port_Release n) (a, held, w))"
proof (cases "n < length held")
  case True
  have a: "pa_wf a" "pa_exact a" "pa_same_range a0 a" "distinct held" "set held = port_at a ` pa_busy a"
    using inv by (simp_all add: client_inv_def)
  have "held ! n \<in> port_at a ` pa_busy a" using True a(5) nth_mem by blast
  then obtain i where i: "i \<in> pa_busy a" "held ! n = port_at a i" by blast
  obtain a' w' where f: "switch_core_port_allocator_free_port env a (held ! n) w = Inr (SWITCH_STATUS_SUCCESS, a', w')"
      "pa_wf a'" "pa_same_range a a'" "pa_busy a' = pa_busy a - {i}"
    using free_port_spec [OF a(1,2) i(1), of env w] i(2) by auto
  have keep: "pa_exact a'" "pa_same_range a0 a'" "port_at a' = port_at a"
    using pa_same_range_keeps [OF f(3)] a pa_same_range_trans [OF a(3) f(3)] port_at_cong [OF f(3)] by simp_all
  have "pa_busy a \<subseteq> {..<pa_len a}" using a(1) by (simp add: pa_wf_def)
  then have "port_at a ` (pa_busy a - {i}) = port_at a ` pa_busy a - {port_at a i}"
    using i(1) by (subst inj_on_image_set_diff [OF port_at_inj [OF a(2)]]) auto
  then show ?thesis using True f keep a i by (simp add: client_post_def client_inv_def set_remove1_eq)
next
  case False
  then show ?thesis using inv by (simp add: client_post_def)
qed

lemma client_run_post:
  assumes rand: "rand_ok env"
  shows "client_inv a0 s \<Longrightarrow> client_post a0 (client_run env xs s)"
proof (induction xs arbitrary: s)
  case Nil
  then show ?case by (simp add: client_post_def)
next
  case (Cons x xs)
  obtain a held w where s: "s = (a, held, w)" by (cases s)
  have step: "client_post a0 (client_step env x s)"
    using client_request_post [OF rand, of a0 a held w] client_release_post [of a0 a held w env] Cons.prems s
    by (cases x) simp_all
  show ?case
  proof (cases "client_step env x s")
    case None
    then show ?thesis using step by (simp add: client_post_def)
  next
    case (Some r)
    then obtain s' where "r = Inr s'" "client_inv a0 s'" using step by (cases r) (simp_all add: client_post_def)
    then show ?thesis using Some Cons.IH [of s'] by simp
  qed
qed

section \<open>Properties\<close>

definition demo_env :: "nat port_env" where
  "demo_env = \<lparr>new_memory_pool = \<lambda>w. (SWITCH_STATUS_SUCCESS, w), destroy_memory_pool = \<lambda>w. w,
     sockaddr_info_get = \<lambda>_ _ w. (SWITCH_STATUS_SUCCESS, w), socket_create = \<lambda>_ w. (SWITCH_STATUS_SUCCESS, w),
     socket_bind = \<lambda>w. (SWITCH_STATUS_SUCCESS, w), socket_close = \<lambda>w. w,
     arc4random_uniform = \<lambda>n w. (of_nat w mod n, Suc w), mutex_lock = \<lambda>w. w, mutex_unlock = \<lambda>w. w\<rparr>"

lemma demo_env_ok: "rand_ok demo_env" "port_pool_ok demo_env"
  by (simp_all add: rand_ok_def port_pool_ok_def demo_env_def word_mod_less_divisor)

definition demo_allocator :: switch_core_port_allocator where
  "demo_allocator = \<lparr>pa_ip = ''10.0.0.1'', pa_start = 4000, pa_end = 4004, pa_next = 4000,
     pa_track = [1, -4, 0, 0, 0], pa_track_len = 3, pa_track_used = 1, pa_flags = SPF_EVEN\<rparr>"

lemma demo_allocator_ok: "pa_wf demo_allocator" "not_robust demo_allocator" "pa_len demo_allocator = 3"
proof -
  have "pa_busy demo_allocator = set (filter (\<lambda>i. pa_track demo_allocator ! i > 0) [0..<length (pa_track demo_allocator)])"
    by (auto simp: pa_busy_def)
  moreover have "[0..<length (pa_track demo_allocator)] = [0, 1, 2, 3, 4]" by (simp add: demo_allocator_def upt_rec)
  ultimately have "pa_busy demo_allocator = {0}" by (simp add: demo_allocator_def)
  moreover have "\<forall>x \<in> set (pa_track demo_allocator). - 4 \<le> x \<and> x \<le> 1" by (simp add: demo_allocator_def)
  ultimately show "pa_wf demo_allocator"
    by (simp add: pa_wf_def all_set_conv_all_nth) (simp add: demo_allocator_def pa_len_def)
  show "not_robust demo_allocator" "pa_len demo_allocator = 3"
    by (simp_all add: not_robust_def pa_flag_def demo_allocator_def SPF_EVEN_def SPF_ROBUST_UDP_def
        SPF_ROBUST_TCP_def pa_len_def)
qed

text \<open>
  A request for a port. If it returns, it does not fault; while a port of the range is not in use
  it succeeds with the port of an index that was not in use and marks exactly that index; otherwise
  it fails with port 0 and the set of used ports is the same. It can fail to return only when a
  robustness test is switched on.
\<close>

theorem port_request_exclusive:
  assumes "pa_wf a" and "rand_ok env"
  shows "case switch_core_port_allocator_request_port env a w of
       None \<Rightarrow> \<not> not_robust a
     | Some (Inl _) \<Rightarrow> False
     | Some (Inr (status, port, a', w')) \<Rightarrow> pa_wf a' \<and> pa_same_range a a' \<and>
         (if pa_busy a = {..<pa_len a}
          then status = SWITCH_STATUS_FALSE \<and> port = 0 \<and> pa_busy a' = pa_busy a
          else status = SWITCH_STATUS_SUCCESS \<and>
            (\<exists>i < pa_len a. i \<notin> pa_busy a \<and> port = port_at a i \<and> pa_busy a' = insert i (pa_busy a)))"
  using assms by (rule request_port_spec)

theorem port_request_exclusive_witness:
  "\<exists>port a' w'. switch_core_port_allocator_request_port demo_env demo_allocator 0 =
     Some (Inr (SWITCH_STATUS_SUCCESS, port, a', w'))"
proof -
  have "2 \<notin> pa_busy demo_allocator" by (simp add: pa_busy_def demo_allocator_def)
  with demo_allocator_ok(3) have nb: "pa_busy demo_allocator \<noteq> {..<pa_len demo_allocator}"
    by (intro notI) simp
  note sp = port_request_exclusive [OF demo_allocator_ok(1) demo_env_ok(1), of 0, unfolded if_not_P [OF nb]]
  show ?thesis
  proof (cases "switch_core_port_allocator_request_port demo_env demo_allocator 0")
    case None
    then show ?thesis using sp demo_allocator_ok(2) by simp
  next
    case (Some r)
    with sp obtain y where "r = Inr y" by (cases r) simp_all
    with Some sp show ?thesis by (cases y) simp
  qed
qed

text \<open>
  C5. An allocator of even ports, with any of the robustness tests of the core on or off, used by any number of clients that request ports and give back
  ports they hold, in any order: nothing faults, no two clients ever hold the
  same port, and every port held is even and in the configured range. Only with a robustness test on can a request
  fail to return; without one every request returns.
\<close>

theorem port_clients_exclusive:
  assumes "port_pool_ok env" and rand: "rand_ok env" and "start < ending" and "tests AND SPF_ODD = 0"
  shows "\<exists>a w1. switch_core_port_allocator_new env True tests ip start ending SPF_EVEN w = (SWITCH_STATUS_SUCCESS, Some a, w1) \<and>
     (case client_run env ops (a, [], w1) of
        None \<Rightarrow> tests AND SPF_ROBUST_UDP \<noteq> 0 \<or> tests AND SPF_ROBUST_TCP \<noteq> 0
      | Some (Inl _) \<Rightarrow> False
      | Some (Inr (a', held, w')) \<Rightarrow> distinct held \<and> (\<forall>p \<in> set held. even (unat p) \<and> start \<le> p \<and> p \<le> ending))"
proof -
  obtain a w1 where a: "switch_core_port_allocator_new env True tests ip start ending SPF_EVEN w = (SWITCH_STATUS_SUCCESS, Some a, w1)"
      "pa_wf a" "pa_exact a" "not_robust a = (tests AND SPF_ROBUST_UDP = 0 \<and> tests AND SPF_ROBUST_TCP = 0)" "pa_busy a = {}"
      "\<not> pa_both a" "start \<le> pa_start a"
      "unat (pa_start a) + 2 * pa_len a = unat (pa_end a) + 2" "pa_end a \<le> ending"
    using allocator_new_even [OF assms(1,3,4), of ip w] by blast
  have held: "distinct held \<and> (\<forall>p \<in> set held. even (unat p) \<and> start \<le> p \<and> p \<le> ending)"
    if "client_inv a (a', held, w')" for a' held and w' :: 'a
  proof -
    have inv: "pa_wf a'" "pa_same_range a a'" "distinct held" "set held = port_at a ` pa_busy a'"
      using that port_at_cong [of a a'] by (simp_all add: client_inv_def)
    have "even (unat p) \<and> start \<le> p \<and> p \<le> ending" if p: "p \<in> set held" for p
    proof -
      obtain i where i: "p = port_at a i" "i < pa_len a"
        using p inv pa_same_range_keeps(3) [OF inv(2)] by (auto simp: pa_wf_def)
      have v: "unat p = unat (pa_start a) + 2 * i" using port_at_value [OF a(3) i(2)] a(6) i(1) by simp
      moreover have "even (unat (pa_start a))" using a(3,6) by (simp add: pa_exact_def)
      ultimately show ?thesis using a(7-9) i(2) by (simp add: word_le_nat_alt)
    qed
    with inv(3) show ?thesis by blast
  qed
  have "client_inv a (a, [], w1)" using a by (simp add: client_inv_def pa_same_range_def)
  then have "client_post a (client_run env ops (a, [], w1))" by (rule client_run_post [OF rand])
  then show ?thesis using a(1,4) held by (auto simp: client_post_def split: option.splits sum.splits)
qed

theorem port_clients_exclusive_witness:
  "\<exists>a w1 a' held w'. switch_core_port_allocator_new demo_env True 0 ''10.0.0.1'' 16385 32767 SPF_EVEN 0 =
       (SWITCH_STATUS_SUCCESS, Some a, w1) \<and>
     client_run demo_env [Port_Request, Port_Request, Port_Release 1, Port_Request] (a, [], w1) =
       Some (Inr (a', held, w')) \<and> distinct held"
proof -
  let ?ops = "[Port_Request, Port_Request, Port_Release 1, Port_Request]"
  have "(16385 :: u16) < 32767" "0 AND SPF_ODD = 0" by simp_all
  from port_clients_exclusive [OF demo_env_ok(2,1) this, of "''10.0.0.1''" 0 ?ops]
  obtain a w1 where new: "switch_core_port_allocator_new demo_env True 0 ''10.0.0.1'' 16385 32767 SPF_EVEN 0 =
       (SWITCH_STATUS_SUCCESS, Some a, w1)"
    and run: "case client_run demo_env ?ops (a, [], w1) of None \<Rightarrow> False | Some (Inl _) \<Rightarrow> False
      | Some (Inr (a', held, w')) \<Rightarrow> distinct held"
    by (fastforce simp del: client_run.simps split: option.splits sum.splits)
  show ?thesis
  proof (cases "client_run demo_env ?ops (a, [], w1)")
    case None
    with run show ?thesis by simp
  next
    case (Some r)
    with run obtain a' held w' where "r = Inr (a', held, w')" "distinct held" by (cases r) auto
    with new Some show ?thesis by blast
  qed
qed

text \<open>
  C14. Quarantine: without the robustness tests, as long as some port of the range is idle, a request returns and
  never hands out a port that was given back and is still in quarantine; it returns a port whose entry was zero.
\<close>

theorem port_quarantine:
  assumes wf: "pa_wf a" and rand: "rand_ok env" and nr: "not_robust a" and i: "i < pa_len a" "pa_track a ! i = 0"
  shows "\<exists>q a' w'. switch_core_port_allocator_request_port env a w = Some (Inr (SWITCH_STATUS_SUCCESS, port_at a q, a', w')) \<and>
     q < pa_len a \<and> pa_track a ! q = 0"
proof -
  have "i \<notin> pa_busy a" using i by (simp add: pa_busy_def)
  then obtain q a' w' where "request_step env a (mutex_lock env w) = Inl (Inr (Some (port_at a q), a', w'))"
      "q < pa_len a" "pa_track a ! q = 0"
    using request_step_plain [OF wf rand nr i(1), of "mutex_lock env w"] i by blast
  moreover from this(1) have "request_loop env a (mutex_lock env w) = Some (Inr (Some (port_at a q), a', w'))"
    by (subst request_loop.simps) simp
  ultimately show ?thesis by (auto simp: switch_core_port_allocator_request_port_def)
qed

theorem port_quarantine_witness:
  "\<exists>q a' w'. switch_core_port_allocator_request_port demo_env demo_allocator 0 =
     Some (Inr (SWITCH_STATUS_SUCCESS, port_at demo_allocator q, a', w')) \<and> q \<noteq> 0 \<and> q \<noteq> 1"
proof -
  have "2 < pa_len demo_allocator" "pa_track demo_allocator ! 2 = 0"
    using demo_allocator_ok(3) by (simp_all add: demo_allocator_def)
  then obtain q a' w' where "switch_core_port_allocator_request_port demo_env demo_allocator 0 =
      Some (Inr (SWITCH_STATUS_SUCCESS, port_at demo_allocator q, a', w'))" "pa_track demo_allocator ! q = 0"
    using port_quarantine [OF demo_allocator_ok(1) demo_env_ok(1) demo_allocator_ok(2)] by blast
  moreover from this(2) have "q \<noteq> 0 \<and> q \<noteq> 1" by (intro conjI notI) (simp_all add: demo_allocator_def)
  ultimately show ?thesis by blast
qed

section \<open>Where the range is not kept\<close>

text \<open>Unless both parities are asked for every port handed out is even, also with \<open>SPF_ODD\<close> alone.\<close>

lemma port_at_even_unless_both:
  assumes "\<not> pa_both a"
  shows "port_at a i mod 2 = 0"
proof -
  define x :: u16 where "x = of_nat (i + unat (pa_start a) div 2)"
  have "port_at a i = x * 2" using assms by (auto simp: port_at_def pa_both_def x_def)
  then have "port_at a i = 2 * x" by (simp only: mult.commute)
  moreover have "unat (2 * x) = (2 * unat x) mod 65536" by (simp add: unat_word_ariths(2))
  ultimately show ?thesis unfolding u16_mod_2 by (simp add: dvd_mod_iff)
qed

text \<open>With both parities the last index of the track is the port one past the end of the range.\<close>

lemma allocator_both_past_end:
  assumes "pa_both a" and "unat (pa_start a) \<le> unat (pa_end a)" and "unat (pa_end a) < 65535"
    and "pa_track_len a = of_int (uint (pa_end a) - uint (pa_start a) + 2)"
  shows "pa_len a - 1 < pa_len a \<and> unat (port_at a (pa_len a - 1)) = unat (pa_end a) + 1"
proof -
  have l: "pa_len a = unat (pa_end a) - unat (pa_start a) + 2"
    using track_len_unat [OF assms(2)] assms(4) by (simp add: pa_len_def)
  moreover from this have "pa_exact a" using assms by (simp add: pa_exact_def)
  ultimately show ?thesis using port_at_value [of a "pa_len a - 1"] assms(1,2) by simp
qed

text \<open>A port far above the range makes \<open>free_port\<close> read past the track.\<close>

lemma free_port_beyond_track:
  assumes "\<not> pa_both a" and "unat (pa_start a) + 2 * length (pa_track a) \<le> unat port"
  shows "switch_core_port_allocator_free_port env a port w = Inl Out_Of_Bounds"
  using assms by (auto simp: switch_core_port_allocator_free_port_def pa_both_def word_less_nat_alt Let_def)

end
