(* ===== verification/FS_Scheduler.thy ===== *)
theory FS_Scheduler
  imports FS_Prelude
begin

text \<open>
  The task scheduler, \<^verbatim>\<open>src/src/lib/libfreeswitch/switch_scheduler.c\<close>. The list of task containers
  is a HOL list in list order: containers are only appended, and only the sweep of the scheduler
  thread removes any, so a position of the list is the container's identity during a pass.

  A task function is code of another module. It is the parameter \<open>call\<close>: given the function's
  number and the task it returns the task as the function leaves it and the scheduler operations
  (additions and deletions) that happen while the list is unlocked for its execution, by the function
  itself or by other threads. The clock is the parameter \<open>clk\<close>, read once per tick. Times are
  unbounded integers (64 bits in the code), and creating an event succeeds.

  The event queue holds 250000 events and a push to a full queue waits for room. The scheduler thread
  is the queue's only consumer, so its own push to a full queue never returns: it sets \<open>sc_stuck\<close>,
  and the thread does nothing from then on. The push of any other thread waits in turn: the events
  of \<open>sc_event_queue\<close> beyond the first 250000 are those of the waiting threads. An addition made by a task
  function in the scheduler thread is treated like one of another thread.
\<close>

section \<open>Data\<close>

definition SSHF_OWN_THREAD :: u32 where "SSHF_OWN_THREAD = 1"
definition SSHF_FREE_ARG :: u32 where "SSHF_FREE_ARG = 2"
definition SSHF_NO_DEL :: u32 where "SSHF_NO_DEL = 4"

record sched_task =
  t_created :: int
  t_runtime :: int
  t_cmd_id :: u32
  t_repeat :: u32
  t_group :: string
  t_cmd_arg :: "nat option"
  t_task_id :: u32
  t_hash :: u32

record task_container =
  tc_task :: sched_task
  tc_executed :: int
  tc_in_thread :: bool
  tc_destroyed :: int
  tc_running :: bool
  tc_func :: nat
  tc_flags :: u32
  tc_desc :: string

datatype sched_event_kind = SWITCH_EVENT_ADD_SCHEDULE | SWITCH_EVENT_RE_SCHEDULE | SWITCH_EVENT_DEL_SCHEDULE

datatype sched_event = Sched_Event sched_event_kind u32 string string int

text \<open>
  \<open>sc_calls\<close> is the trace of the calls of task functions: function, task id, the task's run time and
  the time read from the clock when it was found due.
\<close>

record sched =
  sc_task_list :: "task_container list"
  sc_task_id :: u32
  sc_task_thread_running :: int
  sc_event_queue :: "sched_event list"
  sc_stuck :: bool
  sc_ticks :: nat
  sc_calls :: "(nat \<times> u32 \<times> int \<times> int) list"

definition tc_flag :: "task_container \<Rightarrow> u32 \<Rightarrow> bool" where
  "tc_flag tp f \<longleftrightarrow> tc_flags tp AND f \<noteq> 0"

definition task_event :: "sched_event_kind \<Rightarrow> task_container \<Rightarrow> sched_event" where
  "task_event k tp = Sched_Event k (t_task_id (tc_task tp)) (tc_desc tp) (t_group (tc_task tp)) (t_runtime (tc_task tp))"

definition queue_push :: "sched_event \<Rightarrow> sched \<Rightarrow> sched" where
  "queue_push e s = s\<lparr>sc_event_queue := sc_event_queue s @ [e]\<rparr>"

definition EVENT_QUEUE_LEN :: nat where "EVENT_QUEUE_LEN = 250000"

text \<open>The push of the scheduler thread itself.\<close>

definition own_push :: "sched_event \<Rightarrow> sched \<Rightarrow> sched" where
  "own_push e s = (if length (sc_event_queue s) < EVENT_QUEUE_LEN then queue_push e s else s\<lparr>sc_stuck := True\<rparr>)"

definition set_task :: "nat \<Rightarrow> task_container \<Rightarrow> sched \<Rightarrow> sched" where
  "set_task i tp s = s\<lparr>sc_task_list := (sc_task_list s)[i := tp]\<rparr>"

definition switch_epoch_time_now :: "(nat \<Rightarrow> int) \<Rightarrow> sched \<Rightarrow> int \<times> sched" where
  "switch_epoch_time_now clk s = (clk (sc_ticks s), s\<lparr>sc_ticks := Suc (sc_ticks s)\<rparr>)"

section \<open>Operations of the interface\<close>

text \<open>\<open>for (id = 0; !id; id = ++task_id)\<close>: the counter skips 0 when it wraps around.\<close>

definition next_task_id :: "u32 \<Rightarrow> u32" where
  "next_task_id n = (if n + 1 = 0 then n + 2 else n + 1)"

definition switch_scheduler_add_task ::
    "(nat \<Rightarrow> int) \<Rightarrow> int \<Rightarrow> nat option \<Rightarrow> string option \<Rightarrow> string option \<Rightarrow> u32 \<Rightarrow> nat option \<Rightarrow> u32 \<Rightarrow>
     sched \<Rightarrow> (u32 \<times> sched) c" where
  "switch_scheduler_add_task clk task_runtime func desc gname cmd_id cmd_arg flags s =
     (case switch_epoch_time_now clk s of (now, s1) \<Rightarrow>
        case func of None \<Rightarrow> Inl Assertion_Failed
        | Some f \<Rightarrow>
          let rep = (if task_runtime < now then of_int task_runtime else 0);
              runtime = (if task_runtime < now then task_runtime + now else task_runtime);
              grp = (case gname of Some g \<Rightarrow> g | None \<Rightarrow> ''none'');
              tid = next_task_id (sc_task_id s1);
              container = \<lparr>tc_task = \<lparr>t_created = now, t_runtime = runtime, t_cmd_id = cmd_id, t_repeat = rep,
                             t_group = grp, t_cmd_arg = cmd_arg, t_task_id = tid,
                             t_hash = switch_ci_hashfunc_default grp\<rparr>,
                           tc_executed = 0, tc_in_thread = False, tc_destroyed = 0, tc_running = False,
                           tc_func = f, tc_flags = flags,
                           tc_desc = (case desc of Some d \<Rightarrow> d | None \<Rightarrow> ''none'')\<rparr>;
              s2 = s1\<lparr>sc_task_list := sc_task_list s1 @ [container], sc_task_id := tid\<rparr>
          in Inr (tid, queue_push (task_event SWITCH_EVENT_ADD_SCHEDULE container) s2))"

text \<open>The walks of the two deletions over the list, with the number of tasks they marked.\<close>

fun del_id_walk :: "u32 \<Rightarrow> task_container list \<Rightarrow> u32 \<times> task_container list" where
  "del_id_walk task_id [] = (0, [])"
| "del_id_walk task_id (tp # tps) =
     (if t_task_id (tc_task tp) = task_id then
        if tc_flag tp SSHF_NO_DEL then (0, tp # tps)
        else if tc_running tp then (0, tp # tps)
        else (1, tp\<lparr>tc_destroyed := tc_destroyed tp + 1\<rparr> # tps)
      else (case del_id_walk task_id tps of (n, tps') \<Rightarrow> (n, tp # tps')))"

definition switch_scheduler_del_task_id :: "u32 \<Rightarrow> sched \<Rightarrow> u32 \<times> sched" where
  "switch_scheduler_del_task_id task_id s =
     (case del_id_walk task_id (sc_task_list s) of (delcnt, tps) \<Rightarrow> (delcnt, s\<lparr>sc_task_list := tps\<rparr>))"

fun del_group_walk :: "u32 \<Rightarrow> string \<Rightarrow> task_container list \<Rightarrow> u32 \<times> task_container list" where
  "del_group_walk h gname [] = (0, [])"
| "del_group_walk h gname (tp # tps) =
     (case del_group_walk h gname tps of (n, tps') \<Rightarrow>
        if tc_destroyed tp \<noteq> 0 then (n, tp # tps')
        else if h = t_hash (tc_task tp) \<and> t_group (tc_task tp) = gname then
          if tc_flag tp SSHF_NO_DEL then (n, tp # tps')
          else (n + 1, tp\<lparr>tc_destroyed := tc_destroyed tp + 1\<rparr> # tps')
        else (n, tp # tps'))"

definition switch_scheduler_del_task_group :: "string option \<Rightarrow> sched \<Rightarrow> u32 \<times> sched" where
  "switch_scheduler_del_task_group gname s =
     (case gname of
        None \<Rightarrow> (0, s)
      | Some g \<Rightarrow>
          if g = [] then (0, s)
          else (case del_group_walk (switch_ci_hashfunc_default g) g (sc_task_list s) of
                  (delcnt, tps) \<Rightarrow> (delcnt, s\<lparr>sc_task_list := tps\<rparr>)))"

datatype sched_op =
    Sched_Add int nat "string option" "string option" u32 "nat option" u32
  | Sched_Del_Id u32
  | Sched_Del_Group "string option"

fun sched_op_step :: "(nat \<Rightarrow> int) \<Rightarrow> sched_op \<Rightarrow> sched \<Rightarrow> sched" where
  "sched_op_step clk (Sched_Add rt f desc gname cmd arg flags) s =
     (case switch_scheduler_add_task clk rt (Some f) desc gname cmd arg flags s of
        Inl _ \<Rightarrow> s | Inr (_, s') \<Rightarrow> s')"
| "sched_op_step clk (Sched_Del_Id tid) s = snd (switch_scheduler_del_task_id tid s)"
| "sched_op_step clk (Sched_Del_Group g) s = snd (switch_scheduler_del_task_group g s)"

section \<open>The scheduler thread\<close>

type_synonym task_call = "nat \<Rightarrow> sched_task \<Rightarrow> sched_task \<times> sched_op list"

text \<open>\<open>push\<close> is the push of the thread that executes the task.\<close>

definition switch_scheduler_execute ::
    "(sched_event \<Rightarrow> sched \<Rightarrow> sched) \<Rightarrow> (nat \<Rightarrow> int) \<Rightarrow> task_call \<Rightarrow> nat \<Rightarrow> sched \<Rightarrow> sched" where
  "switch_scheduler_execute push clk call i s =
     (let tp = sc_task_list s ! i;
          (task, ops) = call (tc_func tp) (tc_task tp);
          s = s\<lparr>sc_calls := sc_calls s @ [(tc_func tp, t_task_id (tc_task tp), t_runtime (tc_task tp), tc_executed tp)]\<rparr>;
          s = fold (sched_op_step clk) ops s;
          (task, s) = (if t_repeat task \<noteq> 0
                       then (case switch_epoch_time_now clk s of (now, s) \<Rightarrow>
                               (task\<lparr>t_runtime := now + uint (t_repeat task)\<rparr>, s))
                       else (task, s));
          tp = (sc_task_list s ! i)\<lparr>tc_task := task\<rparr>
      in if t_runtime task > tc_executed tp
         then push (task_event SWITCH_EVENT_RE_SCHEDULE tp) (set_task i (tp\<lparr>tc_executed := 0\<rparr>) s)
         else set_task i (tp\<lparr>tc_destroyed := 1\<rparr>) s)"

definition task_own_thread :: "(nat \<Rightarrow> int) \<Rightarrow> task_call \<Rightarrow> nat \<Rightarrow> sched \<Rightarrow> sched" where
  "task_own_thread clk call i s =
     (let s = switch_scheduler_execute queue_push clk call i s
      in set_task i ((sc_task_list s ! i)\<lparr>tc_in_thread := False\<rparr>) s)"

text \<open>One round of the first loop of \<open>task_thread_loop\<close>, for the container at position \<open>i\<close>.\<close>

definition scan_task :: "(nat \<Rightarrow> int) \<Rightarrow> task_call \<Rightarrow> bool \<Rightarrow> nat \<Rightarrow> sched \<Rightarrow> sched" where
  "scan_task clk call finish i s =
     (let tp = sc_task_list s ! i in
      if finish then set_task i (tp\<lparr>tc_destroyed := 1\<rparr>) s
      else if tc_destroyed tp = 0 then
        (case switch_epoch_time_now clk s of (now, s) \<Rightarrow>
           if now \<ge> t_runtime (tc_task tp) \<and> \<not> tc_in_thread tp then
             if tc_flag tp SSHF_OWN_THREAD
             then set_task i (tp\<lparr>tc_executed := now, tc_in_thread := True\<rparr>) s
             else
               let s = switch_scheduler_execute own_push clk call i
                         (set_task i (tp\<lparr>tc_executed := now, tc_running := True\<rparr>) s)
               in if sc_stuck s then s else set_task i ((sc_task_list s ! i)\<lparr>tc_running := False\<rparr>) s
           else s)
      else s)"

partial_function (option) scan_from :: "(nat \<Rightarrow> int) \<Rightarrow> task_call \<Rightarrow> bool \<Rightarrow> nat \<Rightarrow> sched \<Rightarrow> sched option" where
  "scan_from clk call finish i s =
     (if i < length (sc_task_list s) \<and> \<not> sc_stuck s
      then scan_from clk call finish (Suc i) (scan_task clk call finish i s)
      else Some s)"

text \<open>The second loop; \<open>kept\<close> are the containers it has passed and left in the list.\<close>

fun sweep :: "task_container list \<Rightarrow> task_container list \<Rightarrow> sched \<Rightarrow> sched" where
  "sweep kept [] s = s\<lparr>sc_task_list := kept\<rparr>"
| "sweep kept (tp # tps) s =
     (if tc_destroyed tp \<noteq> 0 \<and> \<not> tc_in_thread tp
      then let s = own_push (task_event SWITCH_EVENT_DEL_SCHEDULE tp) s
           in if sc_stuck s then s\<lparr>sc_task_list := kept @ tp # tps\<rparr> else sweep kept tps s
      else sweep (kept @ [tp]) tps s)"

text \<open>One pass. A resulting state with \<open>sc_stuck\<close> is the one in which the pass waits for ever.\<close>

definition task_thread_loop :: "(nat \<Rightarrow> int) \<Rightarrow> task_call \<Rightarrow> bool \<Rightarrow> sched \<Rightarrow> (bool \<times> sched) option" where
  "task_thread_loop clk call finish s =
     (case scan_from clk call finish 0 s of
        None \<Rightarrow> None
      | Some s' \<Rightarrow> Some (finish, if sc_stuck s' then s' else sweep [] (sc_task_list s') s'))"

text \<open>
  One round of the thread: a pass, then at most one queued event is fired (the second component).
  When the thread was told to stop it makes the final pass and reports that it has ended.
\<close>

definition task_thread_round :: "(nat \<Rightarrow> int) \<Rightarrow> task_call \<Rightarrow> sched \<Rightarrow> (sched_event list \<times> sched) option" where
  "task_thread_round clk call s =
     (if sc_stuck s then None
      else if sc_task_thread_running s = 1 then
        (case task_thread_loop clk call False s of
           None \<Rightarrow> None
         | Some (_, s') \<Rightarrow>
             if sc_stuck s' then Some ([], s')
             else (case sc_event_queue s' of
                [] \<Rightarrow> Some ([], s')
              | e # es \<Rightarrow> Some ([e], s'\<lparr>sc_event_queue := es\<rparr>)))
      else
        (case task_thread_loop clk call True s of
           None \<Rightarrow> None
         | Some (_, s') \<Rightarrow>
             if sc_stuck s' then Some ([], s') else Some ([], s'\<lparr>sc_task_thread_running := 0\<rparr>)))"

definition switch_scheduler_task_thread_start :: sched where
  "switch_scheduler_task_thread_start =
     \<lparr>sc_task_list = [], sc_task_id = 0, sc_task_thread_running = 1, sc_event_queue = [], sc_stuck = False,
      sc_ticks = 0, sc_calls = []\<rparr>"

definition switch_scheduler_task_thread_stop :: "sched \<Rightarrow> sched" where
  "switch_scheduler_task_thread_stop s =
     (if sc_task_thread_running s = 1 then s\<lparr>sc_task_thread_running := -1\<rparr> else s)"

section \<open>Frame facts\<close>

lemma sched_simps [simp]:
  "sc_task_list (queue_push e s) = sc_task_list s" "sc_calls (queue_push e s) = sc_calls s"
  "sc_task_list (set_task i tp s) = (sc_task_list s)[i := tp]" "sc_calls (set_task i tp s) = sc_calls s"
  "sc_ticks (set_task i tp s) = sc_ticks s" "sc_ticks (queue_push e s) = sc_ticks s"
  "sc_stuck (set_task i tp s) = sc_stuck s" "sc_stuck (queue_push e s) = sc_stuck s"
  "sc_event_queue (set_task i tp s) = sc_event_queue s" "sc_event_queue (queue_push e s) = sc_event_queue s @ [e]"
  "sc_task_list (own_push e s) = sc_task_list s" "sc_calls (own_push e s) = sc_calls s"
  by (simp_all add: queue_push_def set_task_def own_push_def)

definition push_frame :: "(sched_event \<Rightarrow> sched \<Rightarrow> sched) \<Rightarrow> bool" where
  "push_frame push \<longleftrightarrow> (\<forall>e s. sc_task_list (push e s) = sc_task_list s \<and> sc_calls (push e s) = sc_calls s)"

lemma push_frames [simp]: "push_frame queue_push" "push_frame own_push"
  by (simp_all add: push_frame_def)

text \<open>What an operation of the interface may do to the containers of the list: append, and mark.\<close>

definition marked :: "task_container \<Rightarrow> task_container \<Rightarrow> bool" where
  "marked tp tp' \<longleftrightarrow> (\<exists>d. tp' = tp\<lparr>tc_destroyed := d\<rparr>)"

definition fresh_container :: "task_container \<Rightarrow> bool" where
  "fresh_container tp \<longleftrightarrow> \<not> tc_in_thread tp \<and> \<not> tc_running tp \<and> t_hash (tc_task tp) = switch_ci_hashfunc_default (t_group (tc_task tp))"

definition list_ext :: "task_container list \<Rightarrow> task_container list \<Rightarrow> bool" where
  "list_ext xs ys \<longleftrightarrow> (\<exists>zs. list_all2 marked xs (take (length xs) ys) \<and> ys = take (length xs) ys @ zs \<and>
     (\<forall>tp \<in> set zs. fresh_container tp))"

lemma marked_refl [simp]: "marked tp tp"
  by (auto simp: marked_def intro: exI [of _ "tc_destroyed tp"])

lemma marked_destroyed [simp]: "marked tp (tp\<lparr>tc_destroyed := d\<rparr>)"
  by (auto simp: marked_def)

lemma list_all2_marked_refl [simp]: "list_all2 marked xs xs"
  by (simp add: list_all2_refl)

lemma list_extI:
  assumes "list_all2 marked xs ys" and "\<forall>tp \<in> set zs. fresh_container tp"
  shows "list_ext xs (ys @ zs)"
  using assms list_all2_lengthD [OF assms(1)] by (auto simp: list_ext_def)

lemma list_ext_nth:
  assumes "list_ext xs ys" and "j < length xs"
  shows "marked (xs ! j) (ys ! j)" and "j < length ys"
proof -
  have l: "length xs = length (take (length xs) ys)"
    using assms(1) by (auto simp: list_ext_def dest: list_all2_lengthD)
  then show j: "j < length ys" using assms(2) by simp
  show "marked (xs ! j) (ys ! j)"
    using assms unfolding list_ext_def by (auto simp: list_all2_conv_all_nth)
qed

lemma list_ext_new:
  assumes "list_ext xs ys" and "length xs \<le> j" and "j < length ys"
  shows "fresh_container (ys ! j)"
proof -
  obtain zs where z: "ys = take (length xs) ys @ zs" "\<forall>tp \<in> set zs. fresh_container tp"
      "list_all2 marked xs (take (length xs) ys)"
    using assms(1) by (auto simp: list_ext_def)
  have l: "length (take (length xs) ys) = length xs" using list_all2_lengthD [OF z(3)] by simp
  have "ys ! j = zs ! (j - length xs)" using z(1) l assms(2) by (metis nth_append not_le)
  moreover have "j - length xs < length zs" using z(1) l assms(2,3) by (metis length_append less_diff_conv2 add.commute)
  ultimately show ?thesis using z(2) nth_mem by metis
qed

lemma list_extI_nth:
  assumes "length xs \<le> length ys" and "\<And>j. j < length xs \<Longrightarrow> marked (xs ! j) (ys ! j)"
    and "\<And>j. length xs \<le> j \<Longrightarrow> j < length ys \<Longrightarrow> fresh_container (ys ! j)"
  shows "list_ext xs ys"
proof -
  have "ys = take (length xs) ys @ drop (length xs) ys" by simp
  moreover have "list_all2 marked xs (take (length xs) ys)"
    using assms(1,2) by (simp add: list_all2_conv_all_nth)
  moreover have "\<forall>tp \<in> set (drop (length xs) ys). fresh_container tp"
    using assms(1,3) by (auto simp: in_set_conv_nth)
  ultimately show ?thesis unfolding list_ext_def by blast
qed

lemma list_ext_refl [simp]: "list_ext xs xs"
  by (rule list_extI_nth) simp_all

lemma marked_trans: "marked a b \<Longrightarrow> marked b d \<Longrightarrow> marked a d"
  by (auto simp: marked_def)

lemma marked_fresh: "marked a b \<Longrightarrow> fresh_container a \<Longrightarrow> fresh_container b"
  by (auto simp: marked_def fresh_container_def)

lemma list_ext_trans:
  assumes xy: "list_ext xs ys" and yz: "list_ext ys zs"
  shows "list_ext xs zs"
proof (rule list_extI_nth)
  have len: "length as \<le> length bs" if "list_ext as bs" for as bs
    using list_all2_lengthD that by (force simp: list_ext_def)
  show "length xs \<le> length zs" using len [OF xy] len [OF yz] by simp
  show "marked (xs ! j) (zs ! j)" if "j < length xs" for j
    using list_ext_nth [OF xy that] list_ext_nth(1) [OF yz] marked_trans by blast
  show "fresh_container (zs ! j)" if "length xs \<le> j" "j < length zs" for j
  proof (cases "j < length ys")
    case True
    then show ?thesis using list_ext_new [OF xy that(1)] list_ext_nth(1) [OF yz] marked_fresh by blast
  next
    case False
    then show ?thesis using list_ext_new [OF yz] that(2) by simp
  qed
qed

lemma del_id_walk_ext: "list_all2 marked tps (snd (del_id_walk tid tps))"
  by (induction tps) (auto split: prod.splits)

lemma del_group_walk_ext: "list_all2 marked tps (snd (del_group_walk h g tps))"
  by (induction tps) (auto split: prod.splits)

lemma sched_op_step_ext:
  "list_ext (sc_task_list s) (sc_task_list (sched_op_step clk x s)) \<and> sc_calls (sched_op_step clk x s) = sc_calls s"
proof (cases x)
  case (Sched_Add rt f desc gname cmd arg flags)
  then show ?thesis
    by (auto simp: switch_scheduler_add_task_def switch_epoch_time_now_def Let_def fresh_container_def intro!: list_extI)
next
  case (Sched_Del_Id tid)
  then show ?thesis using list_extI [OF del_id_walk_ext [of "sc_task_list s" tid], of "[]"]
    by (auto simp: switch_scheduler_del_task_id_def split: prod.splits)
next
  case (Sched_Del_Group g)
  then show ?thesis using list_extI [OF del_group_walk_ext [of "sc_task_list s"], of "[]"]
    by (auto simp: switch_scheduler_del_task_group_def split: prod.splits option.splits) (metis snd_conv)
qed

lemma sched_ops_ext:
  "list_ext (sc_task_list s) (sc_task_list (fold (sched_op_step clk) ops s)) \<and>
   sc_calls (fold (sched_op_step clk) ops s) = sc_calls s"
proof (induction ops arbitrary: s)
  case (Cons x ops)
  show ?case
    using Cons [of "sched_op_step clk x s"] sched_op_step_ext [of s clk x] list_ext_trans by auto
qed simp

section \<open>Invariant\<close>

definition tp_hashed :: "task_container \<Rightarrow> bool" where
  "tp_hashed tp \<longleftrightarrow> t_hash (tc_task tp) = switch_ci_hashfunc_default (t_group (tc_task tp))"

text \<open>A container whose thread is running was due when the thread was started.\<close>

definition tp_ok :: "task_container \<Rightarrow> bool" where
  "tp_ok tp \<longleftrightarrow> tp_hashed tp \<and> (tc_in_thread tp \<longrightarrow> t_runtime (tc_task tp) \<le> tc_executed tp)"

definition calls_due :: "sched \<Rightarrow> bool" where
  "calls_due s \<longleftrightarrow> (\<forall>(f, tid, runtime, now) \<in> set (sc_calls s). runtime \<le> now)"

definition sched_inv :: "sched \<Rightarrow> bool" where
  "sched_inv s \<longleftrightarrow> (\<forall>tp \<in> set (sc_task_list s). tp_ok tp) \<and> calls_due s"

definition inv_except :: "nat \<Rightarrow> sched \<Rightarrow> bool" where
  "inv_except i s \<longleftrightarrow> i < length (sc_task_list s) \<and>
     (\<forall>j < length (sc_task_list s). j \<noteq> i \<longrightarrow> tp_ok (sc_task_list s ! j)) \<and> calls_due s"

text \<open>A task function may change when its task runs next, not what the task is.\<close>

definition call_keeps_identity :: "task_call \<Rightarrow> bool" where
  "call_keeps_identity call \<longleftrightarrow> (\<forall>f t. t_group (fst (call f t)) = t_group t \<and> t_hash (fst (call f t)) = t_hash t \<and>
     t_task_id (fst (call f t)) = t_task_id t)"

lemma marked_ok: "marked a b \<Longrightarrow> tp_ok a \<Longrightarrow> tp_ok b"
  by (auto simp: marked_def tp_ok_def tp_hashed_def)

lemma inv_exceptI: "sched_inv s \<Longrightarrow> i < length (sc_task_list s) \<Longrightarrow> inv_except i s"
  by (simp add: sched_inv_def inv_except_def)

lemma inv_except_set:
  assumes "inv_except i s" and "tp_ok tp"
  shows "sched_inv (set_task i tp s)"
  using assms by (auto simp: sched_inv_def inv_except_def calls_due_def in_set_conv_nth nth_list_update)

lemma inv_except_ext:
  assumes "inv_except i s" and "list_ext (sc_task_list s) (sc_task_list s')" and "sc_calls s' = sc_calls s"
  shows "inv_except i s'"
proof -
  have "tp_ok (sc_task_list s' ! j)" if j: "j < length (sc_task_list s')" "j \<noteq> i" for j
  proof (cases "j < length (sc_task_list s)")
    case True
    then show ?thesis using list_ext_nth(1) [OF assms(2) True] assms(1) j
      by (auto simp: inv_except_def marked_def tp_ok_def tp_hashed_def)
  next
    case False
    then show ?thesis using list_ext_new [OF assms(2)] j
      by (simp add: fresh_container_def tp_ok_def tp_hashed_def)
  qed
  then show ?thesis using assms list_ext_nth(2) [OF assms(2)] by (simp add: inv_except_def calls_due_def)
qed

lemma execute_inv:
  assumes inv: "inv_except i s" and call: "call_keeps_identity call" and push: "push_frame push"
    and tp: "tp = sc_task_list s ! i" "tp_hashed tp" "t_runtime (tc_task tp) \<le> tc_executed tp"
    and s': "s' = switch_scheduler_execute push clk call i s"
  shows "inv_except i s' \<and> tp_hashed (sc_task_list s' ! i) \<and> tc_in_thread (sc_task_list s' ! i) = tc_in_thread tp"
proof -
  obtain task ops where co: "call (tc_func tp) (tc_task tp) = (task, ops)" by fastforce
  let ?s1 = "s\<lparr>sc_calls := sc_calls s @ [(tc_func tp, t_task_id (tc_task tp), t_runtime (tc_task tp), tc_executed tp)]\<rparr>"
  let ?s2 = "fold (sched_op_step clk) ops ?s1"
  have i: "i < length (sc_task_list s)" using inv by (simp add: inv_except_def)
  have "inv_except i ?s1" using inv tp by (auto simp: inv_except_def calls_due_def)
  moreover note ext = sched_ops_ext [of ?s1 clk ops]
  ultimately have inv2: "inv_except i ?s2" using inv_except_ext by blast
  have m: "marked tp (sc_task_list ?s2 ! i)" using list_ext_nth(1) [of _ _ i] ext i tp(1) by auto
  have keep: "inv_except i (set_task i x u)" "inv_except i (push e v)"
    if "inv_except i u" "inv_except i v" for x u e v
    using that push by (auto simp: inv_except_def calls_due_def push_frame_def)
  have tick: "inv_except i (u\<lparr>sc_ticks := n\<rparr>)" if "inv_except i u" for u n
    using that by (simp add: inv_except_def calls_due_def)
  have "t_group task = t_group (tc_task tp)" "t_hash task = t_hash (tc_task tp)"
    using call co unfolding call_keeps_identity_def by (metis fst_conv)+
  then show ?thesis
    using co keep tick inv2 i tp m push
    unfolding s' switch_scheduler_execute_def
    by (auto simp: Let_def switch_epoch_time_now_def tp_hashed_def marked_def inv_except_def push_frame_def)
qed

lemma inv_except_ok: "inv_except i s \<Longrightarrow> tp_ok (sc_task_list s ! i) \<Longrightarrow> sched_inv s"
  by (auto simp: sched_inv_def inv_except_def in_set_conv_nth)

lemma scan_task_inv:
  assumes inv: "sched_inv s" and i: "i < length (sc_task_list s)" and call: "call_keeps_identity call"
  shows "sched_inv (scan_task clk call finish i s)"
proof -
  let ?tp = "sc_task_list s ! i" and ?now = "clk (sc_ticks s)"
  let ?s = "s\<lparr>sc_ticks := Suc (sc_ticks s)\<rparr>"
  have ok: "tp_ok ?tp" using inv i by (simp add: sched_inv_def)
  have ex: "inv_except i s" by (rule inv_exceptI [OF inv i])
  then have ext: "inv_except i ?s" by (simp add: inv_except_def calls_due_def)
  have inv': "sched_inv ?s" using inv by (simp add: sched_inv_def calls_due_def)
  let ?run = "set_task i (?tp\<lparr>tc_executed := ?now, tc_running := True\<rparr>) ?s"
  have ex_run: "inv_except i ?run" using ext by (auto simp: inv_except_def calls_due_def)
  let ?s' = "switch_scheduler_execute own_push clk call i ?run"
  have fin: "sched_inv ?s' \<and> sched_inv (set_task i ((sc_task_list ?s' ! i)\<lparr>tc_running := False\<rparr>) ?s')"
    if due: "t_runtime (tc_task ?tp) \<le> ?now" "\<not> tc_in_thread ?tp"
  proof -
    have "inv_except i ?s' \<and> tp_hashed (sc_task_list ?s' ! i) \<and> tc_in_thread (sc_task_list ?s' ! i) = False"
      using execute_inv [OF ex_run call push_frames(2) refl _ _ refl, of clk] i ok due by (simp add: tp_ok_def tp_hashed_def)
    then show ?thesis by (intro conjI inv_except_set inv_except_ok [of i]) (auto simp: tp_ok_def tp_hashed_def)
  qed
  have thr: "sched_inv (set_task i (?tp\<lparr>tc_executed := ?now, tc_in_thread := True\<rparr>) ?s)"
    if "t_runtime (tc_task ?tp) \<le> ?now"
    using that ok by (intro inv_except_set [OF ext]) (simp add: tp_ok_def tp_hashed_def)
  have del: "sched_inv (set_task i (?tp\<lparr>tc_destroyed := 1\<rparr>) s)"
    using ok by (intro inv_except_set [OF ex]) (simp add: tp_ok_def tp_hashed_def)
  show ?thesis
    unfolding scan_task_def Let_def switch_epoch_time_now_def prod.case
    using fin thr del inv inv' by (simp split: if_split)
qed

lemma scan_from_inv:
  assumes "scan_from clk call finish i s = Some s'" and "sched_inv s" and "call_keeps_identity call"
  shows "sched_inv s'"
proof -
  have "sched_inv s \<longrightarrow> call_keeps_identity call \<longrightarrow> sched_inv s'"
  proof (rule scan_from.raw_induct [OF _ assms(1)], intro impI)
    fix rec clk call finish i s s'
    assume IH: "\<And>clk call finish i s s'. rec clk call finish i s = Some s' \<Longrightarrow>
        sched_inv s \<longrightarrow> call_keeps_identity call \<longrightarrow> sched_inv s'"
      and step: "(if i < length (sc_task_list s) \<and> \<not> sc_stuck s then rec clk call finish (Suc i) (scan_task clk call finish i s) else Some s) = Some s'"
      and inv: "sched_inv s" and call: "call_keeps_identity call"
    show "sched_inv s'"
      using step inv IH [of clk call finish "Suc i" "scan_task clk call finish i s" s'] scan_task_inv [OF inv _ call] call
      by (auto split: if_splits)
  qed
  with assms show ?thesis by simp
qed

definition dead :: "task_container \<Rightarrow> bool" where
  "dead tp \<longleftrightarrow> tc_destroyed tp \<noteq> 0 \<and> \<not> tc_in_thread tp"

lemma sweep_calls: "sc_calls (sweep kept tps s) = sc_calls s"
  by (induction kept tps s rule: sweep.induct) (simp_all add: Let_def)

lemma sweep_inv:
  "(\<forall>tp \<in> set kept \<union> set tps. tp_ok tp) \<Longrightarrow> calls_due s \<Longrightarrow> sched_inv (sweep kept tps s)"
  by (induction kept tps s rule: sweep.induct) (auto simp: sched_inv_def calls_due_def Let_def)

text \<open>With room for its events the sweep removes exactly the dead containers, one event each.\<close>

lemma sweep_room:
  assumes "\<not> sc_stuck s" and "length (sc_event_queue s) + length (filter dead tps) \<le> EVENT_QUEUE_LEN"
  shows "sweep kept tps s = s\<lparr>sc_task_list := kept @ filter (\<lambda>tp. \<not> dead tp) tps,
     sc_event_queue := sc_event_queue s @ map (task_event SWITCH_EVENT_DEL_SCHEDULE) (filter dead tps)\<rparr>"
  using assms
proof (induction tps arbitrary: kept s)
  case (Cons tp tps)
  show ?case
  proof (cases "dead tp")
    case True
    then show ?thesis using Cons.prems Cons.IH [of "queue_push (task_event SWITCH_EVENT_DEL_SCHEDULE tp) s" kept]
      by (simp add: dead_def own_push_def) (simp add: queue_push_def)
  next
    case False
    then show ?thesis using Cons.prems Cons.IH [of s "kept @ [tp]"] by (auto simp: dead_def)
  qed
qed simp

lemma sweep_stuck:
  "EVENT_QUEUE_LEN \<le> length (sc_event_queue s) \<Longrightarrow> \<exists>tp \<in> set tps. dead tp \<Longrightarrow> sc_stuck (sweep kept tps s)"
  by (induction kept tps s rule: sweep.induct) (auto simp: own_push_def dead_def Let_def)

lemma task_thread_loop_inv:
  assumes "task_thread_loop clk call finish s = Some (r, s')" and "sched_inv s" and "call_keeps_identity call"
  shows "sched_inv s'"
proof -
  obtain s1 where s1: "scan_from clk call finish 0 s = Some s1" "s' = (if sc_stuck s1 then s1 else sweep [] (sc_task_list s1) s1)"
    using assms(1) by (auto simp: task_thread_loop_def split: option.splits)
  have "sched_inv s1" by (rule scan_from_inv [OF s1(1) assms(2,3)])
  then show ?thesis using sweep_inv [of "[]" "sc_task_list s1" s1] s1(2) by (simp add: sched_inv_def)
qed

text \<open>
  The states of the scheduler: any interleaving of interface operations, rounds of the scheduler
  thread and the ends of tasks that run in their own thread.
\<close>

inductive sched_reach :: "(nat \<Rightarrow> int) \<Rightarrow> task_call \<Rightarrow> sched \<Rightarrow> bool" for clk call where
  reach_start: "sched_reach clk call switch_scheduler_task_thread_start"
| reach_op: "sched_reach clk call s \<Longrightarrow> sched_reach clk call (sched_op_step clk x s)"
| reach_round: "sched_reach clk call s \<Longrightarrow> task_thread_round clk call s = Some (evs, s') \<Longrightarrow> sched_reach clk call s'"
| reach_thread: "sched_reach clk call s \<Longrightarrow> i < length (sc_task_list s) \<Longrightarrow> tc_in_thread (sc_task_list s ! i) \<Longrightarrow>
    sched_reach clk call (task_own_thread clk call i s)"
| reach_stop: "sched_reach clk call s \<Longrightarrow> sched_reach clk call (switch_scheduler_task_thread_stop s)"

lemma sched_inv_update [simp]:
  "sched_inv (s\<lparr>sc_event_queue := q\<rparr>) = sched_inv s" "sched_inv (s\<lparr>sc_task_thread_running := r\<rparr>) = sched_inv s"
  by (simp_all add: sched_inv_def calls_due_def)

lemma sched_op_step_inv:
  assumes "sched_inv s"
  shows "sched_inv (sched_op_step clk x s)"
proof -
  note e = sched_op_step_ext [of s clk x]
  have "tp_ok (sc_task_list (sched_op_step clk x s) ! j)" if j: "j < length (sc_task_list (sched_op_step clk x s))" for j
  proof (cases "j < length (sc_task_list s)")
    case True
    then have "marked (sc_task_list s ! j) (sc_task_list (sched_op_step clk x s) ! j)" using list_ext_nth(1) e by blast
    moreover have "tp_ok (sc_task_list s ! j)" using True assms by (simp add: sched_inv_def)
    ultimately show ?thesis by (rule marked_ok)
  next
    case False
    then show ?thesis using list_ext_new [of _ _ j] e j
      by (auto simp: fresh_container_def tp_ok_def tp_hashed_def not_less)
  qed
  then show ?thesis using assms e by (auto simp: sched_inv_def calls_due_def in_set_conv_nth)
qed

lemma task_own_thread_inv:
  assumes inv: "sched_inv s" and i: "i < length (sc_task_list s)" "tc_in_thread (sc_task_list s ! i)"
    and call: "call_keeps_identity call"
  shows "sched_inv (task_own_thread clk call i s)"
proof -
  have ok: "tp_ok (sc_task_list s ! i)" using inv i by (simp add: sched_inv_def)
  then have "inv_except i (switch_scheduler_execute queue_push clk call i s) \<and>
      tp_hashed (sc_task_list (switch_scheduler_execute queue_push clk call i s) ! i)"
    using execute_inv [OF inv_exceptI [OF inv i(1)] call push_frames(1) refl _ _ refl, of clk] i(2) by (simp add: tp_ok_def)
  then show ?thesis
    unfolding task_own_thread_def Let_def by (intro inv_except_set) (auto simp: tp_ok_def tp_hashed_def)
qed

lemma task_thread_round_inv:
  assumes "task_thread_round clk call s = Some (evs, s')" and "sched_inv s" and "call_keeps_identity call"
  shows "sched_inv s'"
  using assms task_thread_loop_inv [of clk call]
  by (auto simp: task_thread_round_def split: if_splits option.splits prod.splits list.splits)

lemma sched_reach_inv:
  assumes "sched_reach clk call s" and "call_keeps_identity call"
  shows "sched_inv s"
  using assms
proof (induction rule: sched_reach.induct)
  case reach_start
  then show ?case by (simp add: switch_scheduler_task_thread_start_def sched_inv_def calls_due_def)
next
  case (reach_stop s)
  then show ?case by (simp add: switch_scheduler_task_thread_stop_def)
qed (auto intro: sched_op_step_inv task_thread_round_inv task_own_thread_inv)

section \<open>A pass without interference\<close>

definition call_quiet :: "task_call \<Rightarrow> bool" where
  "call_quiet call \<longleftrightarrow> (\<forall>f t. snd (call f t) = [])"

definition inline_due :: "int \<Rightarrow> task_container \<Rightarrow> bool" where
  "inline_due now tp \<longleftrightarrow> tc_destroyed tp = 0 \<and> t_runtime (tc_task tp) \<le> now \<and> \<not> tc_in_thread tp \<and>
     \<not> tc_flag tp SSHF_OWN_THREAD"

definition next_task :: "int \<Rightarrow> task_call \<Rightarrow> task_container \<Rightarrow> sched_task" where
  "next_task now call tp =
     (let task = fst (call (tc_func tp) (tc_task tp))
      in if t_repeat task \<noteq> 0 then task\<lparr>t_runtime := now + uint (t_repeat task)\<rparr> else task)"

text \<open>
  What a pass at time \<open>now\<close> does to one container: a due task runs (in its own thread, or at once),
  and one that ran at once is kept for its next run time or, if that has passed, marked for deletion.
\<close>

definition task_pass :: "int \<Rightarrow> task_call \<Rightarrow> task_container \<Rightarrow> task_container" where
  "task_pass now call tp =
     (if inline_due now tp then
        if t_runtime (next_task now call tp) > now
        then tp\<lparr>tc_task := next_task now call tp, tc_executed := 0, tc_running := False\<rparr>
        else tp\<lparr>tc_executed := now, tc_task := next_task now call tp, tc_destroyed := 1, tc_running := False\<rparr>
      else if tc_destroyed tp = 0 \<and> t_runtime (tc_task tp) \<le> now \<and> \<not> tc_in_thread tp
      then tp\<lparr>tc_executed := now, tc_in_thread := True\<rparr>
      else tp)"

definition call_entry :: "int \<Rightarrow> task_container \<Rightarrow> nat \<times> u32 \<times> int \<times> int" where
  "call_entry now tp = (tc_func tp, t_task_id (tc_task tp), t_runtime (tc_task tp), now)"

text \<open>The event a pass queues for a task that ran at once and is kept.\<close>

definition pass_events :: "int \<Rightarrow> task_call \<Rightarrow> task_container \<Rightarrow> sched_event list" where
  "pass_events now call tp =
     (if inline_due now tp \<and> t_runtime (next_task now call tp) > now
      then [task_event SWITCH_EVENT_RE_SCHEDULE (tp\<lparr>tc_task := next_task now call tp\<rparr>)] else [])"

definition room :: "nat \<Rightarrow> sched \<Rightarrow> bool" where
  "room n s \<longleftrightarrow> \<not> sc_stuck s \<and> length (sc_event_queue s) + n \<le> EVENT_QUEUE_LEN"

lemma scan_task_quiet:
  assumes q: "call_quiet call" and i: "i < length (sc_task_list s)" and r: "room 1 s"
  shows "sc_task_list (scan_task (\<lambda>_. now) call False i s) =
      (sc_task_list s)[i := task_pass now call (sc_task_list s ! i)] \<and>
    sc_calls (scan_task (\<lambda>_. now) call False i s) =
      sc_calls s @ (if inline_due now (sc_task_list s ! i) then [call_entry now (sc_task_list s ! i)] else []) \<and>
    sc_event_queue (scan_task (\<lambda>_. now) call False i s) = sc_event_queue s @ pass_events now call (sc_task_list s ! i) \<and>
    \<not> sc_stuck (scan_task (\<lambda>_. now) call False i s)"
proof -
  let ?tp = "sc_task_list s ! i"
  obtain task where ops: "call (tc_func ?tp) (tc_task ?tp) = (task, [])"
    using q by (metis call_quiet_def prod.collapse)
  have r': "\<not> sc_stuck s" "length (sc_event_queue s) < EVENT_QUEUE_LEN" using r by (simp_all add: room_def)
  show ?thesis
  proof (cases "inline_due now ?tp")
    case True
    then show ?thesis using i r'
      by (auto simp: scan_task_def switch_epoch_time_now_def inline_due_def Let_def switch_scheduler_execute_def
          task_pass_def next_task_def call_entry_def ops own_push_def pass_events_def task_event_def)
  next
    case False
    then show ?thesis using i r'
      by (auto simp: scan_task_def switch_epoch_time_now_def inline_due_def Let_def task_pass_def pass_events_def)
  qed
qed

text \<open>A scan that handles every container on its own handles the list pointwise.\<close>

lemma scan_from_pointwise:
  assumes step: "\<And>i s. i < length (sc_task_list s) \<Longrightarrow> room 1 s \<Longrightarrow>
      sc_task_list (scan_task clk call fin i s) = (sc_task_list s)[i := g (sc_task_list s ! i)] \<and>
      sc_calls (scan_task clk call fin i s) = sc_calls s @ h (sc_task_list s ! i) \<and>
      sc_event_queue (scan_task clk call fin i s) = sc_event_queue s @ q (sc_task_list s ! i) \<and>
      \<not> sc_stuck (scan_task clk call fin i s)"
    and one: "\<And>tp. length (q tp) \<le> 1"
    and "i \<le> length (sc_task_list s)" and "room (length (sc_task_list s) - i) s"
  shows "\<exists>s'. scan_from clk call fin i s = Some s' \<and> \<not> sc_stuck s' \<and>
     sc_task_list s' = take i (sc_task_list s) @ map g (drop i (sc_task_list s)) \<and>
     sc_calls s' = sc_calls s @ concat (map h (drop i (sc_task_list s))) \<and>
     sc_event_queue s' = sc_event_queue s @ concat (map q (drop i (sc_task_list s)))"
  using assms(3,4)
proof (induction "length (sc_task_list s) - i" arbitrary: i s)
  case 0
  then show ?case by (subst scan_from.simps) (simp add: room_def)
next
  case (Suc n)
  then have i: "i < length (sc_task_list s)" and r: "room 1 s" "\<not> sc_stuck s" by (auto simp: room_def)
  let ?s = "scan_task clk call fin i s"
  note st = step [OF i r(1)]
  have "room (length (sc_task_list ?s) - Suc i) ?s"
    using Suc.prems(2) st i one [of "sc_task_list s ! i"] unfolding room_def by auto
  moreover have "n = length (sc_task_list ?s) - Suc i" "Suc i \<le> length (sc_task_list ?s)" using Suc st i by auto
  ultimately obtain s' where s': "scan_from clk call fin (Suc i) ?s = Some s'" "\<not> sc_stuck s'"
      "sc_task_list s' = take (Suc i) (sc_task_list ?s) @ map g (drop (Suc i) (sc_task_list ?s))"
      "sc_calls s' = sc_calls ?s @ concat (map h (drop (Suc i) (sc_task_list ?s)))"
      "sc_event_queue s' = sc_event_queue ?s @ concat (map q (drop (Suc i) (sc_task_list ?s)))"
    using Suc.hyps(1) by blast
  have "scan_from clk call fin i s = Some s'" using i r s'(1) by (subst scan_from.simps) simp
  moreover have "drop i (sc_task_list s) = sc_task_list s ! i # drop (Suc i) (sc_task_list s)"
    using i by (simp add: Cons_nth_drop_Suc)
  moreover have "take (Suc i) ((sc_task_list s)[i := y]) = take i (sc_task_list s) @ [y]" for y
    using i by (simp add: take_Suc_conv_app_nth)
  ultimately show ?case using s' st by simp
qed

lemma concat_filter: "concat (map (\<lambda>x. if P x then [f x] else []) xs) = map f (filter P xs)"
  by (induction xs) simp_all

lemma scan_from_quiet:
  assumes "call_quiet call" and "room (length (sc_task_list s)) s"
  shows "\<exists>s'. scan_from (\<lambda>_. now) call False 0 s = Some s' \<and> \<not> sc_stuck s' \<and>
     sc_task_list s' = map (task_pass now call) (sc_task_list s) \<and>
     sc_calls s' = sc_calls s @ map (call_entry now) (filter (inline_due now) (sc_task_list s)) \<and>
     sc_event_queue s' = sc_event_queue s @ concat (map (pass_events now call) (sc_task_list s))"
proof -
  have "length (pass_events now call tp) \<le> 1" for tp by (simp add: pass_events_def)
  from scan_from_pointwise [OF scan_task_quiet [OF assms(1)] this, of 0 s] assms(2)
  show ?thesis by (simp add: concat_filter)
qed

lemma scan_from_final:
  assumes "\<not> sc_stuck s"
  shows "\<exists>s'. scan_from clk call True i s = Some s' \<and> \<not> sc_stuck s' \<and>
     sc_task_list s' = take i (sc_task_list s) @ map (\<lambda>tp. tp\<lparr>tc_destroyed := 1\<rparr>) (drop i (sc_task_list s)) \<and>
     sc_calls s' = sc_calls s \<and> sc_event_queue s' = sc_event_queue s"
  using assms
proof (induction "length (sc_task_list s) - i" arbitrary: i s)
  case 0
  then show ?case by (subst scan_from.simps) simp
next
  case (Suc n)
  then have i: "i < length (sc_task_list s)" by simp
  let ?s = "set_task i ((sc_task_list s ! i)\<lparr>tc_destroyed := 1\<rparr>) s"
  have "n = length (sc_task_list ?s) - Suc i" "\<not> sc_stuck ?s" using Suc by simp_all
  from Suc.hyps(1) [OF this] i Suc.prems show ?case
    by (subst scan_from.simps) (simp add: scan_task_def Let_def take_Suc_conv_app_nth flip: Cons_nth_drop_Suc)
qed

section \<open>Termination of a pass\<close>

definition op_adds :: "sched_op \<Rightarrow> bool" where
  "op_adds x \<longleftrightarrow> (case x of Sched_Add _ _ _ _ _ _ _ \<Rightarrow> True | _ \<Rightarrow> False)"

definition call_adds_nothing :: "task_call \<Rightarrow> bool" where
  "call_adds_nothing call \<longleftrightarrow> (\<forall>f t. \<forall>x \<in> set (snd (call f t)). \<not> op_adds x)"

lemma sched_op_no_add:
  assumes "\<not> op_adds x"
  shows "length (sc_task_list (sched_op_step clk x s)) = length (sc_task_list s) \<and>
     sc_event_queue (sched_op_step clk x s) = sc_event_queue s \<and> sc_stuck (sched_op_step clk x s) = sc_stuck s"
  using assms list_all2_lengthD [OF del_id_walk_ext, symmetric] list_all2_lengthD [OF del_group_walk_ext, symmetric]
  by (cases x) (simp_all add: op_adds_def switch_scheduler_del_task_id_def switch_scheduler_del_task_group_def
      split_beta split: option.split)

lemma sched_ops_no_add:
  assumes "\<forall>x \<in> set ops. \<not> op_adds x"
  shows "length (sc_task_list (fold (sched_op_step clk) ops s)) = length (sc_task_list s) \<and>
     sc_event_queue (fold (sched_op_step clk) ops s) = sc_event_queue s \<and>
     sc_stuck (fold (sched_op_step clk) ops s) = sc_stuck s"
  using assms by (induction ops arbitrary: s) (simp_all add: sched_op_no_add)

lemma execute_no_add:
  assumes "call_adds_nothing call" and "room 1 s" and "s' = switch_scheduler_execute own_push clk call i s"
  shows "length (sc_task_list s') = length (sc_task_list s) \<and> \<not> sc_stuck s' \<and>
     length (sc_event_queue s') \<le> Suc (length (sc_event_queue s))"
proof -
  obtain task ops where co: "call (tc_func (sc_task_list s ! i)) (tc_task (sc_task_list s ! i)) = (task, ops)" by fastforce
  have "\<forall>x \<in> set ops. \<not> op_adds x" using assms(1) co unfolding call_adds_nothing_def by (metis snd_conv)
  from sched_ops_no_add [OF this] show ?thesis using assms(2,3)
    by (simp add: switch_scheduler_execute_def co Let_def switch_epoch_time_now_def own_push_def room_def)
qed

lemma scan_task_no_add:
  assumes "call_adds_nothing call \<or> finish" and "room 1 s" and "s' = scan_task clk call finish i s"
  shows "length (sc_task_list s') = length (sc_task_list s) \<and> \<not> sc_stuck s' \<and>
     length (sc_event_queue s') \<le> Suc (length (sc_event_queue s))"
proof -
  have "room 1 (set_task i tp (s\<lparr>sc_ticks := n\<rparr>))" for tp n using assms(2) by (simp add: room_def)
  from execute_no_add [OF _ this refl, of call clk i] show ?thesis using assms
    by (auto simp: scan_task_def switch_epoch_time_now_def Let_def room_def)
qed

lemma scan_from_returns:
  assumes "call_adds_nothing call \<or> finish" and "room (n + (length (sc_task_list s) - i)) s"
  shows "\<exists>s'. scan_from clk call finish i s = Some s' \<and> length (sc_task_list s') = length (sc_task_list s) \<and> room n s'"
  using assms(2)
proof (induction "length (sc_task_list s) - i" arbitrary: i s)
  case 0
  then show ?case by (subst scan_from.simps) (simp add: room_def)
next
  case (Suc m)
  let ?s = "scan_task clk call finish i s"
  have r: "room 1 s" "\<not> sc_stuck s" using Suc.prems Suc.hyps(2) by (auto simp: room_def)
  note k = scan_task_no_add [OF assms(1) r(1) refl, of clk i]
  have "m = length (sc_task_list ?s) - Suc i" "room (n + (length (sc_task_list ?s) - Suc i)) ?s"
    using Suc.hyps(2) Suc.prems k by (auto simp: room_def)
  from Suc.hyps(1) [OF this] Suc.hyps(2) r k show ?case by (subst scan_from.simps) auto
qed

section \<open>Properties\<close>

definition demo_call :: task_call where
  "demo_call f t = (t, [])"

lemma demo_call_ok: "call_keeps_identity demo_call" "call_quiet demo_call" "call_adds_nothing demo_call"
  by (simp_all add: call_keeps_identity_def call_quiet_def call_adds_nothing_def demo_call_def)

definition demo_sched :: sched where
  "demo_sched = sched_op_step (\<lambda>_. 100) (Sched_Add 100 7 None (Some ''g'') 0 None SSHF_NO_DEL) switch_scheduler_task_thread_start"

lemma demo_room: "room (length (sc_task_list demo_sched)) demo_sched" "room (2 * length (sc_task_list demo_sched)) demo_sched"
  by (simp_all add: room_def demo_sched_def switch_scheduler_task_thread_start_def switch_scheduler_add_task_def
      switch_epoch_time_now_def Let_def queue_push_def EVENT_QUEUE_LEN_def)

lemma demo_round:
  "\<exists>evs s'. task_thread_round (\<lambda>_. 100) demo_call demo_sched = Some (evs, s') \<and> length (sc_calls s') = 1"
proof -
  obtain s1 where s1: "scan_from (\<lambda>_. 100) demo_call False 0 demo_sched = Some s1"
      "sc_calls s1 = sc_calls demo_sched @ map (call_entry 100) (filter (inline_due 100) (sc_task_list demo_sched))"
    using scan_from_quiet [OF demo_call_ok(2)] demo_room(1) by blast
  have one: "length (sc_calls s1) = 1" and run: "sc_task_thread_running demo_sched = 1" "\<not> sc_stuck demo_sched"
    unfolding s1(2)
    by (simp_all add: demo_sched_def switch_scheduler_task_thread_start_def switch_scheduler_add_task_def
        switch_epoch_time_now_def Let_def inline_due_def tc_flag_def SSHF_NO_DEL_def SSHF_OWN_THREAD_def queue_push_def)
  show ?thesis
    by (simp add: task_thread_round_def task_thread_loop_def run s1(1) one sweep_calls split: list.split)
qed



text \<open>
  C19. A pass at time \<open>now\<close> during which the list is not changed by others, with room in the event queue for
  two events per task: it returns, calls the
  function of every due task that does not run in its own thread exactly once and in list order,
  brings every container to its next state, and then removes exactly the containers that are marked
  and whose own thread is not running. The events queued are those of the tasks that ran and are kept, then one deletion event for each
  container removed, in list order.
\<close>

theorem scheduler_pass:
  assumes "call_quiet call" and "\<not> sc_stuck s"
    and "length (sc_event_queue s) + 2 * length (sc_task_list s) \<le> EVENT_QUEUE_LEN"
  shows "\<exists>s'. task_thread_loop (\<lambda>_. now) call False s = Some (False, s') \<and> \<not> sc_stuck s' \<and>
     sc_task_list s' = filter (\<lambda>tp. tc_destroyed tp = 0 \<or> tc_in_thread tp) (map (task_pass now call) (sc_task_list s)) \<and>
     sc_calls s' = sc_calls s @ map (call_entry now) (filter (inline_due now) (sc_task_list s)) \<and>
     sc_event_queue s' = sc_event_queue s @ concat (map (pass_events now call) (sc_task_list s)) @
       map (task_event SWITCH_EVENT_DEL_SCHEDULE)
         (filter (\<lambda>tp. tc_destroyed tp \<noteq> 0 \<and> \<not> tc_in_thread tp) (map (task_pass now call) (sc_task_list s)))"
proof -
  have "room (length (sc_task_list s)) s" using assms(2,3) by (simp add: room_def)
  then obtain s1 where s1: "scan_from (\<lambda>_. now) call False 0 s = Some s1" "\<not> sc_stuck s1"
      "sc_task_list s1 = map (task_pass now call) (sc_task_list s)"
      "sc_calls s1 = sc_calls s @ map (call_entry now) (filter (inline_due now) (sc_task_list s))"
      "sc_event_queue s1 = sc_event_queue s @ concat (map (pass_events now call) (sc_task_list s))"
    using scan_from_quiet [OF assms(1)] by blast
  have "length (concat (map (pass_events now call) tps)) \<le> length tps" for tps
    by (induction tps) (simp_all add: pass_events_def)
  from this [of "sc_task_list s"] length_filter_le [of dead "sc_task_list s1"]
  have "length (sc_event_queue s1) + length (filter dead (sc_task_list s1)) \<le> EVENT_QUEUE_LEN"
    unfolding s1(3,5) length_append length_map using assms(3) by linarith
  from sweep_room [OF s1(2) this, of "[]"] s1 show ?thesis
    by (simp add: task_thread_loop_def dead_def [abs_def])
qed

theorem scheduler_pass_witness:
  "\<exists>s'. task_thread_loop (\<lambda>_. 100) demo_call False demo_sched = Some (False, s') \<and>
     sc_task_list s' = [] \<and> length (sc_calls s') = 1"
proof -
  obtain s' where s': "task_thread_loop (\<lambda>_. 100) demo_call False demo_sched = Some (False, s')"
      "sc_task_list s' = filter (\<lambda>tp. tc_destroyed tp = 0 \<or> tc_in_thread tp) (map (task_pass 100 demo_call) (sc_task_list demo_sched))"
      "sc_calls s' = sc_calls demo_sched @ map (call_entry 100) (filter (inline_due 100) (sc_task_list demo_sched))"
    using scheduler_pass [OF demo_call_ok(2), of demo_sched 100] demo_room(2) unfolding room_def by blast
  have "sc_task_list s' = [] \<and> length (sc_calls s') = 1"
    unfolding s'(2,3)
    by (simp add: demo_sched_def switch_scheduler_task_thread_start_def switch_scheduler_add_task_def
        switch_epoch_time_now_def Let_def task_pass_def inline_due_def tc_flag_def SSHF_NO_DEL_def
        SSHF_OWN_THREAD_def next_task_def demo_call_def)
  with s'(1) show ?thesis by blast
qed

text \<open>
  C26. A pass with room in the event queue for two events per task returns whenever no task is added while a task
  function runs, whatever the functions do otherwise and however the clock moves; so does the final pass of the thread.
  Without room the final pass is stuck as soon as it finds a container to remove.
\<close>

theorem scheduler_pass_returns:
  assumes "\<not> sc_stuck s"
  shows "((call_adds_nothing call \<or> finish) \<and> length (sc_event_queue s) + 2 * length (sc_task_list s) \<le> EVENT_QUEUE_LEN \<longrightarrow>
      (\<exists>s'. task_thread_loop clk call finish s = Some (finish, s') \<and> \<not> sc_stuck s')) \<and>
    (EVENT_QUEUE_LEN \<le> length (sc_event_queue s) \<and> (\<exists>tp \<in> set (sc_task_list s). \<not> tc_in_thread tp) \<longrightarrow>
      (\<exists>s'. task_thread_loop clk call True s = Some (True, s') \<and> sc_stuck s'))"
proof (intro conjI impI; elim conjE)
  assume a: "call_adds_nothing call \<or> finish" "length (sc_event_queue s) + 2 * length (sc_task_list s) \<le> EVENT_QUEUE_LEN"
  have "room (length (sc_task_list s) + (length (sc_task_list s) - 0)) s" using assms a(2) by (simp add: room_def)
  from scan_from_returns [OF a(1) this] obtain s1 where s1: "scan_from clk call finish 0 s = Some s1"
      "length (sc_task_list s1) = length (sc_task_list s)" "room (length (sc_task_list s)) s1" by blast
  then have "\<not> sc_stuck s1" "length (sc_event_queue s1) + length (filter dead (sc_task_list s1)) \<le> EVENT_QUEUE_LEN"
    using length_filter_le [of dead "sc_task_list s1"] by (auto simp: room_def)
  from sweep_room [OF this, of "[]"] s1(1) this(1) show "\<exists>s'. task_thread_loop clk call finish s = Some (finish, s') \<and> \<not> sc_stuck s'"
    by (simp add: task_thread_loop_def)
next
  assume full: "EVENT_QUEUE_LEN \<le> length (sc_event_queue s)" and live: "\<exists>tp \<in> set (sc_task_list s). \<not> tc_in_thread tp"
  obtain s1 where s1: "scan_from clk call True 0 s = Some s1" "\<not> sc_stuck s1"
      "sc_task_list s1 = map (\<lambda>tp. tp\<lparr>tc_destroyed := 1\<rparr>) (sc_task_list s)" "sc_event_queue s1 = sc_event_queue s"
    using scan_from_final [OF assms, of clk call 0] by auto
  have "\<exists>tp \<in> set (sc_task_list s1). dead tp" using live by (auto simp: s1(3) dead_def)
  from sweep_stuck [OF _ this, of s1 "[]"] full s1 show "\<exists>s'. task_thread_loop clk call True s = Some (True, s') \<and> sc_stuck s'"
    by (simp add: task_thread_loop_def)
qed

theorem scheduler_pass_returns_witness:
  "\<exists>s'. task_thread_loop (\<lambda>n. int n) demo_call False demo_sched = Some (False, s') \<and> \<not> sc_stuck s'"
  using scheduler_pass_returns [of demo_sched demo_call False "\<lambda>n. int n"] demo_call_ok(3) demo_room(2)
  unfolding room_def by blast

text \<open>
  The final pass of a stopping scheduler, with room in the queue, calls no task function and leaves in the list exactly
  the containers whose own thread is still running, each marked for deletion.
\<close>

lemma scheduler_final_pass:
  assumes "room (length (sc_task_list s)) s"
  shows "\<exists>s'. task_thread_loop clk call True s = Some (True, s') \<and> sc_calls s' = sc_calls s \<and>
     sc_task_list s' = map (\<lambda>tp. tp\<lparr>tc_destroyed := 1\<rparr>) (filter tc_in_thread (sc_task_list s))"
proof -
  have "\<not> sc_stuck s" using assms by (simp add: room_def)
  from scan_from_final [OF this, of clk call 0] obtain s1 where s1: "scan_from clk call True 0 s = Some s1" "\<not> sc_stuck s1"
      "sc_task_list s1 = map (\<lambda>tp. tp\<lparr>tc_destroyed := 1\<rparr>) (sc_task_list s)" "sc_calls s1 = sc_calls s"
      "sc_event_queue s1 = sc_event_queue s" by auto
  have "length (sc_event_queue s1) + length (filter dead (sc_task_list s1)) \<le> EVENT_QUEUE_LEN"
    using assms length_filter_le [of dead "sc_task_list s1"] s1(5) arg_cong [OF s1(3), of length] by (simp add: room_def)
  from sweep_room [OF s1(2) this, of "[]"] s1 show ?thesis
    by (simp add: task_thread_loop_def filter_map comp_def dead_def [abs_def])
qed

definition deletable :: "string \<Rightarrow> task_container \<Rightarrow> bool" where
  "deletable g tp \<longleftrightarrow> tc_destroyed tp = 0 \<and> t_group (tc_task tp) = g \<and> \<not> tc_flag tp SSHF_NO_DEL"

lemma del_group_walk_eq:
  assumes "\<forall>tp \<in> set tps. tp_hashed tp"
  shows "del_group_walk (switch_ci_hashfunc_default g) g tps =
     (of_nat (length (filter (deletable g) tps)), map (\<lambda>tp. if deletable g tp then tp\<lparr>tc_destroyed := 1\<rparr> else tp) tps)"
  using assms by (induction tps) (auto simp: deletable_def tp_hashed_def)

text \<open>
  Deleting a group, in any reachable state: the tasks of exactly that group (names compared
  with case) that are live and may be deleted are marked, all others are left alone, and the result
  is their number.
\<close>

theorem scheduler_del_group:
  assumes "sched_reach clk call s" and "call_keeps_identity call" and "g \<noteq> []"
  shows "switch_scheduler_del_task_group (Some g) s =
     (of_nat (length (filter (deletable g) (sc_task_list s))),
      s\<lparr>sc_task_list := map (\<lambda>tp. if deletable g tp then tp\<lparr>tc_destroyed := 1\<rparr> else tp) (sc_task_list s)\<rparr>)"
  using del_group_walk_eq sched_reach_inv [OF assms(1,2)] assms(3)
  by (simp add: switch_scheduler_del_task_group_def sched_inv_def tp_ok_def)

theorem scheduler_del_group_witness: "fst (switch_scheduler_del_task_group (Some ''g'') demo_sched) = 0"
proof -
  have "sched_reach (\<lambda>_. 100) demo_call demo_sched"
    unfolding demo_sched_def by (intro sched_reach.intros)
  from scheduler_del_group [OF this demo_call_ok(1), of "''g''"] show ?thesis
    by (simp add: demo_sched_def switch_scheduler_task_thread_start_def switch_scheduler_add_task_def
        switch_epoch_time_now_def Let_def deletable_def tc_flag_def SSHF_NO_DEL_def)
qed

section \<open>A pass that does not end\<close>

text \<open>
  A task function that schedules a new task for the current time each time it runs keeps the pass
  going within one tick of the clock: the loop walks on to the container it has just appended.
\<close>

definition respawn :: "int \<Rightarrow> task_call" where
  "respawn now f t = (t, [Sched_Add now f None None 0 None 0])"

definition due_tail :: "int \<Rightarrow> nat \<Rightarrow> sched \<Rightarrow> bool" where
  "due_tail now i s \<longleftrightarrow> \<not> sc_stuck s \<and> i < length (sc_task_list s) \<and> inline_due now (last (sc_task_list s))"

lemma respawn_execute:
  assumes "i < length (sc_task_list s)"
  shows "\<exists>xs new. sc_task_list (switch_scheduler_execute own_push (\<lambda>_. now) (respawn now) i s) = xs @ [new] \<and>
     length xs = length (sc_task_list s) \<and> inline_due now new"
  using assms
  by (auto simp: switch_scheduler_execute_def respawn_def switch_scheduler_add_task_def switch_epoch_time_now_def
      Let_def inline_due_def tc_flag_def list_update_append nth_append)

lemma respawn_scan:
  assumes "due_tail now i s"
  shows "sc_stuck (scan_task (\<lambda>_. now) (respawn now) False i s) \<or>
     due_tail now (Suc i) (scan_task (\<lambda>_. now) (respawn now) False i s)"
proof -
  let ?tp = "sc_task_list s ! i"
  have i: "i < length (sc_task_list s)" using assms by (simp add: due_tail_def)
  let ?s = "set_task i (?tp\<lparr>tc_executed := now, tc_running := True\<rparr>) (s\<lparr>sc_ticks := Suc (sc_ticks s)\<rparr>)"
  obtain xs new where ex: "sc_task_list (switch_scheduler_execute own_push (\<lambda>_. now) (respawn now) i ?s) = xs @ [new]"
      "length xs = length (sc_task_list s)" "inline_due now new"
    using respawn_execute [of i ?s now] i by auto
  show ?thesis
  proof (cases "inline_due now ?tp")
    case True
    then show ?thesis using ex i
      by (simp add: scan_task_def Let_def switch_epoch_time_now_def inline_due_def due_tail_def list_update_append)
  next
    case False
    have nn: "sc_task_list s \<noteq> []" using i by auto
    with False have ne: "i \<noteq> length (sc_task_list s) - 1" using assms by (auto simp: due_tail_def last_conv_nth)
    then have "Suc i < length (sc_task_list s)" using i by simp
    moreover have "last ((sc_task_list s)[i := tp]) = last (sc_task_list s)" for tp
      using ne i nn by (simp add: last_list_update)
    ultimately show ?thesis using assms False
      by (auto simp: scan_task_def Let_def switch_epoch_time_now_def inline_due_def due_tail_def)
  qed
qed

lemma respawn_never_returns:
  assumes "scan_from clk call fin i s = Some r"
  shows "clk = (\<lambda>_. now) \<longrightarrow> call = respawn now \<longrightarrow> \<not> fin \<longrightarrow> sc_stuck s \<or> due_tail now i s \<longrightarrow> sc_stuck r"
proof (rule scan_from.raw_induct [OF _ assms], intro impI)
  fix rec clk call fin i s r
  assume IH: "\<And>clk call fin i s r. rec clk call fin i s = Some r \<Longrightarrow> clk = (\<lambda>_. now) \<longrightarrow> call = respawn now \<longrightarrow>
      \<not> fin \<longrightarrow> sc_stuck s \<or> due_tail now i s \<longrightarrow> sc_stuck r"
    and step: "(if i < length (sc_task_list s) \<and> \<not> sc_stuck s then rec clk call fin (Suc i) (scan_task clk call fin i s) else Some s) = Some r"
    and eqs: "clk = (\<lambda>_. now)" "call = respawn now" "\<not> fin" and due: "sc_stuck s \<or> due_tail now i s"
  show "sc_stuck r"
  proof (cases "sc_stuck s")
    case False
    then have d: "due_tail now i s" using due by simp
    then have "rec clk call fin (Suc i) (scan_task clk call fin i s) = Some r" using step False by (simp add: due_tail_def)
    from IH [OF this] respawn_scan [OF d] eqs show ?thesis by auto
  qed (use step in simp)
qed

lemma scheduler_pass_may_diverge:
  assumes "due_tail now 0 s"
  shows "\<nexists>s'. task_thread_loop (\<lambda>_. now) (respawn now) False s = Some (False, s') \<and> \<not> sc_stuck s'"
proof (cases "scan_from (\<lambda>_. now) (respawn now) False 0 s")
  case (Some s1)
  then have "sc_stuck s1" using respawn_never_returns assms by blast
  with Some show ?thesis by (simp add: task_thread_loop_def)
qed (simp add: task_thread_loop_def)

end
