(* ===== verification/FS_Text.thy ===== *)
theory FS_Text
  imports FS_Chars
begin

text \<open>
  Small functions on text of \<^verbatim>\<open>src/src/include/switch_utils.h\<close> and
  \<^verbatim>\<open>src/src/lib/libfreeswitch/switch_utils.c\<close>: DTMF characters and RFC 2833 event codes, predicates on
  numbers and truth values, stripping and cleaning of strings, the search for variables, and the
  splitting of user and domain. A string is the list of its characters; a loop whose guard is
  \<open>p && *p\<close> does nothing on NULL, and its model takes the string itself.
\<close>

section \<open>DTMF\<close>

definition RFC2833_CHARS :: string where
  "RFC2833_CHARS = ''0123456789*#ABCDF''"

text \<open>\<open>sizeof(RFC2833_CHARS)\<close> counts the terminating NUL.\<close>

definition switch_rfc2833_to_char :: "int \<Rightarrow> char" where
  "switch_rfc2833_to_char event =
     (if event > -1 \<and> event < int (length RFC2833_CHARS) + 1
      then (RFC2833_CHARS @ [chr 0]) ! nat event else chr 0)"

fun rfc2833_find :: "string \<Rightarrow> char \<Rightarrow> u8 \<Rightarrow> u8" where
  "rfc2833_find [] key counter = 0"
| "rfc2833_find (c # cs) key counter = (if c = key then counter else rfc2833_find cs key (counter + 1))"

definition switch_char_to_rfc2833 :: "char \<Rightarrow> u8" where
  "switch_char_to_rfc2833 key = rfc2833_find RFC2833_CHARS (toupper_char key) 0"

definition is_dtmf :: "char \<Rightarrow> bool" where
  "is_dtmf key \<longleftrightarrow> (let k = code key in (k > 47 \<and> k < 58) \<or> (k > 64 \<and> k < 69) \<or> (k > 96 \<and> k < 101) \<or>
     k = 35 \<or> k = 42 \<or> k = 87 \<or> k = 119 \<or> k = 70 \<or> k = 102)"

definition switch_itodtmf :: "int \<Rightarrow> char" where
  "switch_itodtmf i = (if i > 9 \<and> i < 14 then chr (nat ((i + 55) mod 256)) else chr (nat ((i + 48) mod 256)))"

definition switch_dtmftoi :: "string \<Rightarrow> int" where
  "switch_dtmftoi s =
     (let r = atoi s in
      if r = 0 then (let l = (case s of [] \<Rightarrow> 0 | c # _ \<Rightarrow> code (ascii_lower c)) in if l > 96 \<and> l < 101 then int l - 87 else r)
      else r)"

section \<open>Numbers and truth values\<close>

fun switch_is_digit_string :: "string \<Rightarrow> bool" where
  "switch_is_digit_string [] = True"
| "switch_is_digit_string (c # cs) = (if code c < 48 \<or> code c > 57 then False else switch_is_digit_string cs)"

fun number_chars :: "string \<Rightarrow> bool" where
  "number_chars [] = True"
| "number_chars (c # cs) = (if \<not> (c = CHR ''.'' \<or> (code c > 47 \<and> code c < 58)) then False else number_chars cs)"

definition switch_is_number :: "string \<Rightarrow> bool" where
  "switch_is_number str =
     (case str of [] \<Rightarrow> number_chars []
      | c # t \<Rightarrow> number_chars (if c = CHR ''-'' \<or> c = CHR ''+'' then t else str))"

definition switch_true :: "string option \<Rightarrow> bool" where
  "switch_true expr = (case expr of None \<Rightarrow> False | Some e \<Rightarrow>
     strcasecmp_eq e ''yes'' \<or> strcasecmp_eq e ''on'' \<or> strcasecmp_eq e ''true'' \<or> strcasecmp_eq e ''t'' \<or>
     strcasecmp_eq e ''enabled'' \<or> strcasecmp_eq e ''active'' \<or> strcasecmp_eq e ''allow'' \<or>
     (switch_is_number e \<and> atoi e \<noteq> 0))"

definition switch_false :: "string option \<Rightarrow> bool" where
  "switch_false expr = (case expr of None \<Rightarrow> False | Some e \<Rightarrow>
     strcasecmp_eq e ''no'' \<or> strcasecmp_eq e ''off'' \<or> strcasecmp_eq e ''false'' \<or> strcasecmp_eq e ''f'' \<or>
     strcasecmp_eq e ''disabled'' \<or> strcasecmp_eq e ''inactive'' \<or> strcasecmp_eq e ''disallow'' \<or>
     (switch_is_number e \<and> atoi e = 0))"

definition switch_safe_atoi :: "string option \<Rightarrow> int \<Rightarrow> int" where
  "switch_safe_atoi nptr dft = (case nptr of None \<Rightarrow> dft | Some s \<Rightarrow> atoi s)"

definition switch_atoui :: "string \<Rightarrow> u32" where
  "switch_atoui nptr = (let tmp = atoi nptr in if tmp < 0 then 0 else of_int tmp)"

definition switch_atoul :: "string \<Rightarrow> u64" where
  "switch_atoul nptr = (let tmp = atol nptr in if tmp < 0 then 0 else of_int tmp)"

definition switch_known_bitrate :: "nat \<Rightarrow> u32" where
  "switch_known_bitrate payload =
     (if payload = 0 then 64000 else if payload = 3 then 13200 else if payload = 4 then 6300
      else if payload = 7 then 2400 else if payload = 8 then 64000 else if payload = 9 then 64000
      else if payload = 18 then 8000 else 0)"

definition switch_is_valid_rate :: "int \<Rightarrow> bool" where
  "switch_is_valid_rate r \<longleftrightarrow> r = 8000 \<or> r = 12000 \<or> r = 16000 \<or> r = 24000 \<or> r = 32000 \<or> r = 11025 \<or> r = 22050 \<or>
     r = 44100 \<or> r = 48000"

definition switch_normalize_to_16bit :: "int \<Rightarrow> int" where
  "switch_normalize_to_16bit n = (if n > 32767 then 32767 else if n < -32768 then -32768 else n)"

definition switch_priority_name :: "nat \<Rightarrow> string" where
  "switch_priority_name priority =
     (if priority = 0 then ''NORMAL'' else if priority = 1 then ''LOW'' else if priority = 2 then ''HIGH'' else ''INVALID'')"

definition zstr :: "string option \<Rightarrow> bool" where
  "zstr s \<longleftrightarrow> s = None \<or> s = Some []"

definition switch_is_moh :: "string option \<Rightarrow> bool" where
  "switch_is_moh s = (case s of None \<Rightarrow> False | Some t \<Rightarrow>
     \<not> (t = [] \<or> strcasecmp_eq t ''silence'' \<or> strcasecmp_eq t ''indicate_hold''))"

definition switch_is_lan_addr :: "string option \<Rightarrow> bool" where
  "switch_is_lan_addr ip = (case ip of None \<Rightarrow> False | Some s \<Rightarrow>
     s \<noteq> [] \<and>
     (strncmp_eq s ''10.'' 3 \<or> strncmp_eq s ''192.168.'' 8 \<or> strncmp_eq s ''127.'' 4 \<or> strncmp_eq s ''255.'' 4 \<or>
      strncmp_eq s ''0.'' 2 \<or> strncmp_eq s ''1.'' 2 \<or> strncmp_eq s ''2.'' 2 \<or> strncmp_eq s ''172.16.'' 7 \<or>
      strncmp_eq s ''172.17.'' 7 \<or> strncmp_eq s ''172.18.'' 7 \<or> strncmp_eq s ''172.19.'' 7 \<or>
      strncmp_eq s ''172.20.'' 7 \<or> strncmp_eq s ''172.21.'' 7 \<or> strncmp_eq s ''172.22.'' 7 \<or>
      strncmp_eq s ''172.23.'' 7 \<or> strncmp_eq s ''172.24.'' 7 \<or> strncmp_eq s ''172.25.'' 7 \<or>
      strncmp_eq s ''172.26.'' 7 \<or> strncmp_eq s ''172.27.'' 7 \<or> strncmp_eq s ''172.28.'' 7 \<or>
      strncmp_eq s ''172.29.'' 7 \<or> strncmp_eq s ''172.30.'' 7 \<or> strncmp_eq s ''172.31.'' 7 \<or>
      strncmp_eq s ''192.0.2.'' 8 \<or> strncmp_eq s ''169.254.'' 8))"

definition switch_strcasecmp_any :: "string \<Rightarrow> string list \<Rightarrow> bool" where
  "switch_strcasecmp_any str strs = list_ex (strcasecmp_eq str) strs"

text \<open>The result of \<open>switch_mprintf\<close> is the formatted string; the number is formatted without its \<open>+\<close>, but copied with it.\<close>

definition switch_format_number :: "string option \<Rightarrow> string option" where
  "switch_format_number num = (case num of None \<Rightarrow> None | Some s \<Rightarrow>
     if s = [] then Some []
     else
       let p = (if hd s = CHR ''+'' then tl s else s)
       in if \<not> switch_is_number p then Some p
          else if length p = 11 \<and> p ! 0 = CHR ''1'' then
            Some ([p ! 0] @ '' ('' @ take 3 (drop 1 p) @ '') '' @ take 3 (drop 4 p) @ ''-'' @ take 4 (drop 7 p))
          else if length p = 10 then
            Some (''1 ('' @ take 3 p @ '') '' @ take 3 (drop 3 p) @ ''-'' @ take 4 (drop 6 p))
          else Some s)"

section \<open>Stripping and cleaning\<close>

definition strip_white :: "char \<Rightarrow> bool" where
  "strip_white c \<longleftrightarrow> code c = 13 \<or> code c = 10 \<or> code c = 9 \<or> code c = 32 \<or> code c = 11"

text \<open>The trailing loop runs from the end down to the first character; \<open>strip_tail\<close> is what it leaves.\<close>

definition strip_tail :: "(char \<Rightarrow> bool) \<Rightarrow> string \<Rightarrow> string" where
  "strip_tail P s = rev (dropWhile P (rev s))"

definition switch_strip_whitespace :: "string option \<Rightarrow> string" where
  "switch_strip_whitespace str = (case str of None \<Rightarrow> [] | Some t \<Rightarrow>
     if t = [] then []
     else let sp = dropWhile strip_white t in if sp = [] then [] else strip_tail strip_white sp)"

text \<open>Without \<open>dup\<close> the same characters are the result, cut out of the argument in place.\<close>

definition switch_strip_spaces :: "string option \<Rightarrow> bool \<Rightarrow> string option" where
  "switch_strip_spaces str dup = (case str of
       None \<Rightarrow> if dup then Some [] else None
     | Some t \<Rightarrow>
         if t = [] then Some []
         else let s = dropWhile (\<lambda>c. c = CHR '' '') t in if s = [] then Some s else Some (strip_tail (\<lambda>c. c = CHR '' '') s))"

text \<open>
  The two digit filters write to the buffer \<open>out\<close> without a terminating NUL; \<open>x\<close> counts the characters
  read. The result is whether the returned pointer is \<open>out\<close>, and the buffer.
\<close>

fun strip_commas_loop :: "string \<Rightarrow> nat \<Rightarrow> nat \<Rightarrow> nat \<Rightarrow> string \<Rightarrow> (bool \<times> string) c" where
  "strip_commas_loop [] q x len out = Inr (True, out)"
| "strip_commas_loop (c # cs) q x len out =
     (if code c > 47 \<and> code c < 58 then
        bindE (mem_write out q [c]) (\<lambda>out.
          if x + 1 > len then Inr (False, out) else strip_commas_loop cs (q + 1) (x + 1) len out)
      else if c \<noteq> CHR '','' then Inr (False, out)
      else if x + 1 > len then Inr (False, out)
      else strip_commas_loop cs q (x + 1) len out)"

definition switch_strip_commas :: "string \<Rightarrow> string \<Rightarrow> nat \<Rightarrow> (bool \<times> string) c" where
  "switch_strip_commas inp out len = strip_commas_loop inp 0 0 len out"

definition numeric_char :: "char \<Rightarrow> bool" where
  "numeric_char c \<longleftrightarrow> (code c > 47 \<and> code c < 58) \<or> c = CHR ''.'' \<or> c = CHR ''-'' \<or> c = CHR ''+''"

fun strip_nonnumerics_loop :: "string \<Rightarrow> nat \<Rightarrow> nat \<Rightarrow> nat \<Rightarrow> string \<Rightarrow> (bool \<times> string) c" where
  "strip_nonnumerics_loop [] q x len out = Inr (True, out)"
| "strip_nonnumerics_loop (c # cs) q x len out =
     (if numeric_char c then
        bindE (mem_write out q [c]) (\<lambda>out.
          if x + 1 > len then Inr (False, out) else strip_nonnumerics_loop cs (q + 1) (x + 1) len out)
      else if x + 1 > len then Inr (False, out)
      else strip_nonnumerics_loop cs q (x + 1) len out)"

definition switch_strip_nonnumerics :: "string \<Rightarrow> string \<Rightarrow> nat \<Rightarrow> (bool \<times> string) c" where
  "switch_strip_nonnumerics inp out len = strip_nonnumerics_loop inp 0 0 len out"

text \<open>The returned pointer is at the end of the converted string; the model returns the string.\<close>

definition switch_replace_char :: "string \<Rightarrow> char \<Rightarrow> char \<Rightarrow> string" where
  "switch_replace_char str from to = map (\<lambda>p. if p = from then to else p) str"

definition switch_clean_string :: "string \<Rightarrow> string" where
  "switch_clean_string s = map (\<lambda>p. if code p < 32 \<and> code p \<noteq> 10 \<and> code p \<noteq> 13 then CHR '' '' else p) s"

definition clean_name_char :: "char \<Rightarrow> char" where
  "clean_name_char p =
     (if code p < 32 \<or> code p = 39 \<or> code p = 34 \<or> code p = 60 \<or> code p = 62 \<or> code p = 92 \<or> code p = 58 \<or>
         code p = 64 \<or> code p = 47
      then CHR '' '' else p)"

text \<open>While nothing is kept yet (\<open>p == s\<close>) a blank moves the start of the string.\<close>

fun clean_name_loop :: "bool \<Rightarrow> string \<Rightarrow> string" where
  "clean_name_loop at_start [] = []"
| "clean_name_loop at_start (p # ps) =
     (let p' = clean_name_char p in
      if at_start \<and> p' = CHR '' '' then clean_name_loop True ps else p' # clean_name_loop False ps)"

definition switch_clean_name_string :: "string \<Rightarrow> string" where
  "switch_clean_name_string s = clean_name_loop True s"

definition switch_lc_strdup :: "string option \<Rightarrow> string option" where
  "switch_lc_strdup it = map_option (map tolower_char) it"

definition switch_uc_strdup :: "string option \<Rightarrow> string option" where
  "switch_uc_strdup it = map_option (map toupper_char) it"

definition switch_strstr :: "string option \<Rightarrow> string option \<Rightarrow> bool" where
  "switch_strstr s q = (case (s, q) of
       (Some s, Some q) \<Rightarrow>
         if strstr s q \<noteq> None then True
         else let S = map toupper_char s in
              if strstr S q \<noteq> None then True
              else let Q = map toupper_char q in
                   if strstr s Q \<noteq> None then True else strstr S Q \<noteq> None
     | _ \<Rightarrow> False)"

section \<open>Variables in a string\<close>

text \<open>\<open>dol\<close> is the position of the last dollar sign that only backslashes follow so far.\<close>

fun var_check_loop :: "bool \<Rightarrow> string \<Rightarrow> nat \<Rightarrow> nat option \<Rightarrow> string \<Rightarrow> bool \<times> string" where
  "var_check_loop disable [] i dol s = (False, s)"
| "var_check_loop disable (p # ps) i dol s =
     (if p = CHR ''$'' then var_check_loop disable ps (Suc i) (Some i) s
      else case dol of
        None \<Rightarrow> var_check_loop disable ps (Suc i) None s
      | Some d \<Rightarrow>
          if p = CHR ''{'' then
            if disable then var_check_loop disable ps (Suc i) None (s[d := CHR ''%'']) else (True, s)
          else if p \<noteq> CHR 0x5C then var_check_loop disable ps (Suc i) None s
          else var_check_loop disable ps (Suc i) dol s)"

definition switch_string_var_check :: "string \<Rightarrow> bool \<Rightarrow> bool \<times> string" where
  "switch_string_var_check s disable = var_check_loop disable s 0 None s"

fun var_check_const_loop :: "string \<Rightarrow> bool \<Rightarrow> bool" where
  "var_check_const_loop [] dol = False"
| "var_check_const_loop (p # ps) dol =
     (if p = CHR ''$'' then var_check_const_loop ps True
      else if dol then
        if p = CHR ''{'' then True
        else if p \<noteq> CHR 0x5C then var_check_const_loop ps False
        else var_check_const_loop ps dol
      else var_check_const_loop ps dol)"

definition switch_string_var_check_const :: "string \<Rightarrow> bool" where
  "switch_string_var_check_const s = var_check_const_loop s False"

definition switch_var_clean_string :: "string \<Rightarrow> string" where
  "switch_var_clean_string s = snd (switch_string_var_check s True)"

text \<open>\<open>while (i && *i == '\\')\<close>, where \<open>i\<close> is the next backslash.\<close>

fun has_escaped_loop :: "string \<Rightarrow> bool" where
  "has_escaped_loop [] = False"
| "has_escaped_loop (c # t) =
     (if c = CHR 0x5C then
        if t \<noteq> [] \<and> (hd t = CHR 0x5C \<or> hd t = CHR ''n'' \<or> hd t = CHR ''s'' \<or> hd t = CHR ''t'' \<or> hd t = CHR 0x27)
        then True else has_escaped_loop t
      else has_escaped_loop t)"

definition switch_string_has_escaped_data :: "string \<Rightarrow> bool" where
  "switch_string_has_escaped_data s = has_escaped_loop s"

section \<open>Properties\<close>

definition rfc2833_code :: "char \<Rightarrow> int" where
  "rfc2833_code c = uint (rfc2833_find RFC2833_CHARS (ascii_upper c) 0)"

definition dtmf_back :: "int \<Rightarrow> int" where
  "dtmf_back i = switch_dtmftoi [switch_itodtmf i]"

lemma rfc2833_code: "uint (switch_char_to_rfc2833 c) = rfc2833_code c"
  by (simp add: rfc2833_code_def switch_char_to_rfc2833_def toupper_char_eq)

lemma dtmf_tables:
  "map rfc2833_code RFC2833_CHARS = [0..16]" "map switch_rfc2833_to_char [0..16] = RFC2833_CHARS"
  "map dtmf_back [0..13] = [0..13]"
  by code_simp+

text \<open>
  The RFC 2833 event code of every character of the DTMF alphabet leads back to the character, and
  the code of every event of the alphabet leads back to the event; a DTMF digit as a number likewise.
\<close>

theorem dtmf_codes_roundtrip:
  "(\<forall>c \<in> set RFC2833_CHARS. switch_rfc2833_to_char (uint (switch_char_to_rfc2833 c)) = c) \<and>
   (\<forall>e \<in> {0..16}. uint (switch_char_to_rfc2833 (switch_rfc2833_to_char e)) = e) \<and>
   (\<forall>i \<in> {0..13}. switch_dtmftoi [switch_itodtmf i] = i)"
proof -
  have "map rfc2833_code (map switch_rfc2833_to_char [0..16]) = [0..16]"
    "map switch_rfc2833_to_char (map rfc2833_code RFC2833_CHARS) = RFC2833_CHARS"
    by (simp_all only: dtmf_tables)
  then have "\<forall>e \<in> set [0..16]. rfc2833_code (switch_rfc2833_to_char e) = e"
    "\<forall>c \<in> set RFC2833_CHARS. switch_rfc2833_to_char (rfc2833_code c) = c"
    by (simp_all only: map_map comp_def map_idI map_eq_conv [where g="\<lambda>x. x", unfolded list.map_ident])
  moreover have "\<forall>i \<in> set [0..13]. dtmf_back i = i"
    using dtmf_tables(3) by (simp only: map_eq_conv [where g="\<lambda>x. x", unfolded list.map_ident])
  ultimately show ?thesis by (simp add: rfc2833_code dtmf_back_def)
qed

theorem dtmf_codes_roundtrip_witness: "switch_rfc2833_to_char (uint (switch_char_to_rfc2833 CHR ''#'')) = CHR ''#''"
  using dtmf_codes_roundtrip by (simp add: RFC2833_CHARS_def)

text \<open>A key outside the alphabet is given the code of the digit 0.\<close>

lemma rfc2833_invalid: "toupper_char key \<notin> set RFC2833_CHARS \<Longrightarrow> switch_char_to_rfc2833 key = switch_char_to_rfc2833 CHR ''0''"
proof -
  have "key' \<notin> set cs \<Longrightarrow> rfc2833_find cs key' n = 0" for key' cs n by (induction cs arbitrary: n) auto
  moreover have "rfc2833_find RFC2833_CHARS (toupper_char CHR ''0'') 0 = 0"
    unfolding toupper_char_eq by code_simp
  ultimately show "toupper_char key \<notin> set RFC2833_CHARS \<Longrightarrow> switch_char_to_rfc2833 key = switch_char_to_rfc2833 CHR ''0''"
    by (simp add: switch_char_to_rfc2833_def)
qed

text \<open>The scan for variables as a fold: \<open>None\<close> once a variable has been found.\<close>

definition var_step :: "bool option \<Rightarrow> char \<Rightarrow> bool option" where
  "var_step st p = (case st of None \<Rightarrow> None | Some dol \<Rightarrow>
     if p = CHR ''$'' then Some True
     else if dol then (if p = CHR ''{'' then None else Some (p = CHR 0x5C)) else Some False)"

lemma foldl_var_step_None [simp]: "foldl var_step None s = None"
  by (induction s) (simp_all add: var_step_def)

lemma var_check_const_fold: "var_check_const_loop s dol \<longleftrightarrow> foldl var_step (Some dol) s = None"
  by (induction s arbitrary: dol) (simp_all add: var_step_def)

lemma var_step_backslashes: "foldl var_step (Some f) (replicate k CHR 0x5C) = Some f"
  by (induction k arbitrary: f) (simp_all add: var_step_def)

definition var_inv :: "string \<Rightarrow> nat option \<Rightarrow> bool" where
  "var_inv pre dol \<longleftrightarrow> foldl var_step (Some False) pre = Some (dol \<noteq> None) \<and>
     (case dol of None \<Rightarrow> True | Some d \<Rightarrow> \<exists>a k. pre = a @ CHR ''$'' # replicate k CHR 0x5C \<and> length a = d)"

lemma var_inv_disable:
  assumes "var_inv pre (Some d)"
  shows "d < length pre" "var_inv (pre[d := CHR ''%''] @ [CHR ''{'']) None"
proof -
  obtain a k where a: "pre = a @ CHR ''$'' # replicate k CHR 0x5C" "length a = d"
    using assms by (auto simp: var_inv_def)
  then show "d < length pre" by simp
  obtain f where "foldl var_step (Some False) a = Some f"
    using assms a(1) by (cases "foldl var_step (Some False) a") (simp_all add: var_inv_def var_step_def)
  moreover have "pre[d := CHR ''%''] = a @ CHR ''%'' # replicate k CHR 0x5C" using a by auto
  moreover have "var_step (Some f) CHR ''%'' = Some False" "var_step (Some False) CHR ''{'' = Some False" for f
    by (simp_all add: var_step_def)
  ultimately show "var_inv (pre[d := CHR ''%''] @ [CHR ''{'']) None"
    by (simp add: var_inv_def var_step_backslashes)
qed

lemma var_inv_snoc:
  assumes "var_inv pre dol"
  shows "p = CHR ''$'' \<Longrightarrow> var_inv (pre @ [p]) (Some (length pre))"
    and "p \<noteq> CHR ''$'' \<Longrightarrow> dol = None \<Longrightarrow> var_inv (pre @ [p]) None"
    and "p \<noteq> CHR ''$'' \<Longrightarrow> p \<noteq> CHR ''{'' \<Longrightarrow> p \<noteq> CHR 0x5C \<Longrightarrow> var_inv (pre @ [p]) None"
    and "p = CHR 0x5C \<Longrightarrow> dol = Some d \<Longrightarrow> var_inv (pre @ [p]) dol"
proof -
  show "p = CHR ''$'' \<Longrightarrow> var_inv (pre @ [p]) (Some (length pre))"
    using assms by (auto simp: var_inv_def var_step_def intro!: exI [of _ "0::nat"])
  show "p \<noteq> CHR ''$'' \<Longrightarrow> dol = None \<Longrightarrow> var_inv (pre @ [p]) None"
    "p \<noteq> CHR ''$'' \<Longrightarrow> p \<noteq> CHR ''{'' \<Longrightarrow> p \<noteq> CHR 0x5C \<Longrightarrow> var_inv (pre @ [p]) None"
    using assms by (auto simp: var_inv_def var_step_def)
  show "var_inv (pre @ [p]) dol" if p: "p = CHR 0x5C" and d: "dol = Some d"
  proof -
    obtain a k where a: "pre = a @ CHR ''$'' # replicate k CHR 0x5C" "length a = d"
      using assms d by (auto simp: var_inv_def)
    then have "pre @ [p] = a @ CHR ''$'' # replicate (Suc k) CHR 0x5C"
      using p by (simp add: replicate_append_same)
    moreover have "foldl var_step (Some False) (pre @ [p]) = Some True"
      using assms p d by (simp add: var_inv_def) (simp add: var_step_def)
    ultimately have "\<exists>a k. pre @ [p] = a @ CHR ''$'' # replicate k CHR 0x5C \<and> length a = d"
        and "foldl var_step (Some False) (pre @ [p]) = Some True" using a(2) by blast+
    then show ?thesis unfolding d var_inv_def by simp
  qed
qed

lemma var_check_loop_clean:
  "var_inv pre dol \<Longrightarrow> \<exists>r. var_check_loop True ps (length pre) dol (pre @ ps) = (False, r) \<and>
     foldl var_step (Some False) r \<noteq> None \<and> length r = length (pre @ ps)"
proof (induction ps arbitrary: pre dol)
  case Nil
  then show ?case by (simp add: var_inv_def)
next
  case (Cons p ps)
  note IH = Cons.IH [where pre="pre @ [p]", simplified]
  show ?case
  proof (cases "p = CHR ''$'' \<or> dol = None \<or> p \<noteq> CHR ''{''")
    case True
    then show ?thesis using Cons.prems IH var_inv_snoc [OF Cons.prems, of p]
      by (cases dol) (auto split: if_splits)
  next
    case False
    then obtain d where d: "dol = Some d" "p = CHR ''{''" by auto
    note dis = var_inv_disable [OF Cons.prems [unfolded d]]
    then show ?thesis using d Cons.IH [OF dis(2)] by (simp add: list_update_append1)
  qed
qed

text \<open>
  C29. Cleaning a string of variable references leaves none: the check finds nothing in the result. The
  length is unchanged, and a string in which the check finds nothing is left as it is.
\<close>

theorem var_clean_no_variable:
  "\<not> switch_string_var_check_const (switch_var_clean_string s) \<and> length (switch_var_clean_string s) = length s"
proof -
  have "var_inv [] None" by (simp add: var_inv_def)
  from var_check_loop_clean [OF this, of s] show ?thesis
    by (auto simp: switch_var_clean_string_def switch_string_var_check_def switch_string_var_check_const_def
        var_check_const_fold)
qed

end
