(* ===== verification/FS_Search.thy ===== *)
theory FS_Search
  imports FS_Text
begin

text \<open>
  Searching and cutting of strings in \<^verbatim>\<open>src/src/lib/libfreeswitch/switch_utils.c\<close> and
  \<^verbatim>\<open>src/src/include/switch_utils.h\<close>: parameters of a parameter string, matching parentheses, the
  case-insensitive search, path names, addresses, and the replacement of a substring. A pointer into a
  string is the suffix it points at. Allocations succeed (the code asserts it).
\<close>

section \<open>Parameters\<close>

text \<open>
  The value is copied with \<open>switch_snprintf\<close> into \<open>mlen = (e - ptr) + 1\<close> bytes. A \<open>;\<close> inside the
  parameter's name makes \<open>next\<close> lie before the value: \<open>mlen\<close> is negative, the allocation fails and the
  copy goes to NULL.
\<close>

function (sequential) find_parameter_loop :: "string \<Rightarrow> string \<Rightarrow> string option c" where
  "find_parameter_loop ptr param =
     (let len = length param; e = drop len ptr; next = strchr ptr CHR '';''
      in if strncasecmp_eq ptr param len \<and> len \<le> length ptr \<and> e \<noteq> [] \<and> hd e = CHR ''=''
         then let val = tl e
              in (case next of
                    None \<Rightarrow> Inr (Some val)
                  | Some n \<Rightarrow> if length n \<le> length val then Inr (Some (take (length val - length n) val)) else Inl Null_Deref)
         else (case next of None \<Rightarrow> Inr None | Some n \<Rightarrow> find_parameter_loop (tl n) param))"
  by pat_completeness auto
termination
proof (relation "measure (\<lambda>(ptr, param). length ptr)")
  show "wf (measure (\<lambda>(ptr, param). length (ptr :: string)))" by simp
  fix ptr param :: string and len e nxt n
  assume "nxt = strchr ptr CHR '';''" and "nxt = Some n"
  then have "ptr = before_char ptr CHR '';'' @ n" "n \<noteq> []" using strchr_Some by auto
  then have "length (tl n) < length ptr" by (metis le_add2 length_append length_tl diff_less length_greater_0_conv less_le_trans less_one)
  then show "((tl n, param), (ptr, param)) \<in> measure (\<lambda>(ptr, param). length ptr)" by simp
qed

declare find_parameter_loop.simps [simp del]

definition switch_find_parameter :: "string option \<Rightarrow> string \<Rightarrow> string option c" where
  "switch_find_parameter str param = (case str of None \<Rightarrow> Inr None | Some s \<Rightarrow> find_parameter_loop s param)"

section \<open>Parentheses\<close>

fun end_paren_loop :: "char \<Rightarrow> char \<Rightarrow> nat \<Rightarrow> string \<Rightarrow> string" where
  "end_paren_loop op cl depth [] = []"
| "end_paren_loop op cl depth (e # es) =
     (if e = op \<and> op \<noteq> cl then end_paren_loop op cl (depth + 1) es
      else if e = cl then (if depth - 1 = 0 then e # es else end_paren_loop op cl (depth - 1) es)
      else end_paren_loop op cl depth es)"

definition switch_find_end_paren :: "string option \<Rightarrow> char \<Rightarrow> char \<Rightarrow> string option" where
  "switch_find_end_paren s op cl = (case s of None \<Rightarrow> None | Some s \<Rightarrow>
     (case dropWhile (\<lambda>c. c = CHR '' '') s of
        [] \<Rightarrow> None
      | c # t \<Rightarrow>
          if c = op then (case end_paren_loop op cl 1 t of [] \<Rightarrow> None | e # es \<Rightarrow> if e = cl then Some (e # es) else None)
          else None))"

text \<open>
  \<open>switch_separate_paren_args\<close> cuts the string before the parenthesis, removes the blanks before it and
  cuts the arguments at the matching parenthesis. The walk backwards over blanks has no lower bound: with
  nothing but blanks before the parenthesis it reads the byte in front of the string.
\<close>

fun paren_args_loop :: "nat \<Rightarrow> string \<Rightarrow> string" where
  "paren_args_loop br [] = []"
| "paren_args_loop br (e # es) =
     (if e = CHR ''('' then e # paren_args_loop (br + 1) es
      else if br > 1 \<and> e = CHR '')'' then e # paren_args_loop (br - 1) es
      else if br = 1 \<and> e = CHR '')'' then []
      else e # paren_args_loop br es)"

definition switch_separate_paren_args :: "string \<Rightarrow> (string \<times> string option) c" where
  "switch_separate_paren_args str =
     (case strchr str CHR ''('' of
        None \<Rightarrow> Inr (str, None)
      | Some a \<Rightarrow>
          let nm = before_char str CHR ''(''
          in if \<forall>c \<in> set nm. c = CHR '' '' then Inl Out_Of_Bounds
             else Inr (strip_tail (\<lambda>c. c = CHR '' '') nm, Some (paren_args_loop 1 (tl a))))"

section \<open>Search\<close>

datatype stristr_outcome = Stristr_Found | Stristr_Ended | Stristr_Mismatch

fun stristr_match :: "string \<Rightarrow> string \<Rightarrow> stristr_outcome" where
  "stristr_match (s # sptr) (p # pptr) =
     (if toupper_char s = toupper_char p then
        if pptr = [] then Stristr_Found else if sptr = [] then Stristr_Ended else stristr_match sptr pptr
      else Stristr_Mismatch)"
| "stristr_match _ _ = Stristr_Mismatch"

fun stristr_loop :: "string \<Rightarrow> string \<Rightarrow> string option" where
  "stristr_loop instr [] = None"
| "stristr_loop instr (c # cs) =
     (if instr = [] \<or> toupper_char c \<noteq> toupper_char (hd instr) then stristr_loop instr cs
      else (case stristr_match (c # cs) instr of
              Stristr_Found \<Rightarrow> Some (c # cs)
            | Stristr_Ended \<Rightarrow> None
            | Stristr_Mismatch \<Rightarrow> stristr_loop instr cs))"

definition switch_stristr :: "string option \<Rightarrow> string option \<Rightarrow> string option" where
  "switch_stristr instr str = (case (instr, str) of (Some i, Some s) \<Rightarrow> stristr_loop i s | _ \<Rightarrow> None)"

text \<open>The result is NULL, or the suffix found; at the end of the string it is the empty suffix.\<close>

fun strchr_strict_loop :: "string \<Rightarrow> char \<Rightarrow> string option \<Rightarrow> string option" where
  "strchr_strict_loop [] fnd allowed = Some []"
| "strchr_strict_loop (p # ps) fnd allowed =
     (if p = fnd then Some (p # ps)
      else if (case allowed of None \<Rightarrow> True | Some a \<Rightarrow> p \<in> set a) then strchr_strict_loop ps fnd allowed
      else None)"

definition switch_strchr_strict :: "string \<Rightarrow> char \<Rightarrow> string option \<Rightarrow> string option" where
  "switch_strchr_strict inp fnd allowed = (if inp = [] then None else strchr_strict_loop inp fnd allowed)"

text \<open>\<open>while ((p = strchr(p, *i)) != 0) ret = ++p\<close>: the suffix after the last occurrence.\<close>

fun after_last :: "char \<Rightarrow> string \<Rightarrow> string \<Rightarrow> string" where
  "after_last i [] ret = ret"
| "after_last i (c # cs) ret = (if c = i then after_last i cs cs else after_last i cs ret)"

definition switch_cut_path :: "string option \<Rightarrow> string option" where
  "switch_cut_path inp = (case inp of None \<Rightarrow> None | Some s \<Rightarrow>
     Some (fold (\<lambda>i ret. after_last i s ret) [CHR ''/'', CHR 0x5C] s))"

definition switch_is_file_path :: "string \<Rightarrow> bool" where
  "switch_is_file_path file =
     (let skip = (\<lambda>f. if f \<noteq> [] \<and> hd f = CHR ''['' \<and> take 1 (tl f) = ''/'' then
                        (case switch_find_end_paren (Some f) CHR ''['' CHR '']'' of Some e \<Rightarrow> (True, tl e) | None \<Rightarrow> (True, f))
                      else if f \<noteq> [] \<and> hd f = CHR ''{'' then
                        (case switch_find_end_paren (Some f) CHR ''{'' CHR ''}'' of Some e \<Rightarrow> (True, tl e) | None \<Rightarrow> (True, f))
                      else (False, f));
          (go, f1) = skip file;
          f2 = (if go then snd (skip f1) else f1)
      in (f2 \<noteq> [] \<and> hd f2 = CHR ''/'') \<or> strstr f2 ''://'' \<noteq> None)"

definition switch_sanitize_number :: "string \<Rightarrow> string" where
  "switch_sanitize_number number =
     (if strchr number CHR ''/'' = None \<and> strchr number CHR '':'' = None \<and> strchr number CHR ''@'' = None then number
      else let p = before_char number CHR ''@''; p = after_last CHR ''/'' p p in after_last CHR '':'' p p)"

definition switch_split_user_domain :: "string option \<Rightarrow> (int \<times> string option \<times> string option)" where
  "switch_split_user_domain inp = (case inp of None \<Rightarrow> (0, None, None) | Some s \<Rightarrow>
     let s = (if strncasecmp_eq s ''sip:'' 4 then drop 4 s else if strncasecmp_eq s ''sips:'' 5 then drop 5 s else s);
         (u, h) = (case strchr s CHR ''@'' of None \<Rightarrow> (None, s) | Some p \<Rightarrow> (Some (before_char s CHR ''@''), tl p));
         h = takeWhile (\<lambda>p. \<not> (p = CHR '':'' \<or> p = CHR '';'' \<or> p = CHR '' '')) h
     in (1, u, Some h))"

section \<open>Replacement\<close>

function string_match_loop :: "string \<Rightarrow> string \<Rightarrow> nat \<Rightarrow> nat \<Rightarrow> nat \<Rightarrow> nat option" where
  "string_match_loop str search string_len search_len i =
     (if i < search_len \<and> i < string_len then
        if str ! i \<noteq> search ! i then None else string_match_loop str search string_len search_len (i + 1)
      else Some i)"
  by pat_completeness auto
termination by (relation "measure (\<lambda>(_, _, _, n, i). n - i)") auto

declare string_match_loop.simps [simp del]

definition switch_string_match :: "string \<Rightarrow> nat \<Rightarrow> string \<Rightarrow> nat \<Rightarrow> switch_status_t" where
  "switch_string_match str string_len search search_len =
     (case string_match_loop str search string_len search_len 0 of
        None \<Rightarrow> SWITCH_STATUS_FALSE
      | Some i \<Rightarrow> if i = search_len then SWITCH_STATUS_SUCCESS else SWITCH_STATUS_FALSE)"

text \<open>
  The loop of \<open>switch_string_replace\<close>; \<open>i += search_len - 1\<close> and the increment are \<open>size_t\<close> sums. The
  destination always has room for one more byte, so it is the list of the bytes written.
\<close>

partial_function (option) string_replace_loop :: "string \<Rightarrow> string \<Rightarrow> string \<Rightarrow> nat \<Rightarrow> string \<Rightarrow> string option" where
  "string_replace_loop str search repl i dest =
     (if i < length str then
        if switch_string_match (drop i str) (length str - i) search (length search) = SWITCH_STATUS_SUCCESS
        then string_replace_loop str search repl
               (size_add (size_add i (size_sub (length search) 1)) 1) (dest @ repl)
        else string_replace_loop str search repl (size_add i 1) (dest @ [str ! i])
      else Some dest)"

definition switch_string_replace :: "string \<Rightarrow> string \<Rightarrow> string \<Rightarrow> string option" where
  "switch_string_replace str search repl = string_replace_loop str search repl 0 []"

text \<open>The reference: occurrences are replaced from the left, without overlaps.\<close>

fun replace_all :: "string \<Rightarrow> string \<Rightarrow> string \<Rightarrow> string" where
  "replace_all [] search repl = []"
| "replace_all (c # cs) search repl =
     (if take (length search) (c # cs) = search then repl @ replace_all (drop (length search - 1) cs) search repl
      else c # replace_all cs search repl)"

lemma string_match_loop_eq:
  assumes "i \<le> m" and "m = min search_len string_len" and "take i str = take i search"
    and "string_len \<le> length str" and "search_len \<le> length search"
  shows "string_match_loop str search string_len search_len i = (if take m str = take m search then Some m else None)"
  using assms(1,3)
proof (induction "m - i" arbitrary: i)
  case 0
  then have i: "i = m" by simp
  moreover have "\<not> (m < search_len \<and> m < string_len)" using assms(2) by auto
  ultimately show ?case using 0 by (subst string_match_loop.simps) auto
next
  case (Suc k)
  then have lt: "i < search_len" "i < string_len" "i < m" using assms(2) by auto
  then have eq: "take (i + 1) str = take (i + 1) search \<longleftrightarrow> str ! i = search ! i"
    using Suc.prems assms(4,5) by (simp add: take_Suc_conv_app_nth)
  show ?case
  proof (cases "str ! i = search ! i")
    case True
    then have "string_match_loop str search string_len search_len (i + 1) = (if take m str = take m search then Some m else None)"
      using Suc lt eq by (intro Suc.hyps(1)) auto
    with True lt show ?thesis by (subst string_match_loop.simps) simp
  next
    case False
    then have "take m str \<noteq> take m search" using lt assms by (metis nth_take)
    with False lt show ?thesis by (subst string_match_loop.simps) simp
  qed
qed

lemma string_match_eq:
  "switch_string_match str (length str) search (length search) =
     (if take (length search) str = search then SWITCH_STATUS_SUCCESS else SWITCH_STATUS_FALSE)"
proof -
  have "string_match_loop str search (length str) (length search) 0 =
      (if take (min (length search) (length str)) str = take (min (length search) (length str)) search
       then Some (min (length search) (length str)) else None)"
    by (rule string_match_loop_eq) simp_all
  then show ?thesis by (auto simp: switch_string_match_def min_def dest: arg_cong [where f=length])
qed

lemma string_replace_loop_eq:
  assumes "search \<noteq> []" and "length str < object_max" and "i \<le> length str"
  shows "string_replace_loop str search repl i dest = Some (dest @ replace_all (drop i str) search repl)"
  using assms(3)
proof (induction "length str - i" arbitrary: i dest rule: less_induct)
  case less
  note sz = object_max_def size_mod_def
  show ?case
  proof (cases "i < length str")
    case True
    then have di: "drop i str = str ! i # drop (Suc i) str" by (simp add: Cons_nth_drop_Suc)
    note match = string_match_eq [of "drop i str" search]
    show ?thesis
    proof (cases "take (length search) (drop i str) = search")
      case m: True
      then have le: "i + length search \<le> length str" by (metis add.commute length_drop length_take less_diff_conv2 linorder_not_le min_def nat_less_le True le_diff_conv2 less_imp_le order_refl)
      have l1: "0 < length search" using assms(1) by simp
      have s1: "size_sub (length search) 1 = length search - 1"
        using le l1 assms(2) by (intro size_sub_small) (simp_all add: sz Suc_le_eq)
      have s2: "size_add i (length search - 1) = i + (length search - 1)"
        using le l1 assms(2) by (intro size_add_small) (simp add: sz)
      have "size_add (i + (length search - 1)) 1 = i + (length search - 1) + 1"
        using le l1 assms(2) by (intro size_add_small) (simp add: sz)
      moreover have "i + (length search - 1) + 1 = i + length search" using l1 by arith
      ultimately have "size_add (size_add i (size_sub (length search) 1)) 1 = i + length search"
        unfolding s1 s2 by (rule trans)
      moreover have "string_replace_loop str search repl (i + length search) (dest @ repl) =
          Some ((dest @ repl) @ replace_all (drop (i + length search) str) search repl)"
        using le l1 True by (intro less) arith+
      moreover have "replace_all (drop i str) search repl = repl @ replace_all (drop (i + length search) str) search repl"
      proof -
        obtain n where "length search = Suc n" using l1 gr0_implies_Suc by blast
        then show ?thesis using m unfolding di by (simp add: add.commute)
      qed
      ultimately show ?thesis using True m match by (subst string_replace_loop.simps) simp
    next
      case False
      have "size_add i 1 = Suc i" using True assms(2) by (simp add: size_add_small sz)
      moreover have "string_replace_loop str search repl (Suc i) (dest @ [str ! i]) =
          Some ((dest @ [str ! i]) @ replace_all (drop (Suc i) str) search repl)"
        using True by (intro less) simp_all
      moreover have "switch_string_match (drop i str) (length str - i) search (length search) = SWITCH_STATUS_FALSE"
        using match False by simp
      moreover have "replace_all (drop i str) search repl = str ! i # replace_all (drop (Suc i) str) search repl"
        using False unfolding di by simp
      ultimately show ?thesis using True by (subst string_replace_loop.simps) simp
    qed
  next
    case False
    then show ?thesis by (subst string_replace_loop.simps) simp
  qed
qed

text \<open>An empty search string matches everywhere and the index never moves.\<close>

lemma string_replace_empty_search:
  assumes "i < length str" and "length str < object_max"
  shows "string_replace_loop str [] repl i dest = None"
proof -
  have "size_add i (size_sub 0 1) = (if i = 0 then size_mod - 1 else i - 1)"
    using assms by (auto simp: size_add_def size_sub_def size_mod_def object_max_def mod_if)
  then have i: "size_add (size_add i (size_sub 0 1)) 1 = i"
    using assms by (auto simp: size_add_def size_mod_def object_max_def)
  have "str' = str \<longrightarrow> search' = [] \<longrightarrow> i' = i \<longrightarrow> False"
    if "string_replace_loop str' search' repl' i' dest' = Some y'" for str' search' repl' i' dest' y'
  proof (rule string_replace_loop.raw_induct [OF _ that], intro impI)
    fix rec str' search' repl' i' dest' y'
    assume IH: "\<And>str' search' repl' i' dest' y'. rec str' search' repl' i' dest' = Some y' \<Longrightarrow>
        str' = str \<longrightarrow> search' = [] \<longrightarrow> i' = i \<longrightarrow> False"
      and st: "(if i' < length str' then
          if switch_string_match (drop i' str') (length str' - i') search' (length search') = SWITCH_STATUS_SUCCESS
          then rec str' search' repl' (size_add (size_add i' (size_sub (length search') 1)) 1) (dest' @ repl')
          else rec str' search' repl' (size_add i' 1) (dest' @ [str' ! i']) else Some dest') = Some y'"
      and eqs: "str' = str" "search' = []" "i' = i"
    have "rec str [] repl' i (dest' @ repl') = Some y'"
      using st eqs assms(1) string_match_eq [of "drop i str" "[]"] i by simp
    from IH [OF this] show False by simp
  qed
  then show ?thesis by (metis option.exhaust)
qed

text \<open>
  C18. With a search string that is not empty the replacement returns, and its result is the string with
  every occurrence of the search string replaced, from the left and without overlaps. With an empty
  search string and a string that is not empty the loop never ends.
\<close>

theorem string_replace_spec:
  assumes "length str < object_max"
  shows "switch_string_replace str search repl =
     (if search \<noteq> [] \<or> str = [] then Some (replace_all str search repl) else None)"
proof -
  have "string_replace_loop [] search repl 0 [] = Some []" by (subst string_replace_loop.simps) simp
  then show ?thesis
    using string_replace_loop_eq [OF _ assms, of search 0 repl "[]"] string_replace_empty_search [OF _ assms, of 0 repl "[]"]
    by (cases "search = []") (auto simp: switch_string_replace_def)
qed

theorem string_replace_spec_witness: "switch_string_replace ''a-b-c'' ''-'' ''::'' = Some ''a::b::c''"
  using string_replace_spec [of "''a-b-c''" "''-''" "''::''"] by (simp add: object_max_def)

section \<open>Properties of the searches\<close>

definition param_text :: "(string \<times> string) list \<Rightarrow> string" where
  "param_text ps = concat (map (\<lambda>(k, v). k @ ''='' @ v @ '';'') ps)"

definition param_ok :: "string \<times> string \<Rightarrow> bool" where
  "param_ok p \<longleftrightarrow> CHR '';'' \<notin> set (fst p) \<and> CHR ''='' \<notin> set (fst p) \<and> CHR '';'' \<notin> set (snd p)"

definition param_find :: "(string \<times> string) list \<Rightarrow> string \<Rightarrow> string option" where
  "param_find ps param = map_option snd (find (\<lambda>(k, v). strcasecmp_eq k param) ps)"

lemma param_head:
  assumes "CHR ''='' \<notin> set k" and "CHR ''='' \<notin> set param"
  shows "strncasecmp_eq (k @ CHR ''='' # w) param (length param) \<and>
      drop (length param) (k @ CHR ''='' # w) \<noteq> [] \<and>
      hd (drop (length param) (k @ CHR ''='' # w)) = CHR ''='' \<longleftrightarrow> strcasecmp_eq k param"
proof -
  have "code (ascii_lower c) = 61 \<longleftrightarrow> code c = 61" for c
    by (simp add: ascii_lower_byte upper_lower_less) (auto simp: lower_byte_def)
  moreover have "code CHR ''='' = 61" by (simp add: code_def)
  ultimately have low: "ascii_lower c = CHR ''='' \<longleftrightarrow> c = CHR ''=''" for c by (metis code_inj)
  then have nop: "CHR ''='' \<notin> set (map ascii_lower param)" using assms(2) by (metis (no_types) image_iff list.set_map)
  consider "length k = length param" | "length k < length param" | "length param < length k" by linarith
  then show ?thesis
  proof cases
    case 1
    then show ?thesis by (auto simp: strncasecmp_eq_def strcasecmp_eq_def)
  next
    case 2
    then obtain n where n: "length param = length k + Suc n" by (metis less_imp_Suc_add add_Suc_right)
    then have "CHR ''='' \<in> set (take (length param) (k @ CHR ''='' # w))" by simp
    then have "CHR ''='' \<in> set (map ascii_lower (take (length param) (k @ CHR ''='' # w)))"
      using low by (metis image_eqI list.set_map)
    then have "\<not> strncasecmp_eq (k @ CHR ''='' # w) param (length param)"
      using nop unfolding strncasecmp_eq_def by (metis order_refl take_all)
    moreover have "\<not> strcasecmp_eq k param" using 2 by (metis length_map less_irrefl strcasecmp_eq_def)
    ultimately show ?thesis by blast
  next
    case 3
    then have "hd (drop (length param) (k @ CHR ''='' # w)) = k ! length param"
      by (simp add: hd_drop_conv_nth nth_append)
    moreover have "k ! length param \<noteq> CHR ''=''" using 3 assms(1) by (metis nth_mem)
    moreover have "\<not> strcasecmp_eq k param" using 3 by (metis length_map less_irrefl strcasecmp_eq_def)
    ultimately show ?thesis by simp
  qed
qed

text \<open>The text of a last parameter that has no semicolon behind it.\<close>

definition open_param :: "(string \<times> string) option \<Rightarrow> string" where
  "open_param tail = (case tail of None \<Rightarrow> [] | Some (k, v) \<Rightarrow> k @ ''='' @ v)"

lemma find_parameter_skip:
  assumes "\<forall>p \<in> set ps. param_ok p" and "CHR ''='' \<notin> set param"
  shows "find_parameter_loop (param_text ps @ t) param =
     (case param_find ps param of Some v \<Rightarrow> Inr (Some v) | None \<Rightarrow> find_parameter_loop t param)"
  using assms(1)
proof (induction ps)
  case Nil
  then show ?case by (simp add: param_text_def param_find_def)
next
  case (Cons p ps)
  obtain k v where p: "p = (k, v)" by fastforce
  have ok: "CHR ''='' \<notin> set k" "CHR '';'' \<notin> set (k @ CHR ''='' # v)" using Cons.prems p by (simp_all add: param_ok_def)
  let ?s = "k @ CHR ''='' # v @ CHR '';'' # param_text ps @ t"
  have text_eq: "param_text (p # ps) @ t = ?s" by (simp add: param_text_def p)
  from strchr_append [OF ok(2)] have nxt: "strchr ?s CHR '';'' = Some (CHR '';'' # param_text ps @ t)" by simp
  note hd = param_head [OF ok(1) assms(2), of "v @ CHR '';'' # param_text ps @ t"]
  show ?case
  proof (cases "strcasecmp_eq k param")
    case True
    then have len: "length k = length param" by (metis length_map strcasecmp_eq_def)
    then show ?thesis unfolding text_eq using hd True
      by (subst find_parameter_loop.simps) (simp add: nxt Let_def param_find_def p)
  next
    case False
    have nc: "\<not> (strncasecmp_eq ?s param (length param) \<and> length param \<le> length ?s \<and>
        drop (length param) ?s \<noteq> [] \<and> hd (drop (length param) ?s) = CHR ''='')" using hd False by blast
    have "find_parameter_loop ?s param = find_parameter_loop (param_text ps @ t) param"
      by (subst find_parameter_loop.simps) (simp only: Let_def nc if_False nxt option.case list.sel)
    with Cons False show ?thesis unfolding text_eq by (simp add: param_find_def p)
  qed
qed

lemma find_append_case: "find P (xs @ ys) = (case find P xs of None \<Rightarrow> find P ys | Some x \<Rightarrow> Some x)"
  by (induction xs) simp_all

lemma find_parameter_open:
  assumes "\<forall>p \<in> set_option tail. param_ok p" and "CHR ''='' \<notin> set param" and "param \<noteq> []"
  shows "find_parameter_loop (open_param tail) param =
     Inr (case tail of None \<Rightarrow> None | Some (k, v) \<Rightarrow> if strcasecmp_eq k param then Some v else None)"
proof (cases tail)
  case None
  then show ?thesis using assms(3) by (subst find_parameter_loop.simps) (simp add: open_param_def Let_def)
next
  case (Some p)
  obtain k v where p: "p = (k, v)" by fastforce
  let ?s = "k @ CHR ''='' # v"
  have ok: "CHR ''='' \<notin> set k" "CHR '';'' \<notin> set ?s" using assms(1) Some p by (simp_all add: param_ok_def)
  then have nxt: "strchr ?s CHR '';'' = None" by (simp add: strchr_None)
  note hd = param_head [OF ok(1) assms(2), of v]
  have text_eq: "open_param tail = ?s" by (simp add: open_param_def Some p)
  show ?thesis
  proof (cases "strcasecmp_eq k param")
    case True
    then have len: "length k = length param" by (metis length_map strcasecmp_eq_def)
    then show ?thesis unfolding text_eq using hd True
      by (subst find_parameter_loop.simps) (simp add: nxt Let_def Some p)
  next
    case False
    have nc: "\<not> (strncasecmp_eq ?s param (length param) \<and> length param \<le> length ?s \<and>
        drop (length param) ?s \<noteq> [] \<and> hd (drop (length param) ?s) = CHR ''='')" using hd False by blast
    show ?thesis unfolding text_eq
      by (subst find_parameter_loop.simps) (simp only: Let_def nc if_False nxt option.case Some p False prod.case)
  qed
qed

text \<open>
  C30. On a parameter string \<open>k1=v1;k2=v2;\<close>, or \<open>k1=v1;k2=v2\<close> with the last value open, whose names have neither semicolon nor equals
  sign and whose values have no semicolon, the search for a nonempty name without an equals sign
  returns the value of the first parameter whose name equals it up to case, and NULL when there is none.
\<close>

theorem find_parameter_spec:
  assumes "\<forall>p \<in> set ps. param_ok p" and "\<forall>p \<in> set_option tail. param_ok p" and "CHR ''='' \<notin> set param" and "param \<noteq> []"
  shows "switch_find_parameter (Some (param_text ps @ open_param tail)) param =
     Inr (param_find (ps @ (case tail of None \<Rightarrow> [] | Some p \<Rightarrow> [p])) param)"
  using find_parameter_skip [OF assms(1,3), of "open_param tail"] find_parameter_open [OF assms(2-4)]
  by (auto simp: switch_find_parameter_def param_find_def find_append_case split: option.splits)

theorem find_parameter_spec_witness:
  "switch_find_parameter (Some ''a=1;Rate=8000'') ''rate'' = Inr (Some ''8000'') \<and>
   switch_find_parameter (Some ''a=1;Rate=8000;'') ''rate'' = Inr (Some ''8000'')"
proof -
  have "strcasecmp_eq ''Rate'' ''rate''" "\<not> strcasecmp_eq ''a'' ''rate''" by code_simp+
  then show ?thesis
    using find_parameter_spec [of "[(''a'', ''1'')]" "Some (''Rate'', ''8000'')" "''rate''"]
      find_parameter_spec [of "[(''a'', ''1''), (''Rate'', ''8000'')]" None "''rate''"]
    by (simp add: param_ok_def param_text_def open_param_def param_find_def)
qed

text \<open>The reference for the case-insensitive search: the first suffix that starts with the pattern up to case.\<close>

fun ci_find :: "string \<Rightarrow> string \<Rightarrow> string option" where
  "ci_find p [] = None"
| "ci_find p (c # cs) = (if map ascii_upper (take (length p) (c # cs)) = map ascii_upper p then Some (c # cs) else ci_find p cs)"

lemma ci_find_short: "length s < length p \<Longrightarrow> ci_find p s = None"
proof (induction s)
  case (Cons c cs)
  have "map ascii_upper (take (length p) (c # cs)) \<noteq> map ascii_upper p"
    using Cons.prems by (metis length_map length_take min_less_iff_conj less_irrefl)
  with Cons show ?case by simp
qed simp

lemma stristr_match_eq:
  assumes "p \<noteq> []" and "s \<noteq> []"
  shows "stristr_match s p = Stristr_Found \<longleftrightarrow> map ascii_upper (take (length p) s) = map ascii_upper p"
    and "stristr_match s p = Stristr_Ended \<Longrightarrow> length s < length p"
proof -
  have "(stristr_match s p = Stristr_Found \<longleftrightarrow> map ascii_upper (take (length p) s) = map ascii_upper p) \<and>
      (stristr_match s p = Stristr_Ended \<longrightarrow> length s < length p)"
    using assms by (induction s p rule: stristr_match.induct) (auto simp: toupper_char_eq)
  then show "stristr_match s p = Stristr_Found \<longleftrightarrow> map ascii_upper (take (length p) s) = map ascii_upper p"
    "stristr_match s p = Stristr_Ended \<Longrightarrow> length s < length p" by blast+
qed

lemma stristr_loop_eq:
  assumes "p \<noteq> []"
  shows "stristr_loop p s = ci_find p s"
proof (induction s)
  case (Cons c cs)
  note m = stristr_match_eq [OF assms, of "c # cs", simplified]
  obtain d ds where p: "p = d # ds" using assms by (cases p) auto
  show ?case
  proof (cases "toupper_char c = toupper_char d")
    case True
    then show ?thesis using Cons m ci_find_short [of cs p] p
      by (auto split: stristr_outcome.split)
  next
    case False
    then show ?thesis using Cons p by (simp add: toupper_char_eq)
  qed
qed simp

text \<open>
  The case-insensitive search returns the first place where the pattern occurs up to case, and NULL
  when it does not occur; the empty pattern is never found.
\<close>

theorem stristr_spec: "switch_stristr (Some p) (Some s) = (if p = [] then None else ci_find p s)"
proof -
  have "stristr_loop [] s = None" by (induction s) simp_all
  then show ?thesis by (simp add: switch_stristr_def stristr_loop_eq)
qed

text \<open>Without a list of allowed characters \<open>switch_strchr_strict\<close> differs from \<open>strchr\<close> when nothing is found.\<close>

lemma strchr_strict_not_found: "s \<noteq> [] \<Longrightarrow> c \<notin> set s \<Longrightarrow> switch_strchr_strict s c None = Some [] \<and> strchr s c = None"
proof -
  have "c \<notin> set s \<Longrightarrow> strchr_strict_loop s c None = Some []" by (induction s) auto
  then show "s \<noteq> [] \<Longrightarrow> c \<notin> set s \<Longrightarrow> switch_strchr_strict s c None = Some [] \<and> strchr s c = None"
    by (simp add: switch_strchr_strict_def)
qed

lemma after_last_not_in:
  "i \<notin> set ret \<or> i \<in> set s \<Longrightarrow> i \<notin> set (after_last i s ret)"
  by (induction s arbitrary: ret) auto

lemma after_last_subset: "set (after_last i s ret) \<subseteq> set s \<union> set ret"
  by (induction s arbitrary: ret) (auto split: if_splits)

text \<open>A sanitized number contains none of the characters that separate the parts of an address.\<close>

lemma sanitize_number_clean: "set (switch_sanitize_number s) \<inter> {CHR ''/'', CHR '':'', CHR ''@''} = {}"
proof -
  define p where "p = before_char s CHR ''@''"
  define q where "q = after_last CHR ''/'' p p"
  define r where "r = after_last CHR '':'' q q"
  have "CHR ''@'' \<notin> set p" unfolding p_def before_char_def using set_takeWhileD by fastforce
  moreover have "set q \<subseteq> set p" "set r \<subseteq> set q" unfolding q_def r_def using after_last_subset by fastforce+
  moreover have "CHR ''/'' \<notin> set q" "CHR '':'' \<notin> set r" unfolding q_def r_def using after_last_not_in by blast+
  moreover have "switch_sanitize_number s = s \<or> switch_sanitize_number s = r"
    by (simp add: switch_sanitize_number_def Let_def p_def q_def r_def)
  moreover have "switch_sanitize_number s = r \<or> set s \<inter> {CHR ''/'', CHR '':'', CHR ''@''} = {}"
    by (auto simp: switch_sanitize_number_def Let_def p_def q_def r_def)
  ultimately show ?thesis by auto
qed

end
