(* ===== verification/FS_Encode.thy ===== *)
theory FS_Encode
  imports FS_Text
begin

text \<open>
  Encoders of text in \<^verbatim>\<open>src/src/lib/libfreeswitch/switch_utils.c\<close>: percent encoding of URLs and its
  inverse, quoting of a shell argument, escaping of strings and of markup, and the translation of
  dial-plan patterns to regular expressions. The output buffers are byte memories of their real size:
  a write outside is the fault \<open>Out_Of_Bounds\<close>. The C string in a buffer is what stands before its
  first NUL.
\<close>

definition NUL :: char where
  "NUL = chr 0"

lemma code_NUL [simp]: "code NUL = 0"
  by (simp add: NUL_def)

definition cstr :: "string \<Rightarrow> string" where
  "cstr buf = takeWhile (\<lambda>c. c \<noteq> NUL) buf"

lemma cstr_append: "NUL \<notin> set s \<Longrightarrow> cstr (s @ NUL # r) = s"
  by (induction s) (auto simp: cstr_def)

definition SQ :: char where "SQ = CHR 0x27"
definition BS :: char where "BS = CHR 0x5C"
definition DQ :: char where "DQ = CHR 0x22"

lemmas special_chars = SQ_def BS_def DQ_def

lemma mem_write_at:
  assumes "x = length pre" and "length bs \<le> length r"
  shows "mem_write (pre @ r) x bs = Inr (pre @ bs @ drop (length bs) r)"
  using assms by (simp add: mem_write_def)

lemma mem_write_past: "length m < off + length bs \<Longrightarrow> mem_write m off bs = Inl Out_Of_Bounds"
  by (simp add: mem_write_def)

section \<open>Percent encoding\<close>

definition urlunsafe :: string where
  "urlunsafe = [chr 13, chr 10, CHR '' '', DQ] @ ''#%&+:;<=>?@['' @ [BS] @ '']^'' @ [CHR 0x60] @ ''{|}''"

definition hexdigits :: string where
  "hexdigits = ''0123456789ABCDEF''"

text \<open>A \<open>char\<close> is signed: a byte above 127 compares below the blank.\<close>

definition url_escaped :: "char \<Rightarrow> bool" where
  "url_escaped p \<longleftrightarrow> code p < 32 \<or> code p > 126 \<or> p \<in> set urlunsafe"

fun url_encode_loop :: "string \<Rightarrow> nat \<Rightarrow> nat \<Rightarrow> string \<Rightarrow> string c" where
  "url_encode_loop [] x len buf = mem_write buf x [NUL]"
| "url_encode_loop (p # ps) x len buf =
     (if x \<ge> len then mem_write buf x [NUL]
      else if url_escaped p then
        if x + 3 > len then mem_write buf x [NUL]
        else bindE (mem_write buf x [CHR ''%'', hexdigits ! (code p div 16 mod 16), hexdigits ! (code p mod 16)])
               (url_encode_loop ps (x + 3) len)
      else bindE (mem_write buf x [p]) (url_encode_loop ps (x + 1) len))"

definition switch_url_encode :: "string option \<Rightarrow> string option \<Rightarrow> nat \<Rightarrow> string option c" where
  "switch_url_encode url buf len = (case buf of None \<Rightarrow> Inr None | Some b \<Rightarrow>
     (case url of None \<Rightarrow> Inr None | Some u \<Rightarrow>
        bindE (url_encode_loop u 0 (size_sub len 1) b) (\<lambda>b. Inr (Some b))))"

text \<open>
  \<open>sscanf(s, "%2x", &tmp)\<close>: white space, then at most two characters of an optional sign and hexadecimal
  digits; \<open>0x\<close> alone is not a number.
\<close>

definition hex_value :: "char \<Rightarrow> nat option" where
  "hex_value c =
     (let n = code c in
      if 48 \<le> n \<and> n \<le> 57 then Some (n - 48) else if 65 \<le> n \<and> n \<le> 70 then Some (n - 55)
      else if 97 \<le> n \<and> n \<le> 102 then Some (n - 87) else None)"

definition scan_hex2 :: "string \<Rightarrow> u32 option" where
  "scan_hex2 s =
     (case take 2 (dropWhile isspace_c s) of
        [] \<Rightarrow> None
      | c # r \<Rightarrow>
          if c = CHR ''-'' \<or> c = CHR ''+'' then
            (case r of [] \<Rightarrow> None
             | d # _ \<Rightarrow> map_option (\<lambda>v. if c = CHR ''-'' then - of_nat v else of_nat v) (hex_value d))
          else (case hex_value c of
              None \<Rightarrow> None
            | Some v \<Rightarrow>
                (case r of [] \<Rightarrow> Some (of_nat v)
                 | d # _ \<Rightarrow>
                     if c = CHR ''0'' \<and> (d = CHR ''x'' \<or> d = CHR ''X'') then None
                     else (case hex_value d of None \<Rightarrow> Some (of_nat v) | Some w \<Rightarrow> Some (of_nat (16 * v + w))))))"

text \<open>The decoder works in place; its write position never overtakes its read position.\<close>

function url_decode_loop :: "string \<Rightarrow> string" where
  "url_decode_loop [] = []"
| "url_decode_loop (c # cs) =
     (if c = CHR ''%'' \<and> length (c # cs) > 2 then
        (case scan_hex2 cs of
           Some tmp \<Rightarrow> chr (unat tmp mod 256) # url_decode_loop (drop 2 cs)
         | None \<Rightarrow> c # url_decode_loop cs)
      else c # url_decode_loop cs)"
  by pat_completeness auto
termination by (relation "measure length") auto

text \<open>The result is the string decoded in place; the pointer the code returns is to its original end.\<close>

definition switch_url_decode :: "string option \<Rightarrow> string option" where
  "switch_url_decode s = map_option url_decode_loop s"

definition url_enc_char :: "char \<Rightarrow> string" where
  "url_enc_char p = (if url_escaped p then [CHR ''%'', hexdigits ! (code p div 16 mod 16), hexdigits ! (code p mod 16)] else [p])"

definition url_enc :: "string \<Rightarrow> string" where
  "url_enc s = concat (map url_enc_char s)"

lemma length_url_enc_char: "length (url_enc_char p) \<le> 3" "0 < length (url_enc_char p)"
  by (simp_all add: url_enc_char_def)

lemma length_url_enc: "length (url_enc s) \<le> 3 * length s"
proof (induction s)
  case (Cons p s)
  then show ?case using length_url_enc_char(1) [of p] by (simp add: url_enc_def)
qed (simp add: url_enc_def)

definition hex_pair :: "nat \<Rightarrow> nat \<times> nat" where
  "hex_pair n = (case (hex_value (hexdigits ! n), code (hexdigits ! n)) of (Some v, d) \<Rightarrow> (v, d) | (None, d) \<Rightarrow> (99, d))"

lemma hexdigits_table: "map hex_pair [0..<16] = [(0,48),(1,49),(2,50),(3,51),(4,52),(5,53),(6,54),(7,55),(8,56),(9,57),
    (10,65),(11,66),(12,67),(13,68),(14,69),(15,70)]"
  by code_simp

lemma hexdigit:
  assumes "n < 16"
  shows "hex_value (hexdigits ! n) = Some n" "code (hexdigits ! n) = (if n < 10 then 48 + n else 55 + n)"
proof -
  have "\<forall>n \<in> set [0..<16]. hex_pair n = (n, if n < 10 then 48 + n else 55 + n)"
    using hexdigits_table by (simp add: upt_rec)
  then have "hex_pair n = (n, if n < 10 then 48 + n else 55 + n)" using assms by simp
  then show "hex_value (hexdigits ! n) = Some n" "code (hexdigits ! n) = (if n < 10 then 48 + n else 55 + n)"
    using assms by (auto simp: hex_pair_def split: option.splits)
qed

lemma hexdigit_nonzero: "n < 16 \<Longrightarrow> hexdigits ! n \<noteq> NUL"
  using hexdigit(2) [of n] by (metis add_is_0 code_NUL zero_neq_numeral)

lemma url_enc_no_NUL:
  assumes "NUL \<notin> set s"
  shows "NUL \<notin> set (url_enc s)"
proof -
  have "CHR ''%'' \<noteq> NUL" by (simp add: NUL_def chr_def char_of_def)
  then have "c \<noteq> NUL \<Longrightarrow> NUL \<notin> set (url_enc_char c)" for c
    using hexdigit_nonzero [of "code c mod 16"] hexdigit_nonzero [of "code c div 16 mod 16"]
    by (auto simp: url_enc_char_def)
  then show ?thesis using assms by (induction s) (auto simp: url_enc_def)
qed

lemma url_encode_loop_eq:
  assumes "x = length pre" and "x \<le> len" and "length pre + length r = Suc len"
  shows "\<exists>k r'. url_encode_loop ps x len (pre @ r) = Inr (pre @ url_enc (take k ps) @ NUL # r') \<and> k \<le> length ps \<and>
     length pre + length (url_enc (take k ps)) \<le> len \<and> (x + length (url_enc ps) \<le> len \<longrightarrow> k = length ps)"
  using assms
proof (induction ps arbitrary: x pre r)
  case Nil
  then have "r \<noteq> []" by auto
  then have "mem_write (pre @ r) x [NUL] = Inr (pre @ NUL # tl r)"
    using Nil.prems by (cases r) (simp_all add: mem_write_at)
  then show ?case using Nil.prems by (auto simp: url_enc_def)
next
  case (Cons p ps)
  have stop: "mem_write (pre @ r) x [NUL] = Inr (pre @ NUL # tl r)"
    using Cons.prems by (cases r) (simp_all add: mem_write_at)
  have cons: "url_enc (p # ps) = url_enc_char p @ url_enc ps" for p ps by (simp add: url_enc_def)
  let ?e = "url_enc_char p"
  show ?case
  proof (cases "x + length ?e \<le> len")
    case True
    let ?r = "drop (length ?e) r"
    have w: "mem_write (pre @ r) x ?e = Inr ((pre @ ?e) @ ?r)"
      using Cons.prems True by (subst mem_write_at) simp_all
    have "url_encode_loop (p # ps) x len (pre @ r) = url_encode_loop ps (x + length ?e) len ((pre @ ?e) @ ?r)"
      using w True length_url_enc_char(2) [of p] by (auto simp: url_enc_char_def numeral_3_eq_3)
    moreover obtain k r' where "url_encode_loop ps (x + length ?e) len ((pre @ ?e) @ ?r) =
        Inr ((pre @ ?e) @ url_enc (take k ps) @ NUL # r')" "k \<le> length ps"
        "length (pre @ ?e) + length (url_enc (take k ps)) \<le> len"
        "x + length ?e + length (url_enc ps) \<le> len \<longrightarrow> k = length ps"
      using Cons.IH [of "x + length ?e" "pre @ ?e" ?r] Cons.prems True by auto
    ultimately show ?thesis by (intro exI [of _ "Suc k"] exI [of _ r']) (auto simp: cons)
  next
    case False
    then have "url_encode_loop (p # ps) x len (pre @ r) = mem_write (pre @ r) x [NUL]"
      by (auto simp: url_enc_char_def split: if_splits)
    with stop False Cons.prems show ?thesis
      by (intro exI [of _ 0] exI [of _ "tl r"]) (auto simp: cons url_enc_def)
  qed
qed

lemma scan_hex2_pair:
  assumes "m < 16" and "n < 16"
  shows "scan_hex2 (hexdigits ! m # hexdigits ! n # r) = Some (of_nat (16 * m + n))"
proof -
  let ?c = "hexdigits ! m" and ?d = "hexdigits ! n"
  have c: "48 \<le> code ?c" "code ?c \<le> 70" and d: "code ?d \<le> 70" using hexdigit(2) assms by auto
  have "\<not> isspace_c ?c" using c by (auto simp: isspace_c_def)
  moreover have "?c \<noteq> CHR ''-''" "?c \<noteq> CHR ''+''" using c(1) by (auto simp: code_def)
  moreover have "?d \<noteq> CHR ''x''" "?d \<noteq> CHR ''X''" using d by (auto simp: code_def)
  ultimately show ?thesis using hexdigit(1) assms by (simp add: scan_hex2_def)
qed

lemma url_decode_enc: "url_decode_loop (url_enc s) = s"
proof (induction s)
  case (Cons p s)
  have cons: "url_enc (p # s) = url_enc_char p @ url_enc s" by (simp add: url_enc_def)
  show ?case
  proof (cases "url_escaped p")
    case True
    have "code p div 16 < 16" using code_less [of p] by (simp add: div_less_iff_less_mult)
    then have "(16 * (code p div 16 mod 16) + code p mod 16) = code p" by simp
    moreover have "code p < 2 ^ 32" by (rule order.strict_trans [OF code_less]) simp
    then have "unat (of_nat (code p) :: u32) mod 256 = code p" by (simp add: unsigned_of_nat take_bit_nat_eq_self)
    ultimately show ?thesis using Cons True unfolding cons
      by (simp add: url_enc_char_def scan_hex2_pair)
  next
    case False
    then have "p \<noteq> CHR ''%''" by (auto simp: url_escaped_def urlunsafe_def)
    with Cons False show ?thesis unfolding cons by (simp add: url_enc_char_def)
  qed
qed (simp add: url_enc_def)

text \<open>
  C15. Encoding a URL into a buffer of the stated size never writes outside it; decoding the result gives
  a prefix of the URL back (an escape sequence is never cut), and the whole URL when the buffer has room
  for it.
\<close>

theorem url_roundtrip:
  assumes "NUL \<notin> set url" and "length buf = len" and "0 < len" and "len < size_mod"
  shows "\<exists>buf' k. switch_url_encode (Some url) (Some buf) len = Inr (Some buf') \<and> length (cstr buf') < len \<and>
     switch_url_decode (Some (cstr buf')) = Some (take k url) \<and> (3 * length url < len \<longrightarrow> take k url = url)"
proof -
  have sz: "size_sub len 1 = len - 1" using assms(3,4) by (intro size_sub_small) simp_all
  obtain k r' where e: "url_encode_loop url 0 (len - 1) ([] @ buf) = Inr ([] @ url_enc (take k url) @ NUL # r')"
      "length ([] :: string) + length (url_enc (take k url)) \<le> len - 1" "0 + length (url_enc url) \<le> len - 1 \<longrightarrow> k = length url"
    using url_encode_loop_eq [of 0 "[]" "len - 1" buf url] assms(2,3) by auto
  have "NUL \<notin> set (take k url)" using assms(1) in_set_takeD by metis
  then have c: "cstr (url_enc (take k url) @ NUL # r') = url_enc (take k url)" by (simp add: cstr_append url_enc_no_NUL)
  have "3 * length url < len \<longrightarrow> take k url = url"
    using e(3) length_url_enc [of url] by auto
  moreover have "switch_url_encode (Some url) (Some buf) len = Inr (Some (url_enc (take k url) @ NUL # r'))"
    unfolding switch_url_encode_def sz using e(1) by simp
  moreover have "switch_url_decode (Some (cstr (url_enc (take k url) @ NUL # r'))) = Some (take k url)"
    by (simp add: c switch_url_decode_def url_decode_enc)
  moreover have "length (cstr (url_enc (take k url) @ NUL # r')) < len" using e(2) assms(3) unfolding c by simp
  ultimately show ?thesis by blast
qed

theorem url_roundtrip_witness:
  "\<exists>buf'. switch_url_encode (Some ''a b'') (Some (replicate 10 NUL)) 10 = Inr (Some buf') \<and>
     switch_url_decode (Some (cstr buf')) = Some ''a b''"
  using url_roundtrip [of "''a b''" "replicate 10 NUL" 10]
  by (auto simp: size_mod_def NUL_def chr_def char_of_def)

section \<open>Shell arguments\<close>

text \<open>The two passes of \<open>switch_util_quote_shell_arg_pool\<close>: the size of the allocation, and the copy.\<close>

definition quote_dest_len :: "string \<Rightarrow> nat" where
  "quote_dest_len str = length str + 1 + 1 + fold (\<lambda>c n. if c = SQ then n + 3 else n) str 0 + 1"

fun quote_loop :: "string \<Rightarrow> nat \<Rightarrow> string \<Rightarrow> (nat \<times> string) c" where
  "quote_loop [] n dest = Inr (n, dest)"
| "quote_loop (c # cs) n dest =
     (if c = SQ then bindE (mem_write dest n [SQ, BS, SQ, SQ]) (quote_loop cs (n + 4))
      else bindE (mem_write dest n [c]) (quote_loop cs (n + 1)))"

definition switch_util_quote_shell_arg_pool :: "string \<Rightarrow> string c" where
  "switch_util_quote_shell_arg_pool str =
     bindE (mem_write (replicate (quote_dest_len str) NUL) 0 [SQ]) (\<lambda>dest.
     bindE (quote_loop str 1 dest) (\<lambda>(n, dest).
     bindE (mem_write dest n [SQ, NUL]) (\<lambda>dest.
     bindE (assertE (n + 2 = quote_dest_len str)) (\<lambda>_. Inr dest))))"

definition switch_util_quote_shell_arg :: "string \<Rightarrow> string c" where
  "switch_util_quote_shell_arg str = switch_util_quote_shell_arg_pool str"

text \<open>
  How a POSIX shell reads a word of quoted parts: between single quotes every character stands for
  itself, and outside a backslash quotes the next character; anything unquoted is refused here.
\<close>

fun sh_word :: "bool \<Rightarrow> string \<Rightarrow> string option" where
  "sh_word quoted [] = (if quoted then None else Some [])"
| "sh_word quoted (c # cs) =
     (if quoted then (if c = SQ then sh_word False cs else map_option ((#) c) (sh_word True cs))
      else if c = SQ then sh_word True cs
      else if c = BS then (case cs of [] \<Rightarrow> None | d # ds \<Rightarrow> map_option ((#) d) (sh_word False ds))
      else None)"

definition quote_char :: "char \<Rightarrow> string" where
  "quote_char c = (if c = SQ then [SQ, BS, SQ, SQ] else [c])"

definition quoted_body :: "string \<Rightarrow> string" where
  "quoted_body s = concat (map quote_char s)"

lemma quoted_body_Cons: "quoted_body (c # s) = quote_char c @ quoted_body s"
  by (simp add: quoted_body_def)

lemma quote_dest_len_eq: "quote_dest_len str = length (quoted_body str) + 3"
proof -
  have "fold (\<lambda>c n. if c = SQ then n + 3 else n) s m + length s = m + length (quoted_body s)" for s and m :: nat
    by (induction s arbitrary: m) (auto simp: quoted_body_Cons quote_char_def, simp add: quoted_body_def)
  from this [of str 0] show ?thesis by (simp add: quote_dest_len_def)
qed

lemma quote_loop_eq:
  assumes "n = length pre" and "length (quoted_body str) \<le> length r"
  shows "quote_loop str n (pre @ r) =
     Inr (n + length (quoted_body str), pre @ quoted_body str @ drop (length (quoted_body str)) r)"
  using assms
proof (induction str arbitrary: n pre r)
  case (Cons c cs)
  let ?e = "quote_char c"
  have w: "mem_write (pre @ r) n ?e = Inr ((pre @ ?e) @ drop (length ?e) r)"
    using Cons.prems by (subst mem_write_at) (simp_all add: quoted_body_Cons)
  have "quote_loop (c # cs) n (pre @ r) = bindE (mem_write (pre @ r) n ?e) (quote_loop cs (n + length ?e))"
    by (simp add: quote_char_def numeral_eq_Suc)
  also have "\<dots> = quote_loop cs (n + length ?e) ((pre @ ?e) @ drop (length ?e) r)" by (simp only: w bindE_simps)
  also have "\<dots> = Inr (n + length ?e + length (quoted_body cs),
      (pre @ ?e) @ quoted_body cs @ drop (length (quoted_body cs)) (drop (length ?e) r))"
    using Cons.prems by (intro Cons.IH) (simp_all add: quoted_body_Cons)
  finally show ?case by (simp add: quoted_body_Cons add.commute add.left_commute)
qed (simp add: quoted_body_def)

lemma quote_shell_result: "switch_util_quote_shell_arg str = Inr (SQ # quoted_body str @ [SQ, NUL])"
proof -
  let ?m = "length (quoted_body str)"
  have "mem_write (replicate (quote_dest_len str) NUL) 0 [SQ] = Inr ([SQ] @ replicate (?m + 2) NUL)"
    by (simp add: mem_write_def quote_dest_len_eq)
  moreover have "quote_loop str 1 ([SQ] @ replicate (?m + 2) NUL) = Inr (1 + ?m, [SQ] @ quoted_body str @ replicate 2 NUL)"
    by (subst quote_loop_eq) (simp_all del: replicate.simps add_2_eq_Suc')
  moreover have "mem_write ([SQ] @ quoted_body str @ replicate 2 NUL) (1 + ?m) [SQ, NUL] =
      Inr ([SQ] @ quoted_body str @ [SQ, NUL])"
    using mem_write_at [of "1 + ?m" "[SQ] @ quoted_body str" "[SQ, NUL]" "replicate 2 NUL"] by simp
  ultimately show ?thesis
    by (simp add: switch_util_quote_shell_arg_def switch_util_quote_shell_arg_pool_def quote_dest_len_eq del: append.simps)
qed

lemma sh_word_body: "sh_word True (quoted_body s @ SQ # r) = map_option ((@) s) (sh_word False r)"
proof (induction s)
  case (Cons c s)
  then show ?case
    by (auto simp: quoted_body_Cons quote_char_def special_chars option.map_comp comp_def)
qed (simp add: quoted_body_def option.map_ident)

text \<open>
  C27. The quoting of a shell argument stays inside its allocation (whose computed size is exact, as the
  code asserts), and a shell reads the result as one word that is the original string.
\<close>

theorem quote_shell_arg_roundtrip:
  assumes "NUL \<notin> set str"
  shows "\<exists>dest. switch_util_quote_shell_arg str = Inr dest \<and> sh_word False (cstr dest) = Some str"
proof -
  have q: "SQ \<noteq> NUL" "BS \<noteq> NUL" by (simp_all add: special_chars NUL_def chr_def char_of_def)
  then have "NUL \<notin> set (SQ # quoted_body str @ [SQ])"
    using assms by (induction str) (auto simp: quoted_body_def quote_char_def)
  from cstr_append [OF this, of "[]"] have "cstr (SQ # quoted_body str @ [SQ, NUL]) = SQ # quoted_body str @ [SQ]" by simp
  moreover have "sh_word False (SQ # quoted_body str @ [SQ]) = Some str" using sh_word_body [of str "[]"] by simp
  ultimately show ?thesis by (simp add: quote_shell_result)
qed

theorem quote_shell_arg_roundtrip_witness:
  "\<exists>dest. switch_util_quote_shell_arg [CHR ''a'', SQ, CHR ''b''] = Inr dest \<and>
     sh_word False (cstr dest) = Some [CHR ''a'', SQ, CHR ''b'']"
  by (rule quote_shell_arg_roundtrip) (simp add: special_chars NUL_def chr_def char_of_def)

section \<open>Escaping\<close>

definition unescape_char :: "char \<Rightarrow> char" where
  "unescape_char escaped =
     (if escaped = CHR ''n'' then chr 10 else if escaped = CHR ''r'' then chr 13
      else if escaped = CHR ''t'' then chr 9 else if escaped = CHR ''s'' then CHR '' '' else escaped)"

definition escape_seq :: "char \<Rightarrow> string" where
  "escape_seq p =
     (if code p = 10 then [BS, CHR ''n''] else if code p = 13 then [BS, CHR ''r'']
      else if code p = 9 then [BS, CHR ''t''] else if p = CHR '' '' then [BS, CHR ''s'']
      else if p = CHR ''$'' then [BS, CHR ''$''] else [p])"

text \<open>The argument \<open>outlen\<close> of \<open>switch_escape_string\<close> is not used: the buffer's real size is what matters.\<close>

fun escape_string_loop :: "string \<Rightarrow> nat \<Rightarrow> string \<Rightarrow> string c" where
  "escape_string_loop [] o_pos out = mem_write out o_pos [NUL]"
| "escape_string_loop (p # ps) o_pos out =
     bindE (mem_write out o_pos (escape_seq p)) (escape_string_loop ps (o_pos + length (escape_seq p)))"

definition switch_escape_string :: "string \<Rightarrow> string \<Rightarrow> nat \<Rightarrow> string c" where
  "switch_escape_string inp out outlen = escape_string_loop inp 0 out"

definition switch_escape_string_pool :: "string \<Rightarrow> string c" where
  "switch_escape_string_pool inp =
     (let len = length inp * 2 + 1 in switch_escape_string inp (replicate len NUL) len)"

definition escaped :: "string \<Rightarrow> string" where
  "escaped s = concat (map escape_seq s)"

lemma escaped_Cons: "escaped (c # s) = escape_seq c @ escaped s"
  by (simp add: escaped_def)

lemma length_escaped: "length (escaped s) \<le> 2 * length s"
proof (induction s)
  case (Cons c s)
  moreover have "length (escape_seq c) \<le> 2" by (simp add: escape_seq_def)
  ultimately show ?case by (simp add: escaped_Cons)
qed (simp add: escaped_def)

lemma escape_string_loop_eq:
  assumes "n = length pre" and "length (escaped s) < length r"
  shows "escape_string_loop s n (pre @ r) = Inr (pre @ escaped s @ NUL # drop (Suc (length (escaped s))) r)"
  using assms
proof (induction s arbitrary: n pre r)
  case Nil
  then show ?case using mem_write_at [of n pre "[NUL]" r] by (simp add: escaped_def Suc_le_eq)
next
  case (Cons c s)
  let ?e = "escape_seq c"
  have "mem_write (pre @ r) n ?e = Inr ((pre @ ?e) @ drop (length ?e) r)"
    using Cons.prems by (subst mem_write_at) (simp_all add: escaped_Cons)
  then have "escape_string_loop (c # s) n (pre @ r) = escape_string_loop s (n + length ?e) ((pre @ ?e) @ drop (length ?e) r)"
    by (simp only: escape_string_loop.simps bindE_simps)
  also have "\<dots> = Inr ((pre @ ?e) @ escaped s @ NUL # drop (Suc (length (escaped s))) (drop (length ?e) r))"
    using Cons.prems by (intro Cons.IH) (simp_all add: escaped_Cons)
  finally show ?case by (simp add: escaped_Cons add.commute)
qed

text \<open>The pool variant allocates enough for every string.\<close>

lemma escape_string_pool_ok: "\<exists>r. switch_escape_string_pool s = Inr (escaped s @ NUL # r)"
proof -
  have "length (escaped s) < length (replicate (length s * 2 + 1) NUL)" using length_escaped [of s] by simp
  from escape_string_loop_eq [OF _ this, of 0 "[]"] show ?thesis
    by (simp add: switch_escape_string_pool_def switch_escape_string_def Let_def)
qed

text \<open>\<open>switch_escape_string\<close> writes past a buffer that is as large as \<open>outlen\<close> says.\<close>

lemma escape_string_ignores_outlen: "switch_escape_string ''a b'' (replicate 4 NUL) 4 = Inl Out_Of_Bounds"
  by (simp add: switch_escape_string_def mem_write_def escape_seq_def code_def)

text \<open>The pool memory of \<open>switch_escape_char\<close> comes cleared, so the copy is terminated.\<close>

definition count_delims :: "string \<Rightarrow> string \<Rightarrow> nat" where
  "count_delims inp delim = sum_list (map (\<lambda>p. length (filter (\<lambda>d. p = d) delim)) inp)"

fun escape_char_loop :: "string \<Rightarrow> string \<Rightarrow> char \<Rightarrow> nat \<Rightarrow> string \<Rightarrow> string c" where
  "escape_char_loop [] delim esc i data = Inr data"
| "escape_char_loop (p # ps) delim esc i data =
     (let pre = replicate (length (filter (\<lambda>d. p = d) delim)) esc @ [p]
      in bindE (mem_write data i pre) (escape_char_loop ps delim esc (i + length pre)))"

definition switch_escape_char :: "string \<Rightarrow> string \<Rightarrow> char \<Rightarrow> string c" where
  "switch_escape_char inp delim esc =
     (let count = 1 + count_delims inp delim
      in if count = 1 then Inr (inp @ [NUL])
         else escape_char_loop inp delim esc 0 (replicate (length inp + count) NUL))"

section \<open>Markup\<close>

definition amp_seq :: "char \<Rightarrow> string" where
  "amp_seq p =
     (if p = DQ then ''&quot;'' else if p = SQ then ''&apos;'' else if p = CHR ''&'' then ''&amp;''
      else if p = CHR ''<'' then ''&lt;'' else if p = CHR ''>'' then ''&gt;'' else [p])"

text \<open>
  The loop ends at the terminating NUL, which it copies like any other character, or when the next
  sequence does not leave a byte free. The string is given with its NUL.
\<close>

fun amp_encode_loop :: "string \<Rightarrow> nat \<Rightarrow> nat \<Rightarrow> string \<Rightarrow> string c" where
  "amp_encode_loop [] x len buf = Inl Out_Of_Bounds"
| "amp_encode_loop (p # ps) x len buf =
     (if \<not> x < len then Inr buf
      else if x + length (amp_seq p) > size_sub len 1 then Inr buf
      else bindE (mem_write buf x (amp_seq p)) (\<lambda>buf.
             if p = NUL then Inr buf else amp_encode_loop ps (x + length (amp_seq p)) len buf))"

definition switch_amp_encode :: "string \<Rightarrow> string \<Rightarrow> nat \<Rightarrow> string c" where
  "switch_amp_encode s buf len = amp_encode_loop (s @ [NUL]) 0 len buf"

definition amped :: "string \<Rightarrow> string" where
  "amped s = concat (map amp_seq s)"

lemma amped_Cons: "amped (c # s) = amp_seq c @ amped s"
  by (simp add: amped_def)

lemma amp_seq_props: "0 < length (amp_seq c)" "amp_seq NUL = [NUL]"
  by (simp_all add: amp_seq_def special_chars NUL_def chr_def char_of_def)

lemma amp_encode_loop_eq:
  assumes "x = length pre" and "length pre + length r = len" and "x \<le> len - 1" and "0 < len" and "len < size_mod"
    and "NUL \<notin> set s"
  shows "\<exists>k. amp_encode_loop (s @ [NUL]) x len (pre @ r) =
       Inr (pre @ amped (take k (s @ [NUL])) @ drop (length (amped (take k (s @ [NUL])))) r) \<and>
     x + length (amped (take k (s @ [NUL]))) \<le> len - 1 \<and>
     (x + length (amped s) + 1 \<le> len - 1 \<longrightarrow> k = Suc (length s))"
  using assms(1-3,6)
proof (induction s arbitrary: x pre r)
  case Nil
  have sz: "size_sub len 1 = len - 1" using assms(4,5) by (intro size_sub_small) simp_all
  show ?case
  proof (cases "x + 1 \<le> len - 1")
    case True
    then have "x < len" "Suc 0 \<le> length r" using Nil.prems assms(4) by auto
    then show ?thesis using True Nil.prems sz mem_write_at [of x pre "[NUL]" r]
      by (intro exI [of _ "1::nat"]) (simp add: amp_seq_props amped_def)
  next
    case False
    then show ?thesis using Nil.prems sz
      by (intro exI [of _ "0::nat"]) (simp add: amp_seq_props amped_def)
  qed
next
  case (Cons c s)
  have sz: "size_sub len 1 = len - 1" using assms(4,5) by (intro size_sub_small) simp_all
  have xl: "x < len" using Cons.prems assms(4) by simp
  let ?e = "amp_seq c"
  show ?case
  proof (cases "x + length ?e \<le> len - 1")
    case True
    then have "mem_write (pre @ r) x ?e = Inr ((pre @ ?e) @ drop (length ?e) r)"
      using Cons.prems by (subst mem_write_at) simp_all
    then have "amp_encode_loop ((c # s) @ [NUL]) x len (pre @ r) =
        amp_encode_loop (s @ [NUL]) (x + length ?e) len ((pre @ ?e) @ drop (length ?e) r)"
      using True Cons.prems xl sz by auto
    moreover obtain k where "amp_encode_loop (s @ [NUL]) (x + length ?e) len ((pre @ ?e) @ drop (length ?e) r) =
         Inr ((pre @ ?e) @ amped (take k (s @ [NUL])) @ drop (length (amped (take k (s @ [NUL])))) (drop (length ?e) r))"
       "x + length ?e + length (amped (take k (s @ [NUL]))) \<le> len - 1"
       "x + length ?e + length (amped s) + 1 \<le> len - 1 \<longrightarrow> k = Suc (length s)"
      using Cons.IH [of "x + length ?e" "pre @ ?e" "drop (length ?e) r"] Cons.prems True by auto
    ultimately show ?thesis by (intro exI [of _ "Suc k"]) (simp add: amped_Cons add.commute add.left_commute)
  next
    case False
    then show ?thesis using xl sz Cons.prems
      by (intro exI [of _ "0::nat"]) (auto simp: amped_Cons, simp_all add: amped_def)
  qed
qed

text \<open>
  The markup encoder stays inside its buffer whatever the length; what it writes is the encoding of a
  prefix of the string, and the encoding of all of it, with its NUL, when that leaves one byte unused.
\<close>

theorem amp_encode_spec:
  assumes "NUL \<notin> set s" and "length buf = len" and "0 < len" and "len < size_mod"
  shows "\<exists>k. switch_amp_encode s buf len =
       Inr (amped (take k (s @ [NUL])) @ drop (length (amped (take k (s @ [NUL])))) buf) \<and>
     length (amped (take k (s @ [NUL]))) \<le> len - 1 \<and>
     (length (amped s) + 1 \<le> len - 1 \<longrightarrow> take k (s @ [NUL]) = s @ [NUL])"
proof -
  obtain k where "amp_encode_loop (s @ [NUL]) 0 len ([] @ buf) =
       Inr ([] @ amped (take k (s @ [NUL])) @ drop (length (amped (take k (s @ [NUL])))) buf)"
     "0 + length (amped (take k (s @ [NUL]))) \<le> len - 1" "0 + length (amped s) + 1 \<le> len - 1 \<longrightarrow> k = Suc (length s)"
    using amp_encode_loop_eq [of 0 "[]" buf len s] assms by auto
  then show ?thesis by (intro exI [of _ k]) (simp add: switch_amp_encode_def)
qed

theorem amp_encode_spec_witness:
  "\<exists>k. switch_amp_encode ''a<b'' (replicate 9 NUL) 9 =
       Inr (amped (take k (''a<b'' @ [NUL])) @ drop (length (amped (take k (''a<b'' @ [NUL])))) (replicate 9 NUL)) \<and>
     take k (''a<b'' @ [NUL]) = ''a<b'' @ [NUL]"
proof -
  have "NUL \<notin> set ''a<b''" by (simp add: NUL_def chr_def char_of_def)
  moreover have "length (amped ''a<b'') + 1 \<le> 9 - 1" by (simp add: amped_def amp_seq_def special_chars)
  ultimately show ?thesis using amp_encode_spec [of "''a<b''" "replicate 9 NUL" 9] by (auto simp: size_mod_def)
qed

text \<open>An encoding that fits exactly is left without its NUL.\<close>

lemma amp_encode_unterminated: "switch_amp_encode ''ab'' (replicate 3 CHR ''x'') 3 = Inr ''abx''"
proof -
  have "size_sub 3 1 = 2" by (simp add: size_sub_def size_mod_def)
  moreover have "CHR ''a'' \<noteq> NUL" "CHR ''b'' \<noteq> NUL" by (simp_all add: NUL_def chr_def char_of_def)
  ultimately show ?thesis
    by (simp add: switch_amp_encode_def amp_seq_def special_chars mem_write_def amp_seq_props numeral_3_eq_3)
qed

section \<open>Dial patterns\<close>

text \<open>\<open>strlen\<close>, \<open>strncat\<close> and a store at the end of the string, on the memory of the buffer.\<close>

definition strlen_c :: "string \<Rightarrow> nat c" where
  "strlen_c m = (if NUL \<in> set m then Inr (length (cstr m)) else Inl Out_Of_Bounds)"

definition strncat_c :: "string \<Rightarrow> string \<Rightarrow> nat \<Rightarrow> string c" where
  "strncat_c m s n = bindE (strlen_c m) (\<lambda>k. mem_write m k (take n s @ [NUL]))"

definition put_end :: "string \<Rightarrow> char \<Rightarrow> string c" where
  "put_end m c = bindE (strlen_c m) (\<lambda>k. mem_write m k [c])"

definition ast2regex_step :: "nat \<Rightarrow> char \<Rightarrow> string \<Rightarrow> string c" where
  "ast2regex_step len p rbuf =
     bindE (strlen_c rbuf) (\<lambda>k.
       if p = CHR ''N'' then strncat_c rbuf ''[2-9]'' (size_sub len k)
       else if p = CHR ''X'' then strncat_c rbuf ''[0-9]'' (size_sub len k)
       else if p = CHR ''Z'' then strncat_c rbuf ''[1-9]'' (size_sub len k)
       else if p = CHR ''.'' then strncat_c rbuf ''.*'' (size_sub len k)
       else if k < size_sub len 1 then put_end rbuf p
       else Inr rbuf)"

fun ast2regex_loop :: "nat \<Rightarrow> string \<Rightarrow> string \<Rightarrow> string c" where
  "ast2regex_loop len [] rbuf = Inr rbuf"
| "ast2regex_loop len (p # ps) rbuf = bindE (ast2regex_step len p rbuf) (ast2regex_loop len ps)"

text \<open>The memory after the call, and whether the pattern was changed. The buffer has \<open>len\<close> bytes.\<close>

definition switch_ast2regex :: "string option \<Rightarrow> string \<Rightarrow> nat \<Rightarrow> (bool \<times> string) c" where
  "switch_ast2regex pat rbuf len = (case pat of None \<Rightarrow> Inr (False, rbuf) | Some p \<Rightarrow>
     bindE (mem_write rbuf 0 (replicate len NUL)) (\<lambda>m.
     bindE (put_end m CHR ''^'') (\<lambda>m.
     bindE (ast2regex_loop len p m) (\<lambda>m.
     bindE (put_end m CHR ''$'') (\<lambda>m.
     bindE (strlen_c m) (\<lambda>_. Inr (p \<noteq> cstr m, m)))))))"

definition ast_seq :: "char \<Rightarrow> string" where
  "ast_seq p = (if p = CHR ''N'' then ''[2-9]'' else if p = CHR ''X'' then ''[0-9]'' else if p = CHR ''Z'' then ''[1-9]''
     else if p = CHR ''.'' then ''.*'' else [p])"

definition ast_regex :: "string \<Rightarrow> string" where
  "ast_regex s = CHR ''^'' # concat (map ast_seq s)"

lemma length_ast_seq: "length (ast_seq p) \<le> 5" "0 < length (ast_seq p)"
  by (simp_all add: ast_seq_def)

text \<open>The buffer during the translation: the text so far, and cleared bytes.\<close>

lemma cstr_clear: "NUL \<notin> set t \<Longrightarrow> cstr (t @ replicate (Suc n) NUL) = t"
  using cstr_append [of t "replicate n NUL"] by simp

lemma strlen_clear: "NUL \<notin> set t \<Longrightarrow> strlen_c (t @ replicate (Suc n) NUL) = Inr (length t)"
  using cstr_clear [of t n] by (simp add: strlen_c_def)

lemma write_clear: "length s \<le> n \<Longrightarrow> mem_write (t @ replicate n NUL) (length t) s = Inr ((t @ s) @ replicate (n - length s) NUL)"
  by (simp add: mem_write_at)

lemma ast2regex_step_eq:
  assumes "NUL \<notin> set t" and "length t + Suc n = len" and "length (ast_seq p) + 1 \<le> n" and "len < size_mod"
  shows "ast2regex_step len p (t @ replicate (Suc n) NUL) = Inr ((t @ ast_seq p) @ replicate (Suc n - length (ast_seq p)) NUL)"
proof -
  have sz: "size_sub len (length t) = Suc n" "size_sub len 1 = len - 1"
    using assms(2,4) by (auto intro!: size_sub_small [THEN trans])
  have cat: "strncat_c (t @ replicate (Suc n) NUL) s (Suc n) = Inr ((t @ s) @ replicate (Suc n - length s) NUL)"
    if "length s + 1 \<le> n" for s
  proof -
    have "mem_write (t @ replicate (Suc n) NUL) (length t) (s @ [NUL]) = Inr ((t @ s @ [NUL]) @ replicate (n - length s) NUL)"
      using that write_clear [of "s @ [NUL]" "Suc n" t] by simp
    moreover have "[NUL] @ replicate (n - length s) NUL = replicate (Suc n - length s) NUL"
      using that by (simp add: Suc_diff_le)
    ultimately show ?thesis using that by (simp add: strncat_c_def strlen_clear [OF assms(1)] del: replicate.simps)
  qed
  have one: "put_end (t @ replicate (Suc n) NUL) p = Inr ((t @ [p]) @ replicate n NUL)"
    using write_clear [of "[p]" "Suc n" t] by (simp add: put_end_def strlen_clear [OF assms(1)] del: replicate.simps)
  have lt: "length t < len - 1" using assms(2,3) length_ast_seq(2) [of p] by simp
  show ?thesis using assms(3) cat [of "ast_seq p"] one lt sz(2)
    by (auto simp: ast2regex_step_def strlen_clear [OF assms(1)] sz(1) ast_seq_def simp del: replicate.simps)
qed

lemma ast2regex_loop_eq:
  assumes "NUL \<notin> set t" and "NUL \<notin> set ps" and "length t + Suc n = len" and "length (concat (map ast_seq ps)) + 1 \<le> n"
    and "len < size_mod"
  shows "ast2regex_loop len ps (t @ replicate (Suc n) NUL) =
     Inr ((t @ concat (map ast_seq ps)) @ replicate (Suc n - length (concat (map ast_seq ps))) NUL)"
  using assms(1-4)
proof (induction ps arbitrary: t n)
  case (Cons p ps)
  let ?e = "ast_seq p"
  have le: "length ?e + length (concat (map ast_seq ps)) + 1 \<le> n" using Cons.prems by simp
  have e: "NUL \<notin> set ?e" using Cons.prems(2) by (auto simp: ast_seq_def NUL_def chr_def char_of_def)
  have st: "ast2regex_step len p (t @ replicate (Suc n) NUL) = Inr ((t @ ?e) @ replicate (Suc (n - length ?e)) NUL)"
    using ast2regex_step_eq [of t n len p] Cons.prems le assms(5) by (simp add: Suc_diff_le)
  have "ast2regex_loop len ps ((t @ ?e) @ replicate (Suc (n - length ?e)) NUL) =
      Inr (((t @ ?e) @ concat (map ast_seq ps)) @ replicate (Suc (n - length ?e) - length (concat (map ast_seq ps))) NUL)"
    using Cons.prems le e by (intro Cons.IH) auto
  moreover have "Suc (n - length ?e) - length (concat (map ast_seq ps)) = Suc n - length (concat (map ast_seq (p # ps)))"
    using le by simp
  ultimately show ?case using st by (simp del: replicate.simps append_assoc)
qed simp

text \<open>
  C32. A dial pattern is translated to the anchored regular expression, with the digit classes for N, X
  and Z and \<open>.*\<close> for a dot, without leaving the buffer, when the buffer holds five bytes per character and
  three more.
\<close>

theorem ast2regex_spec:
  assumes "NUL \<notin> set pat" and "length rbuf = len" and "5 * length pat + 3 \<le> len" and "len < size_mod"
  shows "\<exists>m. switch_ast2regex (Some pat) rbuf len = Inr (pat \<noteq> cstr m, m) \<and>
     cstr m = CHR ''^'' # concat (map ast_seq pat) @ ''$''"
proof -
  let ?c = "concat (map ast_seq pat)"
  have lc: "length ?c \<le> 5 * length pat"
  proof (induction pat)
    case (Cons a p)
    then show ?case using length_ast_seq(1) [of a] by simp
  qed simp
  obtain n where n: "len = Suc (Suc n)" "length ?c + 1 \<le> n"
    using lc assms(3) by (cases len; cases "len - 1") auto
  define k where "k = n - length ?c"
  have nz: "CHR ''^'' \<noteq> NUL" "CHR ''$'' \<noteq> NUL" by (simp_all add: NUL_def chr_def char_of_def)
  have nc: "NUL \<notin> set ?c" using assms(1) by (induction pat) (auto simp: ast_seq_def NUL_def chr_def char_of_def)
  have 1: "mem_write rbuf 0 (replicate len NUL) = Inr (replicate len NUL)"
    using assms(2) by (simp add: mem_write_def)
  have "strlen_c (replicate len NUL) = Inr 0" using strlen_clear [of "[]" "Suc n"] n(1) by simp
  then have 2: "put_end (replicate len NUL) CHR ''^'' = Inr (''^'' @ replicate (Suc n) NUL)"
    using write_clear [of "''^''" len "[]"] n(1) by (simp add: put_end_def)
  have 3: "ast2regex_loop len pat (''^'' @ replicate (Suc n) NUL) = Inr ((''^'' @ ?c) @ replicate (Suc k) NUL)"
    using ast2regex_loop_eq [of "''^''" pat n len] assms(1,4) n nz by (simp add: k_def Suc_diff_le)
  have "strlen_c ((''^'' @ ?c) @ replicate (Suc k) NUL) = Inr (length (''^'' @ ?c))"
    using nc nz by (intro strlen_clear) auto
  then have 4: "put_end ((''^'' @ ?c) @ replicate (Suc k) NUL) CHR ''$'' = Inr ((''^'' @ ?c @ ''$'') @ replicate k NUL)"
    using write_clear [of "''$''" "Suc k" "''^'' @ ?c"] by (simp add: put_end_def del: replicate.simps)
  obtain k' where k': "k = Suc k'" using n(2) by (cases k) (auto simp: k_def)
  have "NUL \<notin> set (''^'' @ ?c @ ''$'')" using nc nz by auto
  from cstr_clear [OF this, of k'] strlen_clear [OF this, of k']
  have "cstr ((''^'' @ ?c @ ''$'') @ replicate k NUL) = ''^'' @ ?c @ ''$''"
    "\<exists>z. strlen_c ((''^'' @ ?c @ ''$'') @ replicate k NUL) = Inr z" by (simp_all only: k') blast
  then show ?thesis unfolding switch_ast2regex_def by (auto simp only: 1 2 3 4 bindE_simps option.case) simp
qed

theorem ast2regex_spec_witness:
  "\<exists>m. switch_ast2regex (Some ''1N.'') (replicate 18 NUL) 18 = Inr (''1N.'' \<noteq> cstr m, m) \<and> cstr m = ''^1[2-9].*$''"
proof -
  have "NUL \<notin> set ''1N.''" by (simp add: NUL_def chr_def char_of_def)
  from ast2regex_spec [OF this, of "replicate 18 NUL" 18] show ?thesis by (simp add: size_mod_def ast_seq_def)
qed

text \<open>With a buffer that is too small the result has no NUL, and the final comparison reads past the buffer.\<close>

lemma ast2regex_overflow: "switch_ast2regex (Some ''a'') (replicate 2 NUL) 2 = Inl Out_Of_Bounds"
proof -
  have "CHR ''^'' \<noteq> NUL" "CHR ''a'' \<noteq> NUL" "CHR ''$'' \<noteq> NUL" by (simp_all add: NUL_def chr_def char_of_def)
  moreover have "size_sub 2 1 = 1" by (simp add: size_sub_def size_mod_def)
  ultimately show ?thesis
    by (simp add: switch_ast2regex_def mem_write_def put_end_def strlen_c_def cstr_def ast2regex_step_def numeral_2_eq_2)
qed

end
