(* ===== verification/FS_Base64.thy ===== *)
theory FS_Base64
  imports FS_Encode
begin

text \<open>
  Base64, \<open>switch_b64_encode\<close> and \<open>switch_b64_decode\<close> of
  \<^verbatim>\<open>src/src/lib/libfreeswitch/switch_utils.c\<close>, with their 32-bit accumulators and the real sizes of the
  output buffers. The proofs see an accumulator of which \<open>l\<close> bits are pending as the list of these bits,
  the most significant first. The counter \<open>y\<close> of the encoder has no effect (the line break it was for is
  commented out in the source) and is left out.
\<close>

section \<open>Definitions\<close>

definition switch_b64_table :: string where
  "switch_b64_table = ''ABCDEFGHIJKLMNOPQRSTUVWXYZabcdefghijklmnopqrstuvwxyz0123456789+/''"

text \<open>The conversion of a \<open>size_t\<close> to \<open>int\<close>.\<close>

definition to_int :: "nat \<Rightarrow> int" where
  "to_int n = signed_take_bit 31 (int n)"

text \<open>The inner loop: it stops early when the buffer has only the byte of the NUL left.\<close>

function b64_emit :: "u32 \<Rightarrow> nat \<Rightarrow> nat \<Rightarrow> nat \<Rightarrow> string \<Rightarrow> (bool \<times> nat \<times> nat \<times> string) c" where
  "b64_emit b l bytes olen out =
     (if l \<ge> 6 then
        bindE (mem_write out bytes [switch_b64_table ! (unat (drop_bit (l - 6) b) mod 64)]) (\<lambda>out.
          if int (bytes + 1) \<ge> to_int olen - 1 then Inr (True, l - 6, bytes + 1, out)
          else b64_emit b (l - 6) (bytes + 1) olen out)
      else Inr (False, l, bytes, out))"
  by pat_completeness auto
termination by (relation "measure (\<lambda>(b, l, bytes, olen, out). l)") auto

declare b64_emit.simps [simp del]

fun b64_encode_loop :: "u8 list \<Rightarrow> u32 \<Rightarrow> nat \<Rightarrow> nat \<Rightarrow> nat \<Rightarrow> string \<Rightarrow> (bool \<times> u32 \<times> nat \<times> nat \<times> string) c" where
  "b64_encode_loop [] b l bytes olen out = Inr (False, b, l, bytes, out)"
| "b64_encode_loop (x # xs) b l bytes olen out =
     (let b = push_bit 8 b + ucast x
      in bindE (b64_emit b (l + 8) bytes olen out) (\<lambda>(stop, l, bytes, out).
           if stop then Inr (True, b, l, bytes, out) else b64_encode_loop xs b l bytes olen out))"

function b64_pad :: "nat \<Rightarrow> nat \<Rightarrow> nat \<Rightarrow> string \<Rightarrow> (nat \<times> string) c" where
  "b64_pad l bytes olen out =
     (if l < 6 \<and> int bytes < to_int olen - 1
      then bindE (mem_write out bytes ''='') (b64_pad (l + 2) (bytes + 1) olen)
      else Inr (bytes, out))"
  by pat_completeness auto
termination by (relation "measure (\<lambda>(l, bytes, olen, out). 6 - l)") auto

declare b64_pad.simps [simp del]

definition switch_b64_encode :: "u8 list \<Rightarrow> string \<Rightarrow> nat \<Rightarrow> (switch_status_t \<times> string) c" where
  "switch_b64_encode inp out olen =
     bindE (b64_encode_loop inp 0 0 0 olen out) (\<lambda>(stop, b, l, bytes, out).
     bindE (if stop \<or> l = 0 then Inr (bytes, out)
            else bindE (mem_write out bytes [switch_b64_table ! (unat (push_bit (6 - l) (b mod 16)) mod 64)])
                   (b64_pad l (bytes + 1) olen)) (\<lambda>(bytes, out).
     bindE (mem_write out bytes [NUL]) (\<lambda>out. Inr (SWITCH_STATUS_SUCCESS, out))))"

text \<open>
  The reverse table, filled by the two loops of the decoder. Its index is a signed \<open>char\<close>: a byte above 127
  reads in front of the table.
\<close>

definition l64 :: "int list" where
  "l64 = fold (\<lambda>i t. t[code (switch_b64_table ! i) := int i]) [0..<64] (replicate 256 (- 1))"

definition l64_at :: "char \<Rightarrow> int c" where
  "l64_at c = (if code c < 128 then Inr (l64 ! code c) else Inl Out_Of_Bounds)"

text \<open>
  The accumulator \<open>b\<close> is an \<open>int\<close> and wraps. The cast of \<open>(b >> l) % 256\<close> to \<open>char\<close> is the low byte of the
  arithmetic shift.
\<close>

function b64_decode_emit :: "u32 \<Rightarrow> nat \<Rightarrow> nat \<Rightarrow> nat \<Rightarrow> u8 list \<Rightarrow> (bool \<times> nat \<times> nat \<times> u8 list) c" where
  "b64_decode_emit b l ol olen out =
     (if l \<ge> 8 then
        bindE (mem_write out ol [ucast (signed_drop_bit (l - 8) b)]) (\<lambda>out.
          if ol + 1 \<ge> size_sub olen 2 then Inr (True, l - 8, ol + 1, out)
          else b64_decode_emit b (l - 8) (ol + 1) olen out)
      else Inr (False, l, ol, out))"
  by pat_completeness auto
termination by (relation "measure (\<lambda>(b, l, ol, olen, out). l)") auto

declare b64_decode_emit.simps [simp del]

fun b64_decode_loop :: "string \<Rightarrow> u32 \<Rightarrow> nat \<Rightarrow> nat \<Rightarrow> nat \<Rightarrow> u8 list \<Rightarrow> (nat \<times> u8 list) c" where
  "b64_decode_loop [] b l ol olen out = Inr (ol, out)"
| "b64_decode_loop (c # cs) b l ol olen out =
     bindE (l64_at c) (\<lambda>v.
       if v = - 1 then b64_decode_loop cs b l ol olen out
       else let b = push_bit 6 b + of_int v
            in bindE (b64_decode_emit b (l + 6) ol olen out) (\<lambda>(stop, l, ol, out).
                 if stop then Inr (ol, out) else b64_decode_loop cs b l ol olen out))"

text \<open>The result counts the terminating NUL.\<close>

definition switch_b64_decode :: "string \<Rightarrow> u8 list \<Rightarrow> nat \<Rightarrow> (nat \<times> u8 list) c" where
  "switch_b64_decode inp out olen =
     bindE (b64_decode_loop inp 0 0 0 olen out) (\<lambda>(ol, out).
     bindE (mem_write out ol [0]) (\<lambda>out. Inr (ol + 1, out)))"

section \<open>Bit strings\<close>

fun lowbits :: "nat \<Rightarrow> nat \<Rightarrow> bool list" where
  "lowbits 0 w = []"
| "lowbits (Suc n) w = bit w n # lowbits n w"

fun bitsval :: "bool list \<Rightarrow> nat" where
  "bitsval [] = 0"
| "bitsval (b # bs) = of_bool b * 2 ^ length bs + bitsval bs"

lemma length_lowbits [simp]: "length (lowbits n w) = n"
  by (induction n) simp_all

lemma bitsval_lowbits: "bitsval (lowbits n w) = take_bit n w"
  by (induction n) (simp_all add: take_bit_Suc_from_most algebra_simps)

lemma bit_split:
  assumes "x < 2 ^ k"
  shows "bit (2 ^ k * a + x :: nat) n \<longleftrightarrow> (if n < k then bit x n else bit a (n - k))"
proof -
  have "take_bit k (2 ^ k * a + x) = x" "drop_bit k (2 ^ k * a + x) = a"
    using assms by (simp_all add: take_bit_eq_mod drop_bit_eq_div)
  then have "bit x n \<longleftrightarrow> n < k \<and> bit (2 ^ k * a + x) n" "bit a (n - k) \<longleftrightarrow> bit (2 ^ k * a + x) (k + (n - k))"
    by (metis bit_take_bit_iff, metis bit_drop_bit_eq comp_apply)
  then show ?thesis by auto
qed

lemma lowbits_append:
  assumes "x < 2 ^ k"
  shows "lowbits (n + k) (2 ^ k * a + x) = lowbits n a @ lowbits k x"
proof -
  have "m \<le> k \<Longrightarrow> lowbits m (2 ^ k * a + x) = lowbits m x" for m
    by (induction m) (simp_all add: bit_split [OF assms])
  then have "lowbits k (2 ^ k * a + x) = lowbits k x" by simp
  then show ?thesis by (induction n) (simp_all add: bit_split [OF assms])
qed

lemma lowbits_take_bit: "n \<le> m \<Longrightarrow> lowbits n (take_bit m w) = lowbits n w"
  by (induction n) (simp_all add: bit_take_bit_iff)

lemma lowbits_split: "lowbits (k + j) w = lowbits k (drop_bit j w) @ lowbits j w"
proof -
  have "2 ^ j * drop_bit j w + take_bit j w = w" by (simp add: drop_bit_eq_div take_bit_eq_mod)
  then have "lowbits (k + j) w = lowbits k (drop_bit j w) @ lowbits j (take_bit j w)"
    using lowbits_append [of "take_bit j w" j k "drop_bit j w"] by (simp add: take_bit_nat_less_exp)
  then show ?thesis by (simp add: lowbits_take_bit)
qed

lemma take_drop_lowbits:
  assumes "k \<le> n"
  shows "take k (lowbits n w) = lowbits k (drop_bit (n - k) w)" "drop k (lowbits n w) = lowbits (n - k) w"
  using lowbits_split [of k "n - k" w] assms by simp_all

lemma lowbits_inj: "lowbits n v = lowbits n w \<Longrightarrow> take_bit n v = take_bit n w"
  by (metis bitsval_lowbits)

lemma bitsval_less: "bitsval bs < 2 ^ length bs"
  by (induction bs) (auto simp: of_bool_def)

lemma lowbits_bitsval: "lowbits (length bs) (bitsval bs) = bs"
proof (induction bs)
  case (Cons b bs)
  have "bitsval (b # bs) = 2 ^ length bs * of_bool b + bitsval bs" by simp
  with Cons lowbits_append [OF bitsval_less [of bs], of 1 "of_bool b"] show ?case
    by (cases b) (simp_all add: bit_0 bit_1_iff)
qed simp

section \<open>The abstract codec\<close>

text \<open>Full groups of bits, and what is left over.\<close>

function groups :: "nat \<Rightarrow> bool list \<Rightarrow> bool list list" where
  "groups k bs = (if 0 < k \<and> k \<le> length bs then take k bs # groups k (drop k bs) else [])"
  by pat_completeness auto
termination by (relation "measure (\<lambda>(k, bs). length bs)") auto

declare groups.simps [simp del]

definition rest :: "nat \<Rightarrow> bool list \<Rightarrow> bool list" where
  "rest k bs = drop (k * (length bs div k)) bs"

lemma groups_short [simp]: "length bs < k \<Longrightarrow> groups k bs = []" "length bs < k \<Longrightarrow> rest k bs = bs"
  by (subst groups.simps, simp) (simp add: rest_def)

lemma groups_step:
  assumes "0 < k" and "k \<le> length bs"
  shows "groups k bs = take k bs # groups k (drop k bs)" "rest k bs = rest k (drop k bs)"
proof -
  show "groups k bs = take k bs # groups k (drop k bs)" using assms by (subst groups.simps) simp
  have "length bs div k = Suc ((length bs - k) div k)" using assms by (simp add: le_div_geq)
  then show "rest k bs = rest k (drop k bs)" using assms by (simp add: rest_def add.commute)
qed

lemma length_rest: "0 < k \<Longrightarrow> length (rest k bs) = length bs mod k"
  by (simp add: rest_def modulo_nat_def mult.commute)

lemma groups_append:
  assumes "0 < k"
  shows "groups k (as @ bs) = groups k as @ groups k (rest k as @ bs)" "rest k (as @ bs) = rest k (rest k as @ bs)"
proof -
  have "groups k (as @ bs) = groups k as @ groups k (rest k as @ bs) \<and> rest k (as @ bs) = rest k (rest k as @ bs)"
  proof (induction "length as" arbitrary: as rule: less_induct)
    case less
    show ?case
    proof (cases "length as < k")
      case False
      then have "groups k (drop k as @ bs) = groups k (drop k as) @ groups k (rest k (drop k as) @ bs) \<and>
          rest k (drop k as @ bs) = rest k (rest k (drop k as) @ bs)"
        using assms by (intro less) simp
      then show ?thesis using assms False groups_step [of k as] groups_step [of k "as @ bs"] by simp
    qed simp
  qed
  then show "groups k (as @ bs) = groups k as @ groups k (rest k as @ bs)" "rest k (as @ bs) = rest k (rest k as @ bs)"
    by simp_all
qed

lemma concat_groups: "0 < k \<Longrightarrow> concat (groups k bs) @ rest k bs = bs"
proof (induction "length bs" arbitrary: bs rule: less_induct)
  case less
  show ?case
  proof (cases "length bs < k")
    case False
    then have "concat (groups k (drop k bs)) @ rest k (drop k bs) = drop k bs" using less by simp
    then show ?thesis using False less.prems groups_step [of k bs] by simp
  qed simp
qed

lemma groups_length: "0 < k \<Longrightarrow> g \<in> set (groups k bs) \<Longrightarrow> length g = k"
proof (induction "length bs" arbitrary: bs rule: less_induct)
  case less
  then have k: "\<not> length bs < k" using groups_short(1) by fastforce
  then consider "g = take k bs" | "g \<in> set (groups k (drop k bs))" using less.prems groups_step(1) [of k bs] by auto
  then show ?case
  proof cases
    case 2
    then show ?thesis using k less.prems less.hyps [of "drop k bs"] by simp
  qed (use k in simp)
qed

lemma groups_concat:
  assumes "0 < k" and "\<forall>g \<in> set gs. length g = k" and "length r < k"
  shows "groups k (concat gs @ r) = gs" "rest k (concat gs @ r) = r"
proof -
  have "groups k (concat gs @ r) = gs \<and> rest k (concat gs @ r) = r"
    using assms(2)
  proof (induction gs)
    case (Cons g gs)
    then have "length g = k" by simp
    then have "k \<le> length (concat (g # gs) @ r)" "take k (concat (g # gs) @ r) = g"
        "drop k (concat (g # gs) @ r) = concat gs @ r" by simp_all
    with Cons groups_step [OF assms(1), of "concat (g # gs) @ r"] show ?case by simp
  qed (simp add: assms(3))
  then show "groups k (concat gs @ r) = gs" "rest k (concat gs @ r) = r" by simp_all
qed

section \<open>The encoder\<close>

definition sextets :: "bool list \<Rightarrow> string" where
  "sextets bs = map (\<lambda>g. switch_b64_table ! bitsval g) (groups 6 bs)"

definition byte_bits :: "u8 list \<Rightarrow> bool list" where
  "byte_bits xs = concat (map (\<lambda>x. lowbits 8 (unat x)) xs)"

lemma sextets_short [simp]: "length bs < 6 \<Longrightarrow> sextets bs = []"
  by (simp add: sextets_def)

lemma sextets_step: "6 \<le> length bs \<Longrightarrow> sextets bs = switch_b64_table ! bitsval (take 6 bs) # sextets (drop 6 bs)"
  by (simp add: sextets_def groups_step)

lemma sextets_append: "sextets (as @ bs) = sextets as @ sextets (rest 6 as @ bs)"
  using groups_append(1) [of 6 as bs] by (simp only: sextets_def map_append)

lemma emit_value:
  assumes "6 \<le> l"
  shows "unat (drop_bit (l - 6) (b :: u32)) mod 64 = bitsval (take 6 (lowbits l (unat b)))"
proof -
  have "bitsval (take 6 (lowbits l (unat b))) = take_bit 6 (drop_bit (l - 6) (unat b))"
    using take_drop_lowbits(1) [OF assms] by (simp add: bitsval_lowbits)
  then show ?thesis by (simp add: take_bit_eq_mod unat_drop_bit_eq)
qed

text \<open>\<open>room\<close> is the number of characters that fit before the NUL.\<close>

lemma b64_emit_eq:
  assumes "bytes = length pre" and "length pre + length r = olen" and "bytes + 1 < olen" and "to_int olen = int olen"
  shows "b64_emit b l bytes olen (pre @ r) =
     (let cs = sextets (lowbits l (unat b)); room = olen - 1 - bytes
      in if length cs < room then Inr (False, length (rest 6 (lowbits l (unat b))), bytes + length cs, pre @ cs @ drop (length cs) r)
         else Inr (True, l - 6 * room, olen - 1, pre @ take room cs @ drop room r))"
  using assms(1-3)
proof (induction l arbitrary: bytes pre r rule: less_induct)
  case (less l)
  show ?case
  proof (cases "6 \<le> l")
    case False
    then show ?thesis using less.prems by (subst b64_emit.simps) simp
  next
    case True
    let ?c = "switch_b64_table ! bitsval (take 6 (lowbits l (unat b)))" and ?cs = "sextets (lowbits (l - 6) (unat b))"
    have cs: "sextets (lowbits l (unat b)) = ?c # ?cs" "rest 6 (lowbits l (unat b)) = rest 6 (lowbits (l - 6) (unat b))"
      using True sextets_step [of "lowbits l (unat b)"] groups_step(2) [of 6 "lowbits l (unat b)"]
        take_drop_lowbits(2) [OF True, of "unat b"] by simp_all
    have w: "mem_write (pre @ r) bytes [?c] = Inr ((pre @ [?c]) @ tl r)"
      using less.prems by (subst mem_write_at) (simp_all add: drop_Suc)
    have stop: "int (bytes + 1) \<ge> to_int olen - 1 \<longleftrightarrow> olen - 1 - bytes = 1" using less.prems assms(4) by auto
    have unf: "b64_emit b l bytes olen (pre @ r) =
        (if olen - 1 - bytes = 1 then Inr (True, l - 6, bytes + 1, (pre @ [?c]) @ tl r)
         else b64_emit b (l - 6) (bytes + 1) olen ((pre @ [?c]) @ tl r))"
      using True by (subst b64_emit.simps) (simp only: emit_value [OF True] w bindE_simps stop if_True)
    show ?thesis
    proof (cases "olen - 1 - bytes = 1")
      case one: True
      then have "bytes + 1 = olen - 1" using less.prems by simp
      then show ?thesis unfolding unf cs using one by (simp add: drop_Suc)
    next
      case more: False
      define room where "room = olen - 3 - bytes"
      have room: "olen - 1 - bytes = Suc (Suc room)" using more less.prems unfolding room_def by arith
      have "b64_emit b (l - 6) (bytes + 1) olen ((pre @ [?c]) @ tl r) =
         (let cs = ?cs; room = olen - 1 - (bytes + 1)
          in if length cs < room then Inr (False, length (rest 6 (lowbits (l - 6) (unat b))), bytes + 1 + length cs,
                 (pre @ [?c]) @ cs @ drop (length cs) (tl r))
             else Inr (True, l - 6 - 6 * room, olen - 1, (pre @ [?c]) @ take room cs @ drop room (tl r)))"
        using less.prems room True by (intro less.IH) auto
      moreover have "olen - 1 - (bytes + 1) = Suc room" using room by simp
      ultimately show ?thesis unfolding unf cs using room by (simp add: Let_def drop_Suc)
    qed
  qed
qed

text \<open>Adding a group of bits to the accumulator appends it to the pending bits.\<close>

lemma lowbits_accumulate:
  assumes "n + k \<le> 32" and "unat v < 2 ^ k"
  shows "lowbits (n + k) (unat (push_bit k b + v :: u32)) = lowbits n (unat b) @ lowbits k (unat v)"
proof -
  have "unat (push_bit k b) = take_bit 32 (2 ^ k * unat b)"
    using unsigned_push_bit_eq [where 'a=nat and n=k and w=b] by (simp add: push_bit_eq_mult [of k "unat b"] mult.commute)
  then have "unat (push_bit k b + v) = take_bit 32 (2 ^ k * unat b + unat v)"
    by (simp add: unat_word_ariths take_bit_eq_mod mod_add_left_eq)
  then show ?thesis using assms lowbits_append [OF assms(2), of n "unat b"] by (simp add: lowbits_take_bit)
qed

lemma unat_byte: "unat (ucast (x :: u8) :: u32) = unat x" "unat x < 2 ^ 8"
proof -
  have "unat x < 2 ^ LENGTH(8)" by (rule unsigned_less)
  then show lt: "unat x < 2 ^ 8" by simp
  have "unat x < 2 ^ 32" by (rule order.strict_trans [OF lt]) simp
  then show "unat (ucast x :: u32) = unat x" by (simp add: unsigned_ucast_eq take_bit_nat_eq_self)
qed

lemma byte_bits_Cons: "byte_bits (x # xs) = lowbits 8 (unat x) @ byte_bits xs"
  by (simp add: byte_bits_def)

lemma b64_encode_loop_eq:
  assumes "bytes = length pre" and "length pre + length r = olen" and "bytes + 1 < olen" and "to_int olen = int olen" and "l < 6"
    and "bits = lowbits l (unat b) @ byte_bits xs" and "cs = sextets bits" and "room = olen - 1 - bytes"
  shows "if length cs < room
     then \<exists>b'. b64_encode_loop xs b l bytes olen (pre @ r) =
                Inr (False, b', length (rest 6 bits), bytes + length cs, pre @ cs @ drop (length cs) r) \<and>
              lowbits (length (rest 6 bits)) (unat b') = rest 6 bits
     else \<exists>b' l'. b64_encode_loop xs b l bytes olen (pre @ r) =
                Inr (True, b', l', olen - 1, pre @ take room cs @ drop room r)"
  using assms(1-3,5-)
proof (induction xs arbitrary: b l bytes pre r bits cs room)
  case Nil
  then show ?case by (auto simp: byte_bits_def)
next
  case (Cons x xs)
  let ?b = "push_bit 8 b + ucast x :: u32"
  let ?now = "lowbits l (unat b) @ lowbits 8 (unat x)" and ?c1 = "sextets (lowbits l (unat b) @ lowbits 8 (unat x))"
  note ux = unat_byte [of x]
  have now: "lowbits (l + 8) (unat ?b) = ?now"
    using lowbits_accumulate [of l 8 "ucast x" b] Cons.prems(4) ux by simp
  note emit = b64_emit_eq [OF Cons.prems(1-3) assms(4), of ?b "l + 8", unfolded now]
  have bits: "bits = ?now @ byte_bits xs" using Cons.prems(5) by (simp add: byte_bits_Cons)
  have cs: "cs = ?c1 @ sextets (rest 6 ?now @ byte_bits xs)"
    unfolding Cons.prems(6) bits by (rule sextets_append)
  show ?case
  proof (cases "length ?c1 < room")
    case True
    let ?l = "length (rest 6 ?now)" and ?r = "drop (length ?c1) r"
    have e: "b64_emit ?b (l + 8) bytes olen (pre @ r) = Inr (False, ?l, bytes + length ?c1, (pre @ ?c1) @ ?r)"
      using emit True Cons.prems(7) by (simp add: Let_def)
    have l6: "?l < 6" by (simp add: length_rest)
    have rl: "rest 6 ?now = lowbits ?l (unat ?b)"
    proof -
      have "rest 6 (lowbits (l + 8) (unat ?b)) = lowbits (l + 8 - 6 * ((l + 8) div 6)) (unat ?b)"
        unfolding rest_def by (subst take_drop_lowbits(2)) simp_all
      moreover have "length (rest 6 (lowbits (l + 8) (unat ?b))) = l + 8 - 6 * ((l + 8) div 6)"
        by (simp add: rest_def)
      ultimately show ?thesis unfolding now [symmetric] by simp
    qed
    have loop: "b64_encode_loop (x # xs) b l bytes olen (pre @ r) =
        b64_encode_loop xs ?b ?l (bytes + length ?c1) olen ((pre @ ?c1) @ ?r)"
      by (simp only: b64_encode_loop.simps Let_def e bindE_simps prod.case if_False)
    have rest: "rest 6 bits = rest 6 (rest 6 ?now @ byte_bits xs)"
      unfolding bits by (rule groups_append(2)) simp
    define c2 where "c2 = sextets (rest 6 ?now @ byte_bits xs)"
    have h: "bytes + length ?c1 = length (pre @ ?c1)" "length (pre @ ?c1) + length ?r = olen" "bytes + length ?c1 + 1 < olen"
        "rest 6 ?now @ byte_bits xs = lowbits ?l (unat ?b) @ byte_bits xs" "room - length ?c1 = olen - 1 - (bytes + length ?c1)"
      using Cons.prems(1-3,7) True rl by auto
    have eqs: "pre @ cs @ drop (length cs) r = (pre @ ?c1) @ c2 @ drop (length c2) ?r" "bytes + length cs = bytes + length ?c1 + length c2"
        "pre @ take room cs @ drop room r = (pre @ ?c1) @ take (room - length ?c1) c2 @ drop (room - length ?c1) ?r"
        "length cs < room \<longleftrightarrow> length c2 < room - length ?c1"
      using True unfolding cs c2_def [symmetric] by (auto simp: add.commute)
    from Cons.IH [OF h(1-3) l6 h(4) c2_def h(5)]
    show ?thesis unfolding loop rest eqs .
  next
    case False
    then have "b64_emit ?b (l + 8) bytes olen (pre @ r) =
        Inr (True, l + 8 - 6 * room, olen - 1, pre @ take room cs @ drop room r)"
      using emit Cons.prems(7) by (simp add: Let_def cs)
    then have "b64_encode_loop (x # xs) b l bytes olen (pre @ r) =
        Inr (True, ?b, l + 8 - 6 * room, olen - 1, pre @ take room cs @ drop room r)"
      by (simp only: b64_encode_loop.simps Let_def bindE_simps prod.case if_True)
    then show ?thesis using False by (simp add: cs)
  qed
qed

text \<open>The encoding as text: full groups of six bits, and the padded last group.\<close>

definition b64_tail :: "bool list \<Rightarrow> string" where
  "b64_tail r = (if r = [] then [] else
     switch_b64_table ! bitsval (r @ replicate (6 - length r) False) # replicate ((6 - length r) div 2) CHR ''='')"

definition b64 :: "u8 list \<Rightarrow> string" where
  "b64 xs = sextets (byte_bits xs) @ b64_tail (rest 6 (byte_bits xs))"

lemma length_byte_bits: "length (byte_bits xs) = 8 * length xs"
  by (induction xs) (simp_all add: byte_bits_def)

lemma rest_lengths: "length (rest 6 (byte_bits xs)) \<in> {0, 2, 4}"
proof -
  have "8 * n mod 6 \<in> {0, 2, 4}" for n :: nat by (simp, presburger)
  then show ?thesis by (simp add: length_rest length_byte_bits)
qed

lemma bitsval_zeros: "bitsval (xs @ replicate k False) = bitsval xs * 2 ^ k"
proof -
  have "bitsval (replicate k False) = 0" for k by (induction k) simp_all
  then show ?thesis by (induction xs) (simp_all add: power_add algebra_simps)
qed

lemma tail_value:
  assumes "l \<in> {2, 4}"
  shows "unat (push_bit (6 - l) (b mod 16 :: u32)) mod 64 = bitsval (lowbits l (unat b) @ replicate (6 - l) False)"
proof -
  have "unat (b mod 16) = unat b mod 16" by (simp add: unat_mod_distrib)
  moreover have "unat b mod 16 * 2 ^ (6 - l) < 2 ^ 32"
    using assms mod_less_divisor [of 16 "unat b"] by auto
  ultimately have "unat (push_bit (6 - l) (b mod 16)) = unat b mod 16 * 2 ^ (6 - l)"
    using unsigned_push_bit_eq [where 'a=nat and n="6 - l" and w="b mod 16"]
    by (simp add: push_bit_eq_mult [of _ "unat b mod 16"] take_bit_nat_eq_self)
  moreover have "unat b mod 16 * 16 mod 64 = unat b mod 4 * 16"
    using mod_mult_mult2 [of "unat b mod 16" 16 4] by (simp add: mod_mod_cancel)
  moreover have "unat b mod 16 * 4 < 64" by simp
  ultimately show ?thesis using assms by (auto simp: bitsval_zeros bitsval_lowbits take_bit_eq_mod)
qed

lemma b64_pad_eq:
  assumes "bytes = length pre" and "length pre + length r = olen" and "bytes + 1 \<le> olen" and "to_int olen = int olen"
    and "l + 2 * n = 6"
  shows "b64_pad l bytes olen (pre @ r) =
     (let k = min n (olen - 1 - bytes) in Inr (bytes + k, pre @ replicate k CHR ''='' @ drop k r))"
  using assms(1-3,5)
proof (induction n arbitrary: l bytes pre r)
  case 0
  then show ?case by (subst b64_pad.simps) simp
next
  case (Suc n)
  show ?case
  proof (cases "bytes + 1 < olen")
    case True
    then have w: "mem_write (pre @ r) bytes ''='' = Inr ((pre @ ''='') @ drop 1 r)"
      using Suc.prems by (subst mem_write_at) simp_all
    have "b64_pad l bytes olen (pre @ r) = b64_pad (l + 2) (bytes + 1) olen ((pre @ ''='') @ drop 1 r)"
      using True Suc.prems assms(4) by (subst b64_pad.simps) (simp add: w [simplified, unfolded Suc.prems(1)])
    also have "\<dots> = (let k = min n (olen - 1 - (bytes + 1)) in
        Inr (bytes + 1 + k, (pre @ ''='') @ replicate k CHR ''='' @ drop k (drop 1 r)))"
      using True Suc.prems by (intro Suc.IH) simp_all
    moreover have "min (Suc n) (olen - 1 - bytes) = Suc (min n (olen - 1 - (bytes + 1)))" using True by auto
    ultimately show ?thesis by (simp add: Let_def)
  next
    case False
    then show ?thesis using Suc.prems assms(4) by (subst b64_pad.simps) simp
  qed
qed

lemma to_int_small: "n < 2 ^ 31 \<Longrightarrow> to_int n = int n"
  by (simp add: to_int_def signed_take_bit_int_eq_self)

lemma b64_encode_eq:
  assumes "length out = olen" and "2 \<le> olen" and "olen < 2 ^ 31"
  shows "\<exists>r. switch_b64_encode xs out olen = Inr (SWITCH_STATUS_SUCCESS, take (olen - 1) (b64 xs) @ NUL # r)"
proof -
  let ?bits = "byte_bits xs" and ?cs = "sextets (byte_bits xs)" and ?rest = "rest 6 (byte_bits xs)"
  note ti = to_int_small [OF assms(3)]
  have loop: "if length ?cs < olen - 1
     then \<exists>b'. b64_encode_loop xs 0 0 0 olen out =
                Inr (False, b', length ?rest, length ?cs, ?cs @ drop (length ?cs) out) \<and>
              lowbits (length ?rest) (unat b') = ?rest
     else \<exists>b' l'. b64_encode_loop xs 0 0 0 olen out = Inr (True, b', l', olen - 1, take (olen - 1) ?cs @ drop (olen - 1) out)"
    using b64_encode_loop_eq [of 0 "[]" out olen 0 ?bits 0 xs ?cs "olen - 1"] assms ti by (auto split: if_splits)
  have fin: "mem_write (p @ r) (length p) [NUL] = Inr (p @ NUL # drop 1 r)" if "length p + length r = olen" "length p < olen" for p r
    using that by (subst mem_write_at) auto
  show ?thesis
  proof (cases "length ?cs < olen - 1")
    case False
    then obtain b' l' where "b64_encode_loop xs 0 0 0 olen out = Inr (True, b', l', olen - 1, take (olen - 1) ?cs @ drop (olen - 1) out)"
      using loop by auto
    moreover have "length (take (olen - 1) ?cs) = olen - 1" using False by simp
    ultimately show ?thesis using False fin [of "take (olen - 1) ?cs" "drop (olen - 1) out"] assms(1,2)
      by (simp add: switch_b64_encode_def b64_def)
  next
    case True
    then obtain b' where b': "b64_encode_loop xs 0 0 0 olen out = Inr (False, b', length ?rest, length ?cs, ?cs @ drop (length ?cs) out)"
        "lowbits (length ?rest) (unat b') = ?rest" using loop by auto
    show ?thesis
    proof (cases "?rest = []")
      case e: True
      then show ?thesis using True b'(1) fin [of ?cs "drop (length ?cs) out"] assms(1,2)
        by (simp add: switch_b64_encode_def b64_def b64_tail_def)
    next
      case False
      then have l: "length ?rest \<in> {2, 4}" using rest_lengths [of xs] by auto
      define c where "c = switch_b64_table ! bitsval (?rest @ replicate (6 - length ?rest) False)"
      define n where "n = (6 - length ?rest) div 2"
      define k where "k = min n (olen - 1 - Suc (length ?cs))"
      have c: "switch_b64_table ! (unat (push_bit (6 - length ?rest) (b' mod 16)) mod 64) = c"
        unfolding c_def tail_value [OF l] b'(2) ..
      have w: "mem_write (?cs @ drop (length ?cs) out) (length ?cs) [c] = Inr ((?cs @ [c]) @ drop (Suc (length ?cs)) out)"
        using True assms(1) by (subst mem_write_at) simp_all
      have pad: "b64_pad (length ?rest) (Suc (length ?cs)) olen ((?cs @ [c]) @ drop (Suc (length ?cs)) out) =
          Inr (Suc (length ?cs) + k, (?cs @ [c]) @ replicate k CHR ''='' @ drop k (drop (Suc (length ?cs)) out))"
        using b64_pad_eq [of "Suc (length ?cs)" "?cs @ [c]" "drop (Suc (length ?cs)) out" olen "length ?rest" n] True assms(1,2) ti l
        by (auto simp: n_def k_def Let_def)
      have tl: "take (olen - 1) (b64 xs) = (?cs @ [c]) @ replicate k CHR ''=''"
        using True False by (simp add: b64_def b64_tail_def c_def n_def k_def take_Cons' min.commute)
      have len: "length ((?cs @ [c]) @ replicate k CHR ''='') = Suc (length ?cs) + k" by simp
      have "Suc (length ?cs) + k < olen" using True assms(2) by (simp add: k_def)
      then have "mem_write (((?cs @ [c]) @ replicate k CHR ''='') @ drop k (drop (Suc (length ?cs)) out)) (Suc (length ?cs) + k) [NUL] =
          Inr (take (olen - 1) (b64 xs) @ NUL # drop 1 (drop k (drop (Suc (length ?cs)) out)))"
        unfolding len [symmetric] tl using assms(1) by (intro fin) simp_all
      then show ?thesis using False b'(1)
        by (simp add: switch_b64_encode_def c w pad del: append_assoc) (simp add: append_assoc)
    qed
  qed
qed

section \<open>The decoder\<close>

lemma fold_update_other: "k \<notin> f ` set is \<Longrightarrow> fold (\<lambda>i t. t[f i := g i]) is t ! k = t ! k"
  by (induction "is" arbitrary: t) auto

lemma fold_update_hit:
  "distinct (map f is) \<Longrightarrow> j \<in> set is \<Longrightarrow> f j < length t \<Longrightarrow> fold (\<lambda>i t. t[f i := g i]) is t ! f j = g j"
proof (induction "is" arbitrary: t)
  case (Cons i "is")
  show ?case
  proof (cases "j = i")
    case True
    then have "f j \<notin> f ` set is" using Cons.prems by simp
    then show ?thesis using True Cons.prems by (simp add: fold_update_other)
  next
    case False
    then show ?thesis using Cons by simp
  qed
qed simp

lemma b64_table_ok: "distinct (map code switch_b64_table)" "list_all (\<lambda>n. n < 128) (map code switch_b64_table)"
  "code CHR ''='' \<notin> set (map code switch_b64_table)"
  by code_simp+

lemma table_codes: "map (\<lambda>i. code (switch_b64_table ! i)) [0..<64] = map code switch_b64_table"
proof -
  have "length switch_b64_table = 64" by (simp add: switch_b64_table_def)
  then show ?thesis by (intro nth_equalityI) simp_all
qed

lemma l64_at_table: "i < 64 \<Longrightarrow> l64_at (switch_b64_table ! i) = Inr (int i)"
proof -
  assume i: "i < 64"
  then have m: "code (switch_b64_table ! i) \<in> set (map code switch_b64_table)" using table_codes by (metis (no_types, lifting) atLeastLessThan_iff imageI list.set_map set_upt zero_le)
  then have "code (switch_b64_table ! i) < 128" using b64_table_ok(2) by (simp only: list_all_iff)
  moreover have "l64 ! code (switch_b64_table ! i) = int i"
    unfolding l64_def using i b64_table_ok(1) table_codes by (intro fold_update_hit) simp_all
  ultimately show ?thesis by (simp add: l64_at_def)
qed

lemma l64_at_pad: "l64_at CHR ''='' = Inr (- 1)"
proof -
  have "code CHR ''='' < 128" by (simp add: code_def)
  moreover have "code CHR ''='' \<notin> (\<lambda>i. code (switch_b64_table ! i)) ` set [0..<64]"
    using b64_table_ok(3) unfolding table_codes [symmetric] by simp
  then have "l64 ! code CHR ''='' = - 1"
    unfolding l64_def by (subst fold_update_other) simp_all
  ultimately show ?thesis by (simp add: l64_at_def)
qed

lemma decode_byte:
  assumes "8 \<le> l" and "l \<le> 32"
  shows "ucast (signed_drop_bit (l - 8) (b :: u32)) = (of_nat (bitsval (take 8 (lowbits l (unat b)))) :: u8)"
proof -
  have "bitsval (take 8 (lowbits l (unat b))) = take_bit 8 (drop_bit (l - 8) (unat b))"
    using take_drop_lowbits(1) [OF assms(1)] by (simp add: bitsval_lowbits)
  moreover have "ucast (signed_drop_bit (l - 8) b) = (of_nat (take_bit 8 (drop_bit (l - 8) (unat b))) :: u8)"
  proof (rule bit_eqI)
    fix n
    assume "possible_bit TYPE(8 word) n"
    then have n: "n < 8" by (simp add: possible_bit_word)
    then have "\<not> (LENGTH(32) - (l - 8) \<le> n \<and> n < LENGTH(32))" using assms by auto
    then have "bit (signed_drop_bit (l - 8) b) n \<longleftrightarrow> bit b (l - 8 + n)"
      unfolding bit_signed_drop_bit_iff by (simp only: if_False)
    then have "bit (ucast (signed_drop_bit (l - 8) b) :: u8) n \<longleftrightarrow> bit b (n + (l - 8))"
      using n by (simp add: bit_ucast_iff add.commute possible_bit_word)
    moreover have "bit (of_nat (take_bit 8 (drop_bit (l - 8) (unat b))) :: u8) n \<longleftrightarrow> bit b (n + (l - 8))"
      using n by (simp add: bit_of_nat_iff bit_take_bit_iff bit_drop_bit_eq bit_unsigned_iff possible_bit_word add.commute)
    ultimately show "bit (ucast (signed_drop_bit (l - 8) b) :: u8) n = bit (of_nat (take_bit 8 (drop_bit (l - 8) (unat b))) :: u8) n"
      by simp
  qed
  ultimately show ?thesis by simp
qed

definition octets :: "bool list \<Rightarrow> u8 list" where
  "octets bs = map (\<lambda>g. of_nat (bitsval g)) (groups 8 bs)"

lemma octets_append: "octets (as @ bs) = octets as @ octets (rest 8 as @ bs)"
  using groups_append(1) [of 8 as bs] by (simp only: octets_def map_append)

lemma octets_short [simp]: "length bs < 8 \<Longrightarrow> octets bs = []"
  by (simp add: octets_def)

lemma octets_one:
  assumes "8 \<le> length bs" and "length bs < 16"
  shows "octets bs = [of_nat (bitsval (take 8 bs))]" "rest 8 bs = drop 8 bs"
  using assms groups_step [of 8 bs] by (simp_all add: octets_def)

lemma b64_decode_pads: "b64_decode_loop (replicate n CHR ''='') b l ol olen out = Inr (ol, out)"
  by (induction n) (simp_all add: l64_at_pad)

definition val_bits :: "nat list \<Rightarrow> bool list" where
  "val_bits vs = concat (map (lowbits 6) vs)"

lemma b64_decode_loop_eq:
  assumes "ol = length pre" and "length pre + length r = olen" and "2 < olen" and "olen < size_mod" and "l < 8"
    and "\<forall>v \<in> set vs. v < 64" and "bits = lowbits l (unat b) @ val_bits vs" and "ol + length (octets bits) \<le> olen - 2"
    and "ol < olen - 2 \<or> octets bits = []"
  shows "b64_decode_loop (map (\<lambda>v. switch_b64_table ! v) vs @ replicate n CHR ''='') b l ol olen (pre @ r) =
     Inr (ol + length (octets bits), pre @ octets bits @ drop (length (octets bits)) r)"
  using assms(1,2,5-)
proof (induction vs arbitrary: b l ol pre r bits)
  case Nil
  then show ?case by (simp add: val_bits_def b64_decode_pads)
next
  case (Cons v vs)
  let ?b = "push_bit 6 b + of_nat v :: u32" and ?cs = "map (\<lambda>v. switch_b64_table ! v) vs @ replicate n CHR ''=''"
  have v: "v < 2 ^ 6" using Cons.prems(4) by simp
  then have "v < 2 ^ 32" by (rule order.strict_trans) simp
  then have uv: "unat (of_nat v :: u32) = v" by (simp add: unsigned_of_nat take_bit_nat_eq_self)
  have now: "lowbits (l + 6) (unat ?b) = lowbits l (unat b) @ lowbits 6 v"
    using lowbits_accumulate [of l 6 "of_nat v" b] Cons.prems(3) uv v by simp
  have bits: "bits = lowbits (l + 6) (unat ?b) @ val_bits vs" using Cons.prems(5) now by (simp add: val_bits_def)
  have at: "l64_at (switch_b64_table ! v) = Inr (int v)" using Cons.prems(4) by (simp add: l64_at_table)
  have vs: "\<forall>v \<in> set vs. v < 64" using Cons.prems(4) by simp
  have sz: "size_sub olen 2 = olen - 2" using assms(3,4) by (intro size_sub_small) simp_all
  have step: "b64_decode_loop (map (\<lambda>v. switch_b64_table ! v) (v # vs) @ replicate n CHR ''='') b l ol olen (pre @ r) =
      bindE (b64_decode_emit ?b (l + 6) ol olen (pre @ r)) (\<lambda>(stop, l, ol, out).
        if stop then Inr (ol, out) else b64_decode_loop ?cs ?b l ol olen out)"
    by (simp add: at Let_def)
  show ?case
  proof (cases "8 \<le> l + 6")
    case False
    then have "b64_decode_emit ?b (l + 6) ol olen (pre @ r) = Inr (False, l + 6, ol, pre @ r)"
      by (subst b64_decode_emit.simps) simp
    then show ?thesis unfolding step using Cons.IH [OF Cons.prems(1,2) _ vs bits Cons.prems(6,7)] False by simp
  next
    case True
    let ?x = "of_nat (bitsval (take 8 (lowbits (l + 6) (unat ?b)))) :: u8" and ?l = "l - 2"
    have l: "l + 6 - 8 = ?l" "?l < 8" using True Cons.prems(3) by auto
    have one: "octets (lowbits (l + 6) (unat ?b)) = [?x]" "rest 8 (lowbits (l + 6) (unat ?b)) = lowbits ?l (unat ?b)"
      using octets_one [of "lowbits (l + 6) (unat ?b)"] take_drop_lowbits(2) [OF True, of "unat ?b"] True Cons.prems(3) l by auto
    define c2 where "c2 = octets (lowbits ?l (unat ?b) @ val_bits vs)"
    have oct: "octets bits = ?x # c2" unfolding bits octets_append [of "lowbits (l + 6) (unat ?b)" "val_bits vs"] one c2_def by simp
    have ol: "ol < olen - 2" using Cons.prems(7) oct by simp
    have w: "mem_write (pre @ r) ol [?x] = Inr ((pre @ [?x]) @ drop 1 r)"
      using Cons.prems(1,2) ol by (subst mem_write_at) simp_all
    have emit: "b64_decode_emit ?b (l + 6) ol olen (pre @ r) = Inr (ol + 1 \<ge> olen - 2, ?l, ol + 1, (pre @ [?x]) @ drop 1 r)"
    proof -
      have db: "ucast (signed_drop_bit ?l ?b) = ?x"
        using decode_byte [OF True, of ?b] Cons.prems(3) unfolding l(1) by simp
      have "b64_decode_emit ?b ?l (ol + 1) olen out = Inr (False, ?l, ol + 1, out)" for out
        using l(2) by (subst b64_decode_emit.simps) simp
      then show ?thesis using True by (subst b64_decode_emit.simps) (simp only: db w sz bindE_simps l(1) if_True, simp)
    qed
    show ?thesis
    proof (cases "ol + 1 \<ge> olen - 2")
      case stop: True
      then have "length c2 = 0" using Cons.prems(6) unfolding oct list.size by arith
      then have "c2 = []" by simp
      then show ?thesis unfolding step emit using stop oct by simp
    next
      case go: False
      have "b64_decode_loop ?cs ?b ?l (ol + 1) olen ((pre @ [?x]) @ drop 1 r) =
          Inr (ol + 1 + length c2, (pre @ [?x]) @ c2 @ drop (length c2) (drop 1 r))"
        unfolding c2_def using Cons.prems(1,2,6) ol go l(2) vs oct
        by (intro Cons.IH) (auto simp: c2_def [symmetric])
      then show ?thesis unfolding step emit using go oct by simp
    qed
  qed
qed

section \<open>The round trip\<close>

lemma octets_bytes:
  assumes "length z < 8"
  shows "octets (byte_bits xs @ z) = xs"
proof -
  have "groups 8 (byte_bits xs @ z) = map (\<lambda>x. lowbits 8 (unat x)) xs"
    unfolding byte_bits_def using assms by (intro groups_concat(1)) auto
  moreover have "of_nat (bitsval (lowbits 8 (unat x))) = x" for x :: u8
    using unat_byte(2) [of x] by (simp add: bitsval_lowbits take_bit_nat_eq_self)
  ultimately show ?thesis by (simp add: octets_def comp_def)
qed

lemma b64_values:
  "\<exists>vs z n. b64 xs = map (\<lambda>v. switch_b64_table ! v) vs @ replicate n CHR ''='' \<and> (\<forall>v \<in> set vs. v < 64) \<and>
     val_bits vs = byte_bits xs @ z \<and> length z < 8"
proof -
  let ?g = "groups 6 (byte_bits xs)" and ?r = "rest 6 (byte_bits xs)"
  define last where "last = (if ?r = [] then [] else [?r @ replicate (6 - length ?r) False])"
  define z where "z = (if ?r = [] then [] else replicate (6 - length ?r) False)"
  let ?gs = "?g @ last"
  have r6: "length ?r < 6" by (simp add: length_rest)
  then have six: "\<forall>g \<in> set ?gs. length g = 6" using groups_length [of 6 _ "byte_bits xs"] by (auto simp: last_def)
  have "concat ?gs = byte_bits xs @ z"
    using concat_groups [of 6 "byte_bits xs"] by (auto simp: last_def z_def)
  moreover have "val_bits (map bitsval ?gs) = concat ?gs"
  proof -
    have "map (lowbits 6) (map bitsval ?gs) = map id ?gs"
      unfolding map_map using six lowbits_bitsval by (intro map_cong) (metis comp_apply id_apply)+
    then show ?thesis by (simp add: val_bits_def)
  qed
  moreover have "bitsval g < 64" if "length g = 6" for g using bitsval_less [of g] that by simp
  then have "\<forall>v \<in> set (map bitsval ?gs). v < 64" using six by auto
  moreover have "b64 xs = map (\<lambda>v. switch_b64_table ! v) (map bitsval ?gs) @
      replicate (if ?r = [] then 0 else (6 - length ?r) div 2) CHR ''=''"
    by (auto simp: b64_def b64_tail_def last_def sextets_def comp_def)
  moreover have "length z < 8" using less_imp_diff_less [of 6 8 "length ?r"] by (simp add: z_def)
  ultimately show ?thesis by metis
qed

lemma length_groups: "0 < k \<Longrightarrow> length (groups k bs) = length bs div k"
proof (induction "length bs" arbitrary: bs rule: less_induct)
  case less
  show ?case
  proof (cases "length bs < k")
    case False
    then have "length (groups k (drop k bs)) = (length bs - k) div k" using less by simp
    then show ?thesis using False less.prems groups_step(1) [of k bs] by (simp add: le_div_geq)
  qed simp
qed

lemma length_b64: "length (b64 xs) \<le> 8 * length xs div 6 + 3"
  using rest_lengths [of xs] by (auto simp: b64_def b64_tail_def sextets_def length_groups length_byte_bits)

lemma b64_decode_eq:
  assumes "length out = olen" and "length xs + 2 \<le> olen" and "2 < olen" and "olen < size_mod"
  shows "\<exists>r. switch_b64_decode (b64 xs) out olen = Inr (length xs + 1, xs @ 0 # r)"
proof -
  obtain vs z n where v: "b64 xs = map (\<lambda>v. switch_b64_table ! v) vs @ replicate n CHR ''=''" "\<forall>v \<in> set vs. v < 64"
      "val_bits vs = byte_bits xs @ z" "length z < 8" using b64_values by blast
  have o: "octets (val_bits vs) = xs" using v(3,4) by (simp add: octets_bytes)
  have "b64_decode_loop (b64 xs) 0 0 0 olen ([] @ out) = Inr (0 + length (octets (val_bits vs)),
      [] @ octets (val_bits vs) @ drop (length (octets (val_bits vs))) out)"
    unfolding v(1) using assms v(2) o by (intro b64_decode_loop_eq) auto
  then have "b64_decode_loop (b64 xs) 0 0 0 olen out = Inr (length xs, xs @ drop (length xs) out)" by (simp add: o)
  moreover have "mem_write (xs @ drop (length xs) out) (length xs) [0] = Inr (xs @ 0 # drop 1 (drop (length xs) out))"
    using assms by (subst mem_write_at) simp_all
  ultimately show ?thesis by (simp add: switch_b64_decode_def)
qed

text \<open>
  C9. Base64: with a buffer of at least two bytes the encoder stays inside it and leaves as much of the
  encoding as fits, terminated; decoding the full encoding gives the original bytes back, terminated,
  with a count that includes the NUL, when the output buffer has two bytes more than the data.
\<close>

theorem b64_roundtrip:
  assumes "length out = olen" and "2 \<le> olen" and "olen < 2 ^ 31" and "length (b64 xs) < olen"
    and "length out' = olen'" and "length xs + 2 \<le> olen'" and "2 < olen'" and "olen' < size_mod"
  shows "\<exists>enc r r'. switch_b64_encode xs out olen = Inr (SWITCH_STATUS_SUCCESS, enc @ NUL # r) \<and>
     switch_b64_decode enc out' olen' = Inr (length xs + 1, xs @ 0 # r')"
proof -
  have "take (olen - 1) (b64 xs) = b64 xs" using assms(4) by simp
  then show ?thesis using b64_encode_eq [OF assms(1-3), of xs] b64_decode_eq [OF assms(5-8)] by metis
qed

theorem b64_roundtrip_witness:
  "\<exists>enc r r'. switch_b64_encode [1, 255] (replicate 8 NUL) 8 = Inr (SWITCH_STATUS_SUCCESS, enc @ NUL # r) \<and>
     switch_b64_decode enc (replicate 5 0) 5 = Inr (3, [1, 255] @ 0 # r')"
proof -
  have "length (b64 [1, 255]) < 8"
    using length_b64 [of "[1, 255]"] by simp
  moreover have "length [1, 255 :: u8] + 1 = 3" "length [1, 255 :: u8] + 2 \<le> 5" "(5::nat) < size_mod" by (simp_all add: size_mod_def)
  ultimately show ?thesis
    using b64_roundtrip [of "replicate 8 NUL" 8 "[1, 255]" "replicate 5 0" 5, unfolded length_replicate] by auto
qed

text \<open>
  C31. Whatever the input, the encoder never writes outside a buffer of the stated size when that is at
  least two: its result is the part of the encoding that fits, terminated.
\<close>

theorem b64_encode_safe:
  assumes "length out = olen" and "2 \<le> olen" and "olen < 2 ^ 31"
  shows "\<exists>r. switch_b64_encode xs out olen = Inr (SWITCH_STATUS_SUCCESS, take (olen - 1) (b64 xs) @ NUL # r)"
  using assms by (rule b64_encode_eq)

theorem b64_encode_safe_witness:
  "\<exists>r. switch_b64_encode [1, 2, 3, 4] (replicate 3 NUL) 3 = Inr (SWITCH_STATUS_SUCCESS, take 2 (b64 [1, 2, 3, 4]) @ NUL # r)"
  using b64_encode_safe [of "replicate 3 NUL" 3 "[1, 2, 3, 4]"] by simp

text \<open>A buffer of one byte is overrun, and a byte above 127 makes the decoder read in front of its table.\<close>

lemma b64_encode_one_byte: "switch_b64_encode [0] (replicate 1 NUL) 1 = Inl Out_Of_Bounds"
proof -
  have "b64_emit (push_bit 8 0 + ucast (0 :: u8)) (0 + 8) 0 1 [NUL] = Inr (True, 2, 1, [switch_b64_table ! 0])"
    by (subst b64_emit.simps) (simp add: to_int_def mem_write_def)
  then show ?thesis by (simp add: switch_b64_encode_def Let_def mem_write_def)
qed

lemma b64_decode_high_byte: "128 \<le> code c \<Longrightarrow> switch_b64_decode (c # cs) out olen = Inl Out_Of_Bounds"
  by (simp add: switch_b64_decode_def l64_at_def)

end
