(* ===== verification/FS_Split.thy ===== *)
theory FS_Split
  imports FS_Encode
begin

text \<open>
  The splitting of argument strings, \<open>switch_separate_string\<close> and its helpers in
  \<^verbatim>\<open>src/src/lib/libfreeswitch/switch_utils.c\<close>, through which command lines, channel variables and
  configuration values are parsed. The code cuts the buffer in place and rewrites every part in place;
  the parts do not overlap and a part only shrinks, so the model returns the parts as strings. Reading
  on behind the terminating NUL of the buffer is a fault.
\<close>

section \<open>Cleaning a part\<close>

text \<open>\<open>dest\<close> is what has been written, \<open>en\<close> the position of the code's \<open>end\<close> in it.\<close>

definition next_char :: "string \<Rightarrow> char" where
  "next_char cs = (case cs of [] \<Rightarrow> NUL | d # _ \<Rightarrow> d)"

definition escape_taken :: "char \<Rightarrow> char \<Rightarrow> bool" where
  "escape_taken delim e \<longleftrightarrow> e = SQ \<or> e = DQ \<or> (delim \<noteq> NUL \<and> e = delim) \<or> e = BS \<or> unescape_char e \<noteq> e"

definition escape_value :: "char \<Rightarrow> char \<Rightarrow> char" where
  "escape_value delim e = (if e = SQ \<or> e = DQ \<or> (delim \<noteq> NUL \<and> e = delim) \<or> e = BS then e else unescape_char e)"

function cleanup_loop :: "char \<Rightarrow> bool \<Rightarrow> string \<Rightarrow> string \<Rightarrow> nat option \<Rightarrow> string \<times> nat option" where
  "cleanup_loop delim inside_quotes [] dest en = (dest, en)"
| "cleanup_loop delim inside_quotes (c # cs) dest en =
     (if c = BS \<and> cs \<noteq> [] \<and> escape_taken delim (next_char cs)
      then let dest = dest @ [escape_value delim (next_char cs)]
           in cleanup_loop delim inside_quotes (tl cs) dest (Some (length dest))
      else if c = SQ \<and> (inside_quotes \<or> SQ \<in> set cs)
      then cleanup_loop delim (\<not> inside_quotes) cs dest (if \<not> inside_quotes then Some (length dest) else en)
      else let dest = dest @ [c]
           in cleanup_loop delim inside_quotes cs dest (if c \<noteq> CHR '' '' \<or> inside_quotes then Some (length dest) else en))"
  by pat_completeness auto
termination by (relation "measure (\<lambda>(delim, q, s, dest, en). length s)") auto

definition cleanup_separated_string :: "string \<Rightarrow> char \<Rightarrow> string" where
  "cleanup_separated_string str delim =
     (case cleanup_loop delim False (dropWhile (\<lambda>c. c = CHR '' '') str) [] None of
        (dest, None) \<Rightarrow> dest
      | (dest, Some en) \<Rightarrow> take en dest)"

section \<open>Cutting the buffer\<close>

definition prefix_part :: "string \<Rightarrow> (string \<times> string option) c \<Rightarrow> (string \<times> string option) c" where
  "prefix_part p m = bindE m (\<lambda>(t, r). Inr (p @ t, r))"

text \<open>The state FIND_DELIM: the part up to the delimiter, and the buffer behind it.\<close>

function find_delim :: "char \<Rightarrow> bool \<Rightarrow> string \<Rightarrow> (string \<times> string option) c" where
  "find_delim delim inside_quotes [] = Inr ([], None)"
| "find_delim delim inside_quotes (c # cs) =
     (if c = BS then (case cs of [] \<Rightarrow> Inl Out_Of_Bounds | d # ds \<Rightarrow> prefix_part [c, d] (find_delim delim inside_quotes ds))
      else if c = SQ \<and> (inside_quotes \<or> SQ \<in> set cs) then prefix_part [c] (find_delim delim (\<not> inside_quotes) cs)
      else if c = delim \<and> \<not> inside_quotes then Inr ([], Some cs)
      else prefix_part [c] (find_delim delim inside_quotes cs))"
  by pat_completeness auto
termination by (relation "measure (\<lambda>(delim, q, s). length s)") auto

lemma prefix_part_Inr: "prefix_part p m = Inr (t, r) \<longleftrightarrow> (\<exists>t'. m = Inr (t', r) \<and> t = p @ t')"
  by (cases m) (auto simp: prefix_part_def)

lemma find_delim_shorter: "find_delim delim q s = Inr (t, Some r) \<Longrightarrow> length r < length s"
proof (induction delim q s arbitrary: t rule: find_delim.induct)
  case (2 delim q c cs)
  then show ?case by (auto simp: prefix_part_Inr split: if_splits list.splits) fastforce+
qed simp

text \<open>\<open>n\<close> is the number of free slots of the array; the last slot gets the uncut rest of the buffer.\<close>

function separate_parts :: "char \<Rightarrow> nat \<Rightarrow> string \<Rightarrow> string list c" where
  "separate_parts delim n buf =
     (if buf = [] \<or> n = 0 then Inr []
      else if n = 1 then Inr [buf]
      else case find_delim delim False buf of
             Inl e \<Rightarrow> Inl e
           | Inr (t, None) \<Rightarrow> Inr [t]
           | Inr (t, Some r) \<Rightarrow> bindE (separate_parts delim (n - 1) r) (\<lambda>ts. Inr (t # ts)))"
  by pat_completeness auto
termination
  by (relation "measure (\<lambda>(delim, n, buf). length buf)") (auto dest: find_delim_shorter)

declare separate_parts.simps [simp del]

definition separate_string_char_delim :: "string \<Rightarrow> char \<Rightarrow> nat \<Rightarrow> string list c" where
  "separate_string_char_delim buf delim arraylen =
     bindE (separate_parts delim arraylen buf) (\<lambda>ts. Inr (map (\<lambda>t. cleanup_separated_string t delim) ts))"

text \<open>With a blank as the delimiter: blanks in front belong to the part, blanks behind it are skipped.\<close>

function find_blank :: "bool \<Rightarrow> string \<Rightarrow> (string \<times> string option) c" where
  "find_blank inside_quotes [] = Inr ([], None)"
| "find_blank inside_quotes (c # cs) =
     (if c = BS then (case cs of [] \<Rightarrow> Inl Out_Of_Bounds | d # ds \<Rightarrow> prefix_part [c, d] (find_blank inside_quotes ds))
      else if c = SQ then prefix_part [c] (find_blank (\<not> inside_quotes) cs)
      else if c = CHR '' '' \<and> \<not> inside_quotes then Inr ([], Some (dropWhile (\<lambda>c. c = CHR '' '') cs))
      else prefix_part [c] (find_blank inside_quotes cs))"
  by pat_completeness auto
termination by (relation "measure (\<lambda>(q, s). length s)") auto

lemma find_blank_shorter: "find_blank q s = Inr (t, Some r) \<Longrightarrow> length r < length s"
proof (induction q s arbitrary: t rule: find_blank.induct)
  case (2 q c cs)
  show ?case
  proof (cases "c = CHR '' '' \<and> \<not> q")
    case True
    then have "r = dropWhile (\<lambda>c. c = CHR '' '') cs" using 2(4) by (auto simp: special_chars)
    then show ?thesis using length_dropWhile_le [of "\<lambda>c. c = CHR '' ''" cs] by simp
  next
    case False
    then show ?thesis using 2 by (auto simp: prefix_part_Inr split: if_splits list.splits) fastforce+
  qed
qed simp

definition find_blank_part :: "string \<Rightarrow> (string \<times> string option) c" where
  "find_blank_part buf =
     (let lead = takeWhile (\<lambda>c. c = CHR '' '') buf in prefix_part lead (find_blank False (drop (length lead) buf)))"

lemma find_blank_part_shorter: "find_blank_part s = Inr (t, Some r) \<Longrightarrow> length r < length s"
  by (auto simp: find_blank_part_def Let_def prefix_part_Inr dest!: find_blank_shorter)

function separate_blank_parts :: "nat \<Rightarrow> string \<Rightarrow> string list c" where
  "separate_blank_parts n buf =
     (if buf = [] \<or> n = 0 then Inr []
      else if n = 1 then Inr [buf]
      else case find_blank_part buf of
             Inl e \<Rightarrow> Inl e
           | Inr (t, None) \<Rightarrow> Inr [t]
           | Inr (t, Some r) \<Rightarrow> bindE (separate_blank_parts (n - 1) r) (\<lambda>ts. Inr (t # ts)))"
  by pat_completeness auto
termination
  by (relation "measure (\<lambda>(n, buf). length buf)") (auto dest: find_blank_part_shorter)

declare separate_blank_parts.simps [simp del]

definition separate_string_blank_delim :: "string \<Rightarrow> nat \<Rightarrow> string list c" where
  "separate_string_blank_delim buf arraylen =
     bindE (separate_blank_parts arraylen buf) (\<lambda>ts. Inr (map (\<lambda>t. cleanup_separated_string t NUL) ts))"

text \<open>A buffer that starts with two carets names its own delimiter. The result is the filled array.\<close>

definition switch_separate_string :: "string option \<Rightarrow> char \<Rightarrow> nat \<Rightarrow> string list c" where
  "switch_separate_string buf delim arraylen = (case buf of None \<Rightarrow> Inr [] | Some b \<Rightarrow>
     if arraylen = 0 then Inr []
     else
       let (b, delim) = (if take 2 b = ''^^'' \<and> length b > 3 then (drop 3 b, b ! 2) else (b, delim))
       in if delim = CHR '' '' then separate_string_blank_delim b arraylen
          else separate_string_char_delim b delim arraylen)"

text \<open>
  \<open>switch_separate_string_string\<close> stores the first part before it looks at the length of the array. An
  empty delimiter is found at the start of the part, which it cuts to nothing.
\<close>

fun separate_string_string_loop :: "string \<Rightarrow> nat \<Rightarrow> string \<Rightarrow> string list" where
  "separate_string_string_loop delim 0 cur = [cur]"
| "separate_string_string_loop delim (Suc n) cur =
     (case strstr cur delim of
        None \<Rightarrow> [cur]
      | Some d \<Rightarrow> take (length cur - length d) cur #
                  separate_string_string_loop delim n (if delim = [] then [] else drop (length delim) d))"

definition switch_separate_string_string :: "string \<Rightarrow> string \<Rightarrow> nat \<Rightarrow> string list c" where
  "switch_separate_string_string buf delim arraylen =
     (if arraylen = 0 then Inl Out_Of_Bounds else Inr (separate_string_string_loop delim (arraylen - 1) buf))"

section \<open>Splitting what was joined\<close>

text \<open>How a value is written so that it survives the splitting: the special characters are escaped.\<close>

definition protect_char :: "char \<Rightarrow> char \<Rightarrow> string" where
  "protect_char delim c =
     (if c = SQ \<or> c = BS \<or> c = delim then [BS, c]
      else if code c = 10 then [BS, CHR ''n''] else if code c = 13 then [BS, CHR ''r'']
      else if code c = 9 then [BS, CHR ''t''] else if c = CHR '' '' then [BS, CHR ''s''] else [c])"

definition protect :: "char \<Rightarrow> string \<Rightarrow> string" where
  "protect delim f = concat (map (protect_char delim) f)"

fun join_fields :: "char \<Rightarrow> string list \<Rightarrow> string" where
  "join_fields delim [] = []"
| "join_fields delim [f] = protect delim f"
| "join_fields delim (f # fs) = protect delim f @ delim # join_fields delim fs"

definition delim_ok :: "char \<Rightarrow> bool" where
  "delim_ok delim \<longleftrightarrow> delim \<notin> {NUL, SQ, BS, CHR '' '', CHR ''n'', CHR ''r'', CHR ''t'', CHR ''s''}"

lemma protect_Cons: "protect delim (c # f) = protect_char delim c @ protect delim f"
  by (simp add: protect_def)

lemma bs_not_sq: "BS \<noteq> SQ" "SQ \<noteq> BS" "CHR '' '' \<noteq> BS" "CHR '' '' \<noteq> SQ"
  by (simp_all add: special_chars)

lemma protect_char_cases:
  "c = SQ \<or> c = BS \<or> c = delim \<or>
   (\<exists>x. protect_char delim c = [BS, x] \<and>
      (x, c) \<in> {(CHR ''n'', chr 10), (CHR ''r'', chr 13), (CHR ''t'', chr 9), (CHR ''s'', CHR '' '')}) \<or>
   (protect_char delim c = [c] \<and> c \<noteq> SQ \<and> c \<noteq> BS \<and> c \<noteq> delim \<and> c \<noteq> CHR '' '')"
  by (auto simp: protect_char_def) (metis chr_code)+

lemma find_delim_protect:
  assumes "delim_ok delim"
  shows "find_delim delim False (protect delim f @ s) = prefix_part (protect delim f) (find_delim delim False s)"
proof (induction f)
  case Nil
  then show ?case by (cases "find_delim delim False s") (auto simp: protect_def prefix_part_def)
next
  case (Cons c f)
  have pp: "prefix_part p (prefix_part q m) = prefix_part (p @ q) m" for p q m
    by (cases m) (auto simp: prefix_part_def)
  consider x where "protect_char delim c = [BS, x]" | "protect_char delim c = [c]" "c \<noteq> SQ" "c \<noteq> BS" "c \<noteq> delim"
    using protect_char_cases [of c delim] by (auto simp: protect_char_def)
  then show ?case
  proof cases
    case 1
    then show ?thesis using Cons by (simp add: protect_Cons pp)
  next
    case 2
    then show ?thesis using Cons by (simp add: protect_Cons pp)
  qed
qed

text \<open>A protected character, cleaned, is the character itself, and it is always kept.\<close>

lemma cleanup_protect_char:
  assumes "delim_ok delim"
  shows "cleanup_loop delim False (protect_char delim c @ s) dest en =
     cleanup_loop delim False s (dest @ [c]) (Some (Suc (length dest)))"
proof -
  have esc: "cleanup_loop delim False (BS # x # s) dest en = cleanup_loop delim False s (dest @ [c]) (Some (Suc (length dest)))"
    if "escape_taken delim x" "escape_value delim x = c" for x
    using that by (simp add: next_char_def Let_def)
  consider "c = SQ \<or> c = BS \<or> c = delim"
    | x where "protect_char delim c = [BS, x]" "(x, c) \<in> {(CHR ''n'', chr 10), (CHR ''r'', chr 13), (CHR ''t'', chr 9), (CHR ''s'', CHR '' '')}"
    | "protect_char delim c = [c]" "c \<noteq> SQ" "c \<noteq> BS" "c \<noteq> CHR '' ''"
    using protect_char_cases [of c delim] by blast
  then show ?thesis
  proof cases
    case 1
    then have "protect_char delim c = [BS, c]" by (simp add: protect_char_def)
    moreover have "escape_taken delim c" "escape_value delim c = c"
      using 1 assms by (auto simp: escape_taken_def escape_value_def delim_ok_def)
    ultimately show ?thesis using esc by simp
  next
    case (2 x)
    then have "unescape_char x = c" "x \<noteq> delim" "x \<noteq> SQ" "x \<noteq> DQ" "x \<noteq> BS"
      using assms by (auto simp: unescape_char_def delim_ok_def special_chars)
    moreover have "c \<noteq> x" using 2(2) by (auto simp: chr_def char_of_def)
    ultimately have "escape_taken delim x" "escape_value delim x = c" by (auto simp: escape_taken_def escape_value_def)
    then show ?thesis using esc 2(1) by simp
  next
    case 3
    then show ?thesis by (simp add: Let_def)
  qed
qed

lemma cleanup_protect:
  assumes "delim_ok delim"
  shows "cleanup_separated_string (protect delim f) delim = f"
proof -
  have loop: "cleanup_loop delim False (protect delim f) dest (Some (length dest)) = (dest @ f, Some (length (dest @ f)))" for dest f
  proof (induction f arbitrary: dest)
    case (Cons c f)
    from Cons.IH [of "dest @ [c]"] show ?case by (simp add: protect_Cons cleanup_protect_char [OF assms])
  qed (simp add: protect_def)
  show ?thesis
  proof (cases f)
    case Nil
    then show ?thesis by (simp add: cleanup_separated_string_def protect_def)
  next
    case (Cons c g)
    have "hd (protect_char delim c) \<noteq> CHR '' ''" "protect_char delim c \<noteq> []"
      using assms by (auto simp: protect_char_def delim_ok_def special_chars)
    then have "dropWhile (\<lambda>c. c = CHR '' '') (protect delim f) = protect delim f"
      unfolding Cons protect_Cons by (cases "protect_char delim c") auto
    moreover have "cleanup_loop delim False (protect delim f) [] None = (f, Some (length f))"
      using loop [of g "[c]"] by (simp add: Cons protect_Cons cleanup_protect_char [OF assms])
    ultimately show ?thesis by (simp add: cleanup_separated_string_def)
  qed
qed

lemma join_fields_nonempty: "fs \<noteq> [] \<Longrightarrow> last fs \<noteq> [] \<Longrightarrow> join_fields delim fs \<noteq> []"
proof (induction delim fs rule: join_fields.induct)
  case (2 delim f)
  then show ?case by (cases f) (auto simp: protect_Cons protect_char_def)
qed auto

lemma separate_parts_join:
  assumes "delim_ok delim" and "fs \<noteq> []" and "last fs \<noteq> []" and "length fs \<le> n"
  shows "separate_parts delim n (join_fields delim fs) = Inr (map (protect delim) fs)"
  using assms(2-)
proof (induction fs arbitrary: n)
  case (Cons f fs)
  have ne: "join_fields delim (f # fs) \<noteq> []" using join_fields_nonempty Cons.prems by blast
  show ?case
  proof (cases fs)
    case Nil
    have "find_delim delim False (protect delim f) = Inr (protect delim f, None)"
      using find_delim_protect [OF assms(1), of f "[]"] by (simp add: prefix_part_def)
    then show ?thesis using ne Nil Cons.prems by (subst separate_parts.simps) auto
  next
    case (Cons g gs)
    have join: "join_fields delim (f # fs) = protect delim f @ delim # join_fields delim fs" by (simp add: Cons)
    have "find_delim delim False (delim # join_fields delim fs) = Inr ([], Some (join_fields delim fs))"
      using assms(1) by (simp add: delim_ok_def)
    then have "find_delim delim False (join_fields delim (f # fs)) = Inr (protect delim f, Some (join_fields delim fs))"
      unfolding join by (simp add: find_delim_protect [OF assms(1)] prefix_part_def)
    moreover have "separate_parts delim (n - 1) (join_fields delim fs) = Inr (map (protect delim) fs)"
      using Cons.prems Cons by (intro Cons.IH) auto
    ultimately show ?thesis using ne Cons.prems Cons by (subst separate_parts.simps) auto
  qed
qed simp

text \<open>
  C35. One or more values joined with a delimiter, their special characters escaped, are split into exactly the same
  values, whatever characters they contain, when the array has a slot for each, the last value is not empty (an empty last
  value is not seen), the joined text does not begin with the delimiter prefix \<open>^^\<close>, and the delimiter is not one of NUL, blank, quote, backslash
  and the letters n, r, t, s of the escapes.
\<close>

theorem separate_join_roundtrip:
  assumes "delim_ok delim" and "fs \<noteq> []" and "last fs \<noteq> []" and "length fs \<le> arraylen"
    and "take 2 (join_fields delim fs) \<noteq> ''^^''"
  shows "switch_separate_string (Some (join_fields delim fs)) delim arraylen = Inr fs"
proof -
  have "arraylen \<noteq> 0" using assms(2,4) by (cases fs) auto
  moreover have "delim \<noteq> CHR '' ''" using assms(1) by (simp add: delim_ok_def)
  moreover have "map (\<lambda>t. cleanup_separated_string t delim) (map (protect delim) fs) = fs"
    by (simp add: comp_def cleanup_protect [OF assms(1)])
  ultimately show ?thesis using assms(5) separate_parts_join [OF assms(1-4)]
    by (simp add: switch_separate_string_def separate_string_char_delim_def)
qed

theorem separate_join_roundtrip_witness:
  "switch_separate_string (Some (join_fields CHR '','' [''a b'', [], ''x,y''])) CHR '','' 8 = Inr [''a b'', [], ''x,y'']"
  by (rule separate_join_roundtrip)
     (simp_all add: delim_ok_def special_chars NUL_def chr_def char_of_def protect_def protect_char_def)

lemma separate_parts_bound: "separate_parts delim n buf = Inr ts \<Longrightarrow> length ts \<le> n"
proof (induction delim n buf arbitrary: ts rule: separate_parts.induct)
  case (1 delim n buf)
  show ?case using 1(2) 1(1)
    by (subst (asm) separate_parts.simps) (fastforce simp: bindE_eq_Inr split: if_splits sum.splits option.splits prod.splits)
qed

lemma separate_blank_parts_bound: "separate_blank_parts n buf = Inr ts \<Longrightarrow> length ts \<le> n"
proof (induction n buf arbitrary: ts rule: separate_blank_parts.induct)
  case (1 n buf)
  show ?case using 1(2) 1(1)
    by (subst (asm) separate_blank_parts.simps) (fastforce simp: bindE_eq_Inr split: if_splits sum.splits option.splits prod.splits)
qed

text \<open>Splitting never fills more slots than the array has, whatever the input and the delimiter.\<close>

theorem separate_string_bound:
  assumes "switch_separate_string buf delim arraylen = Inr ts"
  shows "length ts \<le> arraylen"
  using assms separate_parts_bound separate_blank_parts_bound
  by (auto simp: switch_separate_string_def separate_string_char_delim_def separate_string_blank_delim_def bindE_eq_Inr
      split: option.splits if_splits prod.splits)

theorem separate_string_bound_witness:
  "switch_separate_string (Some ''a,b,c'') CHR '','' 2 = Inr [''a'', ''b,c''] \<and> length [''a'', ''b,c''] \<le> (2::nat)"
proof -
  have "switch_separate_string (Some ''a,b,c'') CHR '','' 2 = Inr [''a'', ''b,c'']" by code_simp
  with separate_string_bound [OF this] show ?thesis by simp
qed

text \<open>A backslash at the end of the buffer makes the scan step over the terminating NUL.\<close>

lemma separate_trailing_backslash: "switch_separate_string (Some [CHR ''a'', BS]) CHR '','' 2 = Inl Out_Of_Bounds"
  by code_simp

end
