(* ===== verification/FS_NetList.thy ===== *)
theory FS_NetList
  imports FS_Split
begin

text \<open>
  Network lists (access control lists), \<open>switch_network_list_*\<close> and \<open>switch_parse_cidr\<close> in
  \<^verbatim>\<open>src/src/lib/libfreeswitch/switch_utils.c\<close>. The union \<open>ip_t\<close> is its sixteen bytes; its member \<open>v4\<close> is
  the little-endian word in the first four, the byte order of the machines the code runs on.
  \<open>inet_pton\<close> belongs to the system: it is the parameter \<open>pton\<close>, which returns the address in network
  byte order or nothing; the code does not look at its result, so a failure leaves what was in the
  union before. The contents the unions and the prefix length have on
  the stack before a call are arguments, one triple for each call. \<open>AF_INET6\<close> has its OpenBSD value.
\<close>

section \<open>Addresses\<close>

type_synonym ip_t = "u8 list"
type_synonym pton = "int \<Rightarrow> string \<Rightarrow> u8 list option"

definition AF_INET :: int where "AF_INET = 2"
definition AF_INET6 :: int where "AF_INET6 = 24"

definition v4_of :: "ip_t \<Rightarrow> u32" where
  "v4_of ip = word_of_bytes (map unat (take 4 ip))"

definition set_v4 :: "ip_t \<Rightarrow> u32 \<Rightarrow> ip_t" where
  "set_v4 ip w = map of_nat (word_bytes 4 (unat w)) @ drop 4 ip"

definition htonl :: "u32 \<Rightarrow> u32" where
  "htonl w = word_of_bytes (rev (word_bytes 4 (unat w)))"

definition switch_inet_pton :: "pton \<Rightarrow> int \<Rightarrow> string \<Rightarrow> ip_t \<Rightarrow> ip_t" where
  "switch_inet_pton pton af src dst = (case pton af src of None \<Rightarrow> dst | Some bs \<Rightarrow> bs @ drop (length bs) dst)"

record network_node =
  nn_ip :: ip_t
  nn_mask :: ip_t
  nn_bits :: u32
  nn_family :: int
  nn_ok :: bool
  nn_token :: "string option"
  nn_str :: string

record network_list =
  nl_nodes :: "network_node list"
  nl_default_type :: bool
  nl_name :: string

definition switch_network_list_create :: "string \<Rightarrow> bool \<Rightarrow> switch_status_t \<times> network_list" where
  "switch_network_list_create name default_type =
     (SWITCH_STATUS_SUCCESS, \<lparr>nl_nodes = [], nl_default_type = default_type, nl_name = name\<rparr>)"

section \<open>Matching\<close>

definition in6_unspecified :: "ip_t \<Rightarrow> bool" where
  "in6_unspecified ip \<longleftrightarrow> list_all (\<lambda>b. b = 0) (take 16 ip)"

definition in6_and_mask :: "ip_t \<Rightarrow> ip_t \<Rightarrow> ip_t" where
  "in6_and_mask ip msk = map2 (AND) (take 16 ip) (take 16 msk)"

definition switch_testv6_subnet :: "ip_t \<Rightarrow> ip_t \<Rightarrow> ip_t \<Rightarrow> bool" where
  "switch_testv6_subnet ip net msk =
     (if \<not> in6_unspecified msk then in6_and_mask net msk = in6_and_mask ip msk
      else if \<not> in6_unspecified net then take 16 net = take 16 ip
      else True)"

definition switch_test_subnet :: "u32 \<Rightarrow> u32 \<Rightarrow> u32 \<Rightarrow> bool" where
  "switch_test_subnet ip net msk =
     (if msk \<noteq> 0 then net AND msk = ip AND msk else if net \<noteq> 0 then net = ip else True)"

text \<open>The two walks over the list keep the verdict, the token and the length of the best match so far.\<close>

fun validate_ip6_walk :: "network_node list \<Rightarrow> ip_t \<Rightarrow> bool \<Rightarrow> u32 \<Rightarrow> string option \<Rightarrow> bool \<times> string option" where
  "validate_ip6_walk [] ip ok bits token = (ok, token)"
| "validate_ip6_walk (node # nodes) ip ok bits token =
     (if nn_family node = AF_INET then validate_ip6_walk nodes ip ok bits token
      else if nn_bits node > bits \<and> switch_testv6_subnet ip (nn_ip node) (nn_mask node)
      then validate_ip6_walk nodes ip (nn_ok node) (nn_bits node) (nn_token node)
      else validate_ip6_walk nodes ip ok bits token)"

definition switch_network_list_validate_ip6_token :: "network_list \<Rightarrow> ip_t \<Rightarrow> string option \<Rightarrow> bool \<times> string option" where
  "switch_network_list_validate_ip6_token list ip token =
     validate_ip6_walk (nl_nodes list) ip (nl_default_type list) 0 token"

fun validate_ip_walk :: "network_node list \<Rightarrow> u32 \<Rightarrow> bool \<Rightarrow> u32 \<Rightarrow> string option \<Rightarrow> bool \<times> string option" where
  "validate_ip_walk [] ip ok bits token = (ok, token)"
| "validate_ip_walk (node # nodes) ip ok bits token =
     (if nn_family node = AF_INET6 then validate_ip_walk nodes ip ok bits token
      else if nn_bits node > bits \<and> switch_test_subnet ip (v4_of (nn_ip node)) (v4_of (nn_mask node))
      then validate_ip_walk nodes ip (nn_ok node) (nn_bits node) (nn_token node)
      else validate_ip_walk nodes ip ok bits token)"

definition switch_network_list_validate_ip_token :: "network_list \<Rightarrow> u32 \<Rightarrow> string option \<Rightarrow> bool \<times> string option" where
  "switch_network_list_validate_ip_token list ip token =
     validate_ip_walk (nl_nodes list) ip (nl_default_type list) 0 token"

section \<open>Adding networks\<close>

text \<open>
  A shift by the full width is undefined in C: its value is the parameter \<open>over\<close>, 0 where the machine
  shifts everything out and the word itself where it takes the count modulo 32.
\<close>

definition shift_right32 :: "u32 \<Rightarrow> u32 \<Rightarrow> nat \<Rightarrow> u32" where
  "shift_right32 over w n = (if n < 32 then drop_bit n w else over)"

fun v6_mask :: "nat \<Rightarrow> nat \<Rightarrow> u8 list" where
  "v6_mask 0 n = []"
| "v6_mask (Suc i) n = (if n \<ge> 8 then 0xFF # v6_mask i (n - 8) else (0xFF AND NOT (drop_bit n 0xFF)) # v6_mask i 0)"

text \<open>The result, and the two unions and the prefix length as the call leaves them.\<close>

definition switch_parse_cidr :: "u32 \<Rightarrow> pton \<Rightarrow> string \<Rightarrow> ip_t \<Rightarrow> ip_t \<Rightarrow> u32 \<Rightarrow> int \<times> ip_t \<times> ip_t \<times> u32" where
  "switch_parse_cidr over pton str ip msk bitp =
     (let host = take 126 str in
      case strchr host CHR ''/'' of
        None \<Rightarrow> (-1, ip, msk, bitp)
      | Some bit_str \<Rightarrow>
          let host = before_char host CHR ''/''; bits = atoi (tl bit_str)
          in if strchr str CHR '':'' \<noteq> None then
               if bits < 0 \<or> bits > 128 then (-2, ip, msk, bitp)
               else (0, switch_inet_pton pton AF_INET6 host ip, v6_mask 16 (nat bits) @ drop 16 msk, of_int bits)
             else
               if bits < 0 \<or> bits > 32 then (-2, ip, msk, bitp)
               else let ip = switch_inet_pton pton AF_INET host ip; ip = set_v4 ip (htonl (v4_of ip))
                    in (0, ip, set_v4 msk (0xFFFFFFFF AND NOT (shift_right32 over 0xFFFFFFFF (nat bits))), of_int bits))"

definition switch_network_list_perform_add_cidr_token ::
    "u32 \<Rightarrow> pton \<Rightarrow> ip_t \<times> ip_t \<times> u32 \<Rightarrow> network_list \<Rightarrow> string \<Rightarrow> bool \<Rightarrow> string option \<Rightarrow> switch_status_t \<times> network_list" where
  "switch_network_list_perform_add_cidr_token over pton junk list cidr_str ok token =
     (case junk of (ip0, mask0, bits0) \<Rightarrow>
      case switch_parse_cidr over pton cidr_str ip0 mask0 bits0 of (r, ip, msk, bits) \<Rightarrow>
        if r \<noteq> 0 then (SWITCH_STATUS_GENERR, list)
        else
          let node = \<lparr>nn_ip = ip, nn_mask = msk, nn_bits = bits,
                      nn_family = (if strchr cidr_str CHR '':'' \<noteq> None then AF_INET6 else AF_INET),
                      nn_ok = ok, nn_token = (if zstr token then None else token), nn_str = cidr_str\<rparr>
          in (SWITCH_STATUS_SUCCESS, list\<lparr>nl_nodes := node # nl_nodes list\<rparr>))"

fun add_cidr_all ::
    "u32 \<Rightarrow> pton \<Rightarrow> (nat \<Rightarrow> ip_t \<times> ip_t \<times> u32) \<Rightarrow> nat \<Rightarrow> string list \<Rightarrow> bool \<Rightarrow> string option \<Rightarrow> switch_status_t \<Rightarrow> network_list \<Rightarrow> switch_status_t \<times> network_list" where
  "add_cidr_all over pton junk i [] ok token status list = (status, list)"
| "add_cidr_all over pton junk i (a # rest) ok token status list =
     (case switch_network_list_perform_add_cidr_token over pton (junk i) list a ok token of (this_status, list') \<Rightarrow>
        add_cidr_all over pton junk (Suc i) rest ok token (if this_status \<noteq> SWITCH_STATUS_SUCCESS then this_status else status) list')"

definition switch_network_list_add_cidr_token ::
    "u32 \<Rightarrow> pton \<Rightarrow> (nat \<Rightarrow> ip_t \<times> ip_t \<times> u32) \<Rightarrow> network_list \<Rightarrow> string \<Rightarrow> bool \<Rightarrow> string option \<Rightarrow> (switch_status_t \<times> network_list) c" where
  "switch_network_list_add_cidr_token over pton junk list cidr_str ok token =
     (if strchr cidr_str CHR '','' \<noteq> None then
        bindE (switch_separate_string (Some cidr_str) CHR '','' 32) (\<lambda>argv.
          Inr (add_cidr_all over pton junk 0 argv ok token SWITCH_STATUS_SUCCESS list))
      else Inr (switch_network_list_perform_add_cidr_token over pton (junk 0) list cidr_str ok token))"

text \<open>The number of one bits of the mask, by parallel sums.\<close>

definition mask_bit_count :: "u32 \<Rightarrow> u32" where
  "mask_bit_count m =
     (let m = m - (drop_bit 1 m AND 0x55555555);
          m = (m AND 0x33333333) + (drop_bit 2 m AND 0x33333333)
      in drop_bit 24 (((m + drop_bit 4 m) AND 0x0F0F0F0F) * 0x01010101))"

text \<open>The node comes cleared from the pool, and its family is not set.\<close>

definition switch_network_list_add_host_mask ::
    "pton \<Rightarrow> ip_t \<times> ip_t \<Rightarrow> network_list \<Rightarrow> string \<Rightarrow> string \<Rightarrow> bool \<Rightarrow> switch_status_t \<times> network_list" where
  "switch_network_list_add_host_mask pton junk list host mask_str ok =
     (let ip = switch_inet_pton pton AF_INET host (fst junk);
          msk = switch_inet_pton pton AF_INET mask_str (snd junk);
          node = \<lparr>nn_ip = set_v4 (replicate 16 0) (htonl (v4_of ip)),
                  nn_mask = set_v4 (replicate 16 0) (htonl (v4_of msk)),
                  nn_bits = mask_bit_count (v4_of msk), nn_family = 0, nn_ok = ok, nn_token = None,
                  nn_str = host @ '':'' @ mask_str\<rparr>
      in (SWITCH_STATUS_SUCCESS, list\<lparr>nl_nodes := node # nl_nodes list\<rparr>))"

section \<open>The walk finds the longest prefix\<close>

text \<open>
  Both walks have the same shape: they skip what they may not look at, and keep the best match. The
  contract of such a walk, and what follows for it.
\<close>

definition best_node :: "(network_node \<Rightarrow> bool) \<Rightarrow> network_node list \<Rightarrow> u32 \<Rightarrow> network_node \<Rightarrow> bool" where
  "best_node P nodes bits n \<longleftrightarrow>
     (\<exists>pre post. nodes = pre @ n # post \<and> P n \<and> nn_bits n > bits \<and>
        (\<forall>m \<in> set pre. P m \<longrightarrow> nn_bits m < nn_bits n) \<and> (\<forall>m \<in> set post. P m \<longrightarrow> nn_bits m \<le> nn_bits n))"

locale longest_walk =
  fixes walk :: "network_node list \<Rightarrow> 'ip \<Rightarrow> bool \<Rightarrow> u32 \<Rightarrow> string option \<Rightarrow> bool \<times> string option"
    and matches :: "'ip \<Rightarrow> network_node \<Rightarrow> bool"
  assumes walk_Nil: "walk [] ip ok bits token = (ok, token)"
    and walk_Cons: "walk (node # nodes) ip ok bits token =
      (if matches ip node \<and> nn_bits node > bits then walk nodes ip (nn_ok node) (nn_bits node) (nn_token node)
       else walk nodes ip ok bits token)"
begin

lemma walk_none:
  "\<forall>n \<in> set nodes. matches ip n \<longrightarrow> nn_bits n \<le> bits \<Longrightarrow> walk nodes ip ok bits token = (ok, token)"
  by (induction nodes) (auto simp: walk_Nil walk_Cons)

lemma walk_best:
  "best_node (matches ip) nodes bits n \<Longrightarrow> walk nodes ip ok bits token = (nn_ok n, nn_token n)"
proof (induction nodes arbitrary: ok bits token)
  case (Cons a nodes)
  note IH = Cons.IH
  from Cons.prems obtain pre post where *: "a # nodes = pre @ n # post" "matches ip n" "nn_bits n > bits"
      "\<forall>m \<in> set pre. matches ip m \<longrightarrow> nn_bits m < nn_bits n" "\<forall>m \<in> set post. matches ip m \<longrightarrow> nn_bits m \<le> nn_bits n"
    by (auto simp: best_node_def)
  show ?case
  proof (cases pre)
    case Nil
    with * show ?thesis by (simp add: walk_Cons walk_none)
  next
    case (Cons p pre')
    with * have "best_node (matches ip) nodes (if matches ip a \<and> nn_bits a > bits then nn_bits a else bits) n"
      by (auto simp: best_node_def)
    then show ?thesis by (auto simp: walk_Cons IH split: if_splits)
  qed
qed (simp add: best_node_def)

lemma best_exists:
  "n \<in> set nodes \<Longrightarrow> matches ip n \<Longrightarrow> nn_bits n > bits \<Longrightarrow> \<exists>n. best_node (matches ip) nodes bits n"
proof (induction nodes arbitrary: n)
  case (Cons a nodes)
  show ?case
  proof (cases "\<exists>m. best_node (matches ip) nodes bits m")
    case True
    then obtain m pre post where m: "nodes = pre @ m # post" "matches ip m" "nn_bits m > bits"
        "\<forall>k \<in> set pre. matches ip k \<longrightarrow> nn_bits k < nn_bits m" "\<forall>k \<in> set post. matches ip k \<longrightarrow> nn_bits k \<le> nn_bits m"
      by (auto simp: best_node_def)
    show ?thesis
    proof (cases "matches ip a \<and> nn_bits m \<le> nn_bits a")
      case True
      then have "best_node (matches ip) (a # nodes) bits a"
        using m unfolding best_node_def by (intro exI [of _ "[]"] exI [of _ nodes]) fastforce
      then show ?thesis by blast
    next
      case False
      then have "best_node (matches ip) (a # nodes) bits m"
        using m unfolding best_node_def by (intro exI [of _ "a # pre"] exI [of _ post]) auto
      then show ?thesis by blast
    qed
  next
    case False
    with Cons have "n = a" "\<forall>k \<in> set nodes. matches ip k \<longrightarrow> \<not> nn_bits k > bits" by auto
    with Cons.prems have "best_node (matches ip) (a # nodes) bits a"
      unfolding best_node_def by (intro exI [of _ "[]"] exI [of _ nodes]) fastforce
    then show ?thesis by blast
  qed
qed simp

lemma walk_longest:
  "(\<exists>n. best_node (matches ip) nodes bits n \<and> walk nodes ip ok bits token = (nn_ok n, nn_token n)) \<or>
   list_all (\<lambda>n. matches ip n \<longrightarrow> nn_bits n \<le> bits) nodes \<and> walk nodes ip ok bits token = (ok, token)"
proof (cases "\<exists>n \<in> set nodes. matches ip n \<and> nn_bits n > bits")
  case True
  then obtain n where "best_node (matches ip) nodes bits n" using best_exists by blast
  then show ?thesis using walk_best by blast
next
  case False
  then have "\<forall>n \<in> set nodes. matches ip n \<longrightarrow> nn_bits n \<le> bits" by auto
  then show ?thesis by (simp add: walk_none list_all_iff)
qed

end

definition node_matches :: "u32 \<Rightarrow> network_node \<Rightarrow> bool" where
  "node_matches ip node \<longleftrightarrow>
     nn_family node \<noteq> AF_INET6 \<and> switch_test_subnet ip (v4_of (nn_ip node)) (v4_of (nn_mask node))"

definition node_matches6 :: "ip_t \<Rightarrow> network_node \<Rightarrow> bool" where
  "node_matches6 ip node \<longleftrightarrow> nn_family node \<noteq> AF_INET \<and> switch_testv6_subnet ip (nn_ip node) (nn_mask node)"

interpretation acl4: longest_walk validate_ip_walk node_matches
  by unfold_locales (auto simp: node_matches_def)

interpretation acl6: longest_walk validate_ip6_walk node_matches6
  by unfold_locales (auto simp: node_matches6_def)

section \<open>What an entry matches\<close>

lemma bytes_of_nat: "\<forall>d \<in> set ds. d < 256 \<Longrightarrow> map (\<lambda>d. unat (of_nat d :: u8)) ds = ds"
  by (induction ds) (simp_all add: unsigned_of_nat take_bit_nat_eq_self)

lemma v4_set [simp]: "v4_of (set_v4 ip w) = w"
proof -
  have "unat w < 256 ^ 4" using unsigned_less [of w, where ?'a = nat] by simp
  then show ?thesis
    using bytes_of_nat [OF word_bytes_less, of 4 "unat w"]
    by (simp add: v4_of_def set_v4_def comp_def word_of_bytes_def lanes_word_bytes)
qed

lemma word_bytes_of_bytes:
  assumes "length ds = 4" and "\<forall>d \<in> set ds. d < 256"
  shows "word_bytes 4 (unat (word_of_bytes ds :: u32)) = ds"
proof -
  have "lanes ds < 2 ^ 32" using lanes_less [OF assms(2)] assms(1) by simp
  then have "unat (word_of_bytes ds :: u32) = lanes ds"
    by (simp add: word_of_bytes_def unsigned_of_nat take_bit_nat_eq_self)
  then show ?thesis using word_bytes_lanes [OF assms(2)] assms(1) by simp
qed

lemma u8_less: "\<forall>d \<in> set (map unat (bs :: u8 list)). d < 256"
  using unsigned_less [where 'b = 8 and ?'a = nat] by auto

text \<open>The address a dotted quad stands for, most significant byte first.\<close>

definition quad :: "u8 list \<Rightarrow> u32" where
  "quad bs = word_of_bytes (rev (map unat bs))"

lemma htonl_v4: "length bs = 4 \<Longrightarrow> htonl (v4_of (bs @ rest)) = quad bs"
  by (simp add: htonl_def v4_of_def quad_def word_bytes_of_bytes u8_less)

lemma bit_eq_iff_all: "(x :: u32) = y \<longleftrightarrow> (\<forall>i. bit x i = bit y i)"
  by (auto intro: bit_eqI)

lemma prefix_mask:
  fixes a b :: u32
  assumes "n < 32"
  shows "a AND (0xFFFFFFFF AND NOT (drop_bit n 0xFFFFFFFF)) = b AND (0xFFFFFFFF AND NOT (drop_bit n 0xFFFFFFFF)) \<longleftrightarrow>
    drop_bit (32 - n) a = drop_bit (32 - n) b" (is "?l \<longleftrightarrow> ?r")
proof -
  define M where "M = (0xFFFFFFFF AND NOT (drop_bit n 0xFFFFFFFF) :: u32)"
  have m: "bit M i \<longleftrightarrow> 32 - n \<le> i \<and> i < 32" for i
  proof -
    have ones: "(0xFFFFFFFF :: u32) = -1" by simp
    show ?thesis unfolding M_def ones by (auto simp: bit_simps)
  qed
  have "?l \<longleftrightarrow> (\<forall>i < 32. 32 - n \<le> i \<longrightarrow> bit a i = bit b i)"
    unfolding M_def [symmetric] by (auto simp: bit_eq_iff bit_and_iff m)
  also have "\<dots> \<longleftrightarrow> (\<forall>j. j < n \<longrightarrow> bit a (32 - n + j) = bit b (32 - n + j))"
  proof
    assume *: "\<forall>j. j < n \<longrightarrow> bit a (32 - n + j) = bit b (32 - n + j)"
    have "bit a i = bit b i" if "i < 32" "32 - n \<le> i" for i
      using spec [OF *, of "i - (32 - n)"] that assms by simp
    then show "\<forall>i < 32. 32 - n \<le> i \<longrightarrow> bit a i = bit b i" by blast
  qed (use assms in auto)
  also have "\<dots> \<longleftrightarrow> ?r"
  proof -
    have out: "\<not> bit (x :: u32) (32 - n + j)" if "\<not> j < n" for x j
      using bit_imp_le_length [of x "32 - n + j"] assms that by auto
    have "?r \<longleftrightarrow> (\<forall>j. bit a (32 - n + j) = bit b (32 - n + j))"
      unfolding bit_eq_iff_all [of "drop_bit (32 - n) a"] by (simp only: bit_drop_bit_eq comp_apply)
    also have "\<dots> \<longleftrightarrow> (\<forall>j. j < n \<longrightarrow> bit a (32 - n + j) = bit b (32 - n + j))"
      using out by blast
    finally show ?thesis by blast
  qed
  finally show ?thesis .
qed

lemma prefix_mask_nonzero:
  assumes "0 < n" "n < 32"
  shows "0xFFFFFFFF AND NOT (drop_bit n (0xFFFFFFFF :: u32)) \<noteq> 0"
proof
  assume "0xFFFFFFFF AND NOT (drop_bit n (0xFFFFFFFF :: u32)) = 0"
  then have "drop_bit (32 - n) (-1 :: u32) = drop_bit (32 - n) 0"
    using prefix_mask [OF assms(2), of "-1" 0] by simp
  then have "bit (drop_bit (32 - n) (-1 :: u32)) 0 = bit (0 :: u32) 0" by simp
  then show False using assms by (simp add: bit_simps)
qed

lemma test_prefix:
  assumes "0 < n" and "n < 32"
  shows "switch_test_subnet x net (0xFFFFFFFF AND NOT (shift_right32 over 0xFFFFFFFF n)) \<longleftrightarrow>
     drop_bit (32 - n) x = drop_bit (32 - n) net"
  using assms prefix_mask_nonzero [OF assms] prefix_mask [of n net x]
  by (auto simp: switch_test_subnet_def shift_right32_def simp del: and_not_numerals)

lemma test_no_prefix:
  "switch_test_subnet x net (0xFFFFFFFF AND NOT (shift_right32 over 0xFFFFFFFF 0)) \<longleftrightarrow> net = 0 \<or> x = net"
  by (auto simp: switch_test_subnet_def shift_right32_def)

lemma test_full_prefix:
  "switch_test_subnet x net (0xFFFFFFFF AND NOT (shift_right32 over 0xFFFFFFFF 32)) \<longleftrightarrow> switch_test_subnet x net (NOT over)"
proof -
  have "(0xFFFFFFFF :: u32) = -1" by simp
  then have "0xFFFFFFFF AND NOT over = NOT over" by (metis and.left_neutral)
  then show ?thesis by (simp add: shift_right32_def del: and_not_numerals)
qed

lemma test_full_mask: "switch_test_subnet x net (NOT 0) \<longleftrightarrow> x = net" "switch_test_subnet x net (NOT 0xFFFFFFFF) \<longleftrightarrow> net = 0 \<or> x = net"
  by (auto simp: switch_test_subnet_def)

section \<open>The prefix length of a mask\<close>

text \<open>The parallel sums, byte by byte, and the table of the 256 values of a byte.\<close>

definition byte_sum2 :: "nat \<Rightarrow> nat" where "byte_sum2 d = d - (drop_bit 1 d AND 0x55)"
definition byte_sum4 :: "nat \<Rightarrow> nat" where "byte_sum4 d = (byte_sum2 d AND 0x33) + (drop_bit 2 (byte_sum2 d) AND 0x33)"
definition byte_sum8 :: "nat \<Rightarrow> nat" where "byte_sum8 d = byte_sum4 d mod 16 + byte_sum4 d div 16"
definition byte_ones :: "nat \<Rightarrow> nat" where "byte_ones d =
  d mod 2 + d div 2 mod 2 + d div 4 mod 2 + d div 8 mod 2 + d div 16 mod 2 + d div 32 mod 2 + d div 64 mod 2 + d div 128"
definition byte_sums_ok :: "nat \<Rightarrow> bool" where
  "byte_sums_ok d \<longleftrightarrow> (drop_bit 1 d AND 0x55) \<le> d \<and> byte_sum2 d < 256 \<and> byte_sum4 d mod 16 \<le> 4 \<and> byte_sum4 d div 16 \<le> 4 \<and>
     byte_sum8 d = byte_ones d \<and> byte_ones d \<le> 8"

lemma upto_256: "[0..<256] = 0 # 1 # [2..<(256::nat)]"
  by (metis One_nat_def Suc_1 numeral_less_iff one_less_numeral_iff semiring_norm(68) semiring_norm(76) semiring_norm(77) upt_conv_Cons zero_less_numeral)

lemma byte_sums_table: "list_all byte_sums_ok [0..<256]"
  unfolding upto_256
  by (simp add: upt_rec_numeral byte_sums_ok_def byte_sum2_def byte_sum4_def byte_sum8_def byte_ones_def)

lemma byte_sums: "d < 256 \<Longrightarrow> byte_sums_ok d"
  using byte_sums_table by (simp add: list_all_iff)

lemma mask_lanes:
  "(0x55555555 :: u32) = word_of_bytes [0x55, 0x55, 0x55, 0x55]" "(0x33333333 :: u32) = word_of_bytes [0x33, 0x33, 0x33, 0x33]"
  by (simp_all add: word_of_bytes_def)

lemma mask_sum2:
  assumes "\<forall>x \<in> {a, b, c, d}. x < 256"
  shows "word_of_bytes [a, b, c, d] - (drop_bit 1 (word_of_bytes [a, b, c, d]) AND 0x55555555) =
    (word_of_bytes (map byte_sum2 [a, b, c, d]) :: u32)"
proof -
  have "drop_bit 1 (word_of_bytes [a, b, c, d]) AND 0x55555555 = (word_of_bytes (map (\<lambda>x. drop_bit 1 x AND 0x55) [a, b, c, d]) :: u32)"
    unfolding mask_lanes using assms by (subst word_of_bytes_shift) simp_all
  moreover have "word_of_bytes (map (\<lambda>x. drop_bit 1 x AND 0x55) [a, b, c, d]) + word_of_bytes (map byte_sum2 [a, b, c, d]) =
      (word_of_bytes [a, b, c, d] :: u32)"
  proof -
    have le: "(drop_bit 1 x AND 0x55) + byte_sum2 x = x" if "x \<in> {a, b, c, d}" for x
      using byte_sums [of x] assms that unfolding byte_sums_ok_def byte_sum2_def by auto
    show ?thesis by (subst word_of_bytes_add) (simp_all only: length_map list.map list.size zip_Cons_Cons zip_Nil case_prod_conv le insert_iff simp_thms)
  qed
  ultimately show ?thesis by (metis add_diff_cancel_left')
qed

lemma mask_sum4:
  assumes "\<forall>x \<in> {a, b, c, d}. x < 256"
  shows "(word_of_bytes (map byte_sum2 [a, b, c, d]) AND 0x33333333) + (drop_bit 2 (word_of_bytes (map byte_sum2 [a, b, c, d])) AND 0x33333333) =
    (word_of_bytes (map byte_sum4 [a, b, c, d]) :: u32)"
proof -
  have lt: "byte_sum2 x < 256" if "x \<in> {a, b, c, d}" for x
    using byte_sums [of x] assms that unfolding byte_sums_ok_def by auto
  have "word_of_bytes (map byte_sum2 [a, b, c, d]) AND 0x33333333 = (word_of_bytes (map (\<lambda>x. byte_sum2 x AND 0x33) [a, b, c, d]) :: u32)"
    unfolding mask_lanes using lt by (subst word_of_bytes_and) simp_all
  moreover have "drop_bit 2 (word_of_bytes (map byte_sum2 [a, b, c, d])) AND 0x33333333 =
      (word_of_bytes (map (\<lambda>x. drop_bit 2 (byte_sum2 x) AND 0x33) [a, b, c, d]) :: u32)"
    unfolding mask_lanes using lt by (subst word_of_bytes_shift) simp_all
  ultimately show ?thesis
    by (simp only:) (subst word_of_bytes_add, simp_all only: length_map list.map list.size zip_Cons_Cons zip_Nil case_prod_conv byte_sum4_def)
qed

text \<open>The last fold, on the nibbles \<open>h\<close> and \<open>l\<close> of every byte.\<close>

lemma nibble_and:
  assumes "h \<le> 4" "l \<le> 4" "k \<le> (8::nat)"
  shows "(16 * h + l + h + 16 * k) AND 15 = h + l"
proof -
  have "(16 * h + l + h + 16 * k) AND 15 = take_bit 4 (16 * (h + k) + (h + l))"
    by (simp add: take_bit_eq_mask mask_eq_exp_minus_1 algebra_simps)
  also have "\<dots> = (16 * (h + k) + (h + l)) mod 16" by (simp only: take_bit_eq_mod) simp
  also have "\<dots> = h + l" using assms by (simp only: mod_mult_self4) simp
  finally show ?thesis .
qed

lemma mask_sum8:
  assumes "\<forall>x \<in> {h0, h1, h2, h3, l0, l1, l2, l3}. x \<le> (4::nat)"
  shows "(lanes [16 * h0 + l0, 16 * h1 + l1, 16 * h2 + l2, 16 * h3 + l3] +
      drop_bit 4 (lanes [16 * h0 + l0, 16 * h1 + l1, 16 * h2 + l2, 16 * h3 + l3])) AND 0x0F0F0F0F =
    lanes [h0 + l0, h1 + l1, h2 + l2, h3 + l3]"
proof -
  have "lanes [16 * h0 + l0, 16 * h1 + l1, 16 * h2 + l2, 16 * h3 + l3] +
      drop_bit 4 (lanes [16 * h0 + l0, 16 * h1 + l1, 16 * h2 + l2, 16 * h3 + l3]) =
    lanes [16 * h0 + l0 + h0 + 16 * l1, 16 * h1 + l1 + h1 + 16 * l2, 16 * h2 + l2 + h2 + 16 * l3, 16 * h3 + l3 + h3 + 16 * 0]"
  proof -
    have "drop_bit 4 (lanes [16 * h0 + l0, 16 * h1 + l1, 16 * h2 + l2, 16 * h3 + l3]) =
        h0 + 16 * (16 * h1 + l1 + 256 * (16 * h2 + l2 + 256 * (16 * h3 + l3)))"
      using assms unfolding lanes.simps drop_bit_eq_div by (intro div_nat_eqI) simp_all
    then show ?thesis by simp
  qed
  moreover have "(0x0F0F0F0F :: nat) = lanes [15, 15, 15, 15]" by simp
  moreover have "lanes [16 * h0 + l0 + h0 + 16 * l1, 16 * h1 + l1 + h1 + 16 * l2, 16 * h2 + l2 + h2 + 16 * l3, 16 * h3 + l3 + h3 + 16 * 0] AND
      lanes [15, 15, 15, 15] = lanes [h0 + l0, h1 + l1, h2 + l2, h3 + l3]"
    using assms nibble_and [of h0 l0 l1] nibble_and [of h1 l1 l2] nibble_and [of h2 l2 l3] nibble_and [of h3 l3 0]
    by (subst lanes_and) (simp_all del: lanes.simps)
  ultimately show ?thesis by (simp only:)
qed

text \<open>The number of one bits, counted one byte at a time.\<close>

lemma finite_bits: "finite {i. bit (n :: nat) i}"
proof (rule finite_subset)
  have "i < n" if "bit n i" for i
  proof (rule ccontr)
    assume "\<not> i < n"
    then have "n < 2 ^ i" using less_exp [of i] by linarith
    then show False using that by (simp add: bit_iff_odd)
  qed
  then show "{i. bit n i} \<subseteq> {..<n}" by blast
qed simp

lemma ones_half: "card {i. bit (n :: nat) i} = n mod 2 + card {i. bit (n div 2) i}"
proof -
  have "{i. bit n i} = (if odd n then {0} else {}) \<union> Suc ` {i. bit (n div 2) i}" (is "_ = ?a \<union> ?b")
  proof (rule set_eqI)
    fix i show "i \<in> {i. bit n i} \<longleftrightarrow> i \<in> ?a \<union> ?b"
      by (cases i) (auto simp: bit_0 bit_Suc image_iff)
  qed
  moreover have "card (?a \<union> ?b) = card ?a + card ?b"
    using finite_bits by (intro card_Un_disjoint) auto
  moreover have "card ?b = card {i. bit (n div 2) i}" by (intro card_image) simp
  ultimately show ?thesis by (simp add: odd_iff_mod_2_eq_one)
qed

lemma ones_low:
  "d < 2 ^ k \<Longrightarrow> card {i. bit (d + 2 ^ k * r :: nat) i} = (\<Sum>i<k. d div 2 ^ i mod 2) + card {i. bit r i}"
proof (induction k arbitrary: d)
  case (Suc k)
  have "(d + 2 ^ Suc k * r) mod 2 = d mod 2" "(d + 2 ^ Suc k * r) div 2 = d div 2 + 2 ^ k * r"
    by (simp_all add: mult.assoc)
  then have "card {i. bit (d + 2 ^ Suc k * r) i} = d mod 2 + card {i. bit (d div 2 + 2 ^ k * r) i}"
    using ones_half [of "d + 2 ^ Suc k * r"] by (simp only:)
  also have "\<dots> = d mod 2 + ((\<Sum>i<k. d div 2 div 2 ^ i mod 2) + card {i. bit r i})"
    using Suc.prems by (subst Suc.IH) simp_all
  finally show ?case
    unfolding sum.lessThan_Suc_shift by (simp only: power_0 div_by_1 power_Suc div_mult2_eq add.assoc)
qed simp

lemma ones_byte: "d < 256 \<Longrightarrow> card {i. bit (d + 256 * r :: nat) i} = byte_ones d + card {i. bit r i}"
  using ones_low [of d 8 r] by (simp add: byte_ones_def lessThan_nat_numeral)

lemma ones_lanes: "\<forall>d \<in> set ds. d < 256 \<Longrightarrow> card {i. bit (lanes ds) i} = sum_list (map byte_ones ds)"
proof (induction ds)
  case Nil
  have "{i. bit (0::nat) i} = {}" by simp
  then show ?case by (simp only: lanes.simps card.empty list.map sum_list.Nil)
qed (simp add: ones_byte)

text \<open>The product adds the four bytes up in the most significant one.\<close>

lemma mask_product:
  "of_nat (lanes [p, q, r, t]) * 0x01010101 = (of_nat (lanes [p, p + q, p + q + r, p + q + r + t]) :: u32)"
proof -
  have "lanes [p, q, r, t] * 0x01010101 = lanes [p, p + q, p + q + r, p + q + r + t] + 2 ^ 32 * lanes [q + r + t, r + t, t]"
    by simp
  then have "(of_nat (lanes [p, q, r, t] * 0x01010101) :: u32) = of_nat (lanes [p, p + q, p + q + r, p + q + r + t] + 2 ^ 32 * lanes [q + r + t, r + t, t])"
    by (simp only:)
  moreover have "(of_nat (2 ^ 32 * x) :: u32) = 0" for x
  proof -
    have "(2 :: u32) ^ 32 = 0" using word_exp_length_eq_0 [where 'a = 32] by simp
    then show ?thesis by (simp only: of_nat_mult of_nat_power of_nat_numeral mult_zero_left)
  qed
  ultimately show ?thesis by (simp only: of_nat_add of_nat_mult of_nat_numeral) simp
qed

lemma mask_top:
  assumes "p \<le> 8" "q \<le> 8" "r \<le> 8" "t \<le> 8"
  shows "unat (drop_bit 24 (of_nat (lanes [p, p + q, p + q + r, p + q + r + t]) :: u32)) = p + q + r + t"
proof -
  have "lanes [p, p + q, p + q + r, p + q + r + t] < 2 ^ 32" using assms by simp
  then have "unat (of_nat (lanes [p, p + q, p + q + r, p + q + r + t]) :: u32) = lanes [p, p + q, p + q + r, p + q + r + t]"
    by (simp only: unsigned_of_nat take_bit_nat_eq_self len_bit0 len_num1) (simp add: take_bit_nat_eq_self)
  moreover have "lanes [p, p + q, p + q + r, p + q + r + t] div 2 ^ 24 = p + q + r + t"
    using assms by (intro div_nat_eqI) simp_all
  ultimately show ?thesis by (simp only: unat_drop_bit_eq) (simp only: drop_bit_eq_div)
qed

lemma mask_bit_count_bytes:
  assumes "\<forall>x \<in> {a, b, c, d}. x < 256"
  shows "unat (mask_bit_count (word_of_bytes [a, b, c, d])) = byte_ones a + byte_ones b + byte_ones c + byte_ones d"
proof -
  define L where "L = lanes (map byte_sum4 [a, b, c, d])"
  define p where "p x = byte_sum4 x div 16 + byte_sum4 x mod 16" for x
  have ok: "byte_sum4 x mod 16 \<le> 4" "byte_sum4 x div 16 \<le> 4" "p x = byte_ones x" "byte_ones x \<le> 8" if "x \<in> {a, b, c, d}" for x
    using byte_sums [of x] assms that unfolding byte_sums_ok_def byte_sum8_def p_def by auto
  have fold: "(L + drop_bit 4 L) AND 0x0F0F0F0F = lanes [p a, p b, p c, p d]"
    using mask_sum8 [of "byte_sum4 a div 16" "byte_sum4 b div 16" "byte_sum4 c div 16" "byte_sum4 d div 16"
        "byte_sum4 a mod 16" "byte_sum4 b mod 16" "byte_sum4 c mod 16" "byte_sum4 d mod 16"] ok
    unfolding L_def p_def by (simp only: list.map mult_div_mod_eq) auto
  have b: "byte_sum4 x \<le> 68" if "x \<in> {a, b, c, d}" for x
    using ok(1,2) [OF that] by presburger
  have "L + drop_bit 4 L < 2 ^ 32" "L < 2 ^ 32"
    using b [of a] b [of b] b [of c] b [of d] unfolding L_def drop_bit_eq_div by simp_all
  then have "drop_bit 4 (of_nat L :: u32) = of_nat (drop_bit 4 L)"
    by (intro word_unat_eq_iff [THEN iffD2]) (simp add: unat_drop_bit_eq unsigned_of_nat take_bit_nat_eq_self)
  then have w: "(of_nat L + drop_bit 4 (of_nat L)) AND 0x0F0F0F0F = (of_nat (lanes [p a, p b, p c, p d]) :: u32)"
    unfolding fold [symmetric] of_nat_and_eq by simp
  have "mask_bit_count (word_of_bytes [a, b, c, d]) = drop_bit 24 (of_nat (lanes [p a, p b, p c, p d]) * 0x01010101)"
    unfolding mask_bit_count_def Let_def mask_sum2 [OF assms] mask_sum4 [OF assms]
    unfolding w [symmetric] L_def word_of_bytes_def ..
  also have "\<dots> = drop_bit 24 (of_nat (lanes [p a, p a + p b, p a + p b + p c, p a + p b + p c + p d]))"
    by (simp only: mask_product)
  finally show ?thesis
    using ok(4) by (simp only: mask_top ok(3) insert_iff simp_thms)
qed

lemma bit_of_nat_u32: "n < 2 ^ 32 \<Longrightarrow> bit (of_nat n :: u32) i \<longleftrightarrow> bit n i"
proof -
  assume "n < 2 ^ 32"
  then have "take_bit 32 n = n" by (simp add: take_bit_nat_eq_self)
  then have "bit n i \<longleftrightarrow> i < 32 \<and> bit n i" by (metis bit_take_bit_iff)
  then show ?thesis by (auto simp: bit_of_nat_iff)
qed

section \<open>Properties\<close>

text \<open>The parallel sums with which \<open>switch_network_list_add_host_mask\<close> computes the length of an entry
  from its mask count the one bits of the mask, for each of the 2^32 masks.\<close>

theorem mask_bit_count_ones: "unat (mask_bit_count m) = card {i. bit m i}"
proof -
  obtain a b c d where abcd: "word_bytes 4 (unat m) = [a, b, c, d]"
  proof -
    have "length (word_bytes 4 (unat m)) = Suc (Suc (Suc (Suc 0)))" by simp
    then show ?thesis using that by (auto simp only: length_Suc_conv length_0_conv)
  qed
  then have lt: "\<forall>x \<in> set [a, b, c, d]. x < 256" by (metis word_bytes_less)
  have "unat m < 256 ^ 4" using unsigned_less [of m, where ?'a = nat] by simp
  then have u: "unat m = lanes [a, b, c, d]" using lanes_word_bytes [of 4 "unat m"] abcd by (simp only: mod_less)
  then have m: "m = word_of_bytes [a, b, c, d]" unfolding word_of_bytes_def by (simp add: u [symmetric] del: lanes.simps)
  have "card {i. bit m i} = card {i. bit (lanes [a, b, c, d]) i}"
    using bit_of_nat_u32 [of "unat m"] unsigned_less [of m, where ?'a = nat] by (simp add: u [symmetric] del: lanes.simps)
  also have "\<dots> = byte_ones a + byte_ones b + byte_ones c + byte_ones d"
    using ones_lanes [OF lt] by simp
  also have "\<dots> = unat (mask_bit_count m)" unfolding m using lt by (intro mask_bit_count_bytes [symmetric]) simp
  finally show ?thesis by simp
qed

text \<open>C8. The verdict on an address is that of the longest prefix that covers it: the verdict and the token
  come from an entry that matches, no matching entry has a longer prefix, and among those of the same
  length it is the one added last (the first in the list). When nothing but entries of length 0
  matches, the verdict is the list's default. The same holds for IPv4 and IPv6 addresses.\<close>

theorem acl_longest_prefix:
  "((\<exists>n. best_node (node_matches ip) (nl_nodes l) 0 n \<and>
       switch_network_list_validate_ip_token l ip token = (nn_ok n, nn_token n)) \<or>
    list_all (\<lambda>n. \<not> (node_matches ip n \<and> nn_bits n > 0)) (nl_nodes l) \<and>
       switch_network_list_validate_ip_token l ip token = (nl_default_type l, token)) \<and>
   ((\<exists>n. best_node (node_matches6 ip6) (nl_nodes l) 0 n \<and>
       switch_network_list_validate_ip6_token l ip6 token = (nn_ok n, nn_token n)) \<or>
    list_all (\<lambda>n. \<not> (node_matches6 ip6 n \<and> nn_bits n > 0)) (nl_nodes l) \<and>
       switch_network_list_validate_ip6_token l ip6 token = (nl_default_type l, token))"
  using acl4.walk_longest [of ip "nl_nodes l" 0 "nl_default_type l" token]
    acl6.walk_longest [of ip6 "nl_nodes l" 0 "nl_default_type l" token]
  by (simp add: switch_network_list_validate_ip_token_def switch_network_list_validate_ip6_token_def list_all_iff not_less imp_conjR)

lemma colon_not_decimal: "CHR '':'' \<notin> set (decimal n)"
  using decimal_digits [of n] by (auto simp: isdigit_c_def code_def)

lemma cidr_text:
  assumes "length host \<le> 114" and "n < 2 ^ 31"
  shows "take 126 (host @ ''/'' @ decimal n) = host @ CHR ''/'' # decimal n"
    and "take 126 (host @ ''/-'' @ decimal n) = host @ CHR ''/'' # CHR ''-'' # decimal n"
    and "atoi (decimal n) = int n" and "atoi (CHR ''-'' # decimal n) = - int n"
proof -
  have "length (decimal n) \<le> Suc 9" using assms(2) by (intro decimal_length) simp
  then show "take 126 (host @ ''/'' @ decimal n) = host @ CHR ''/'' # decimal n"
    "take 126 (host @ ''/-'' @ decimal n) = host @ CHR ''/'' # CHR ''-'' # decimal n" using assms(1) by simp_all
  show "atoi (decimal n) = int n" using atoi_decimal [of n "[]"] assms(2) by simp
  have t: "takeWhile isdigit_c (decimal n) = decimal n" using takeWhile_digits [OF decimal_digits, of "[]" n] by simp
  have "sign_split (dropWhile isspace_c (CHR ''-'' # decimal n)) = (True, decimal n)"
    by (simp add: sign_split_def isspace_c_def code_def)
  then have "atol (CHR ''-'' # decimal n) = - int n" using assms(2) by (simp add: atol_def t decimal_value)
  then show "atoi (CHR ''-'' # decimal n) = - int n" using assms(2)
    by (simp add: atoi_def signed_take_bit_int_eq_self)
qed

lemma parse_cidr_v4:
  assumes "CHR ''/'' \<notin> set host" and "CHR '':'' \<notin> set host" and "length host \<le> 114" and "n \<le> 32"
    and "pton AF_INET host = Some bs" and "length bs = 4"
  shows "switch_parse_cidr over pton (host @ ''/'' @ decimal n) ip msk b =
    (0, set_v4 (bs @ drop 4 ip) (quad bs), set_v4 msk (0xFFFFFFFF AND NOT (shift_right32 over 0xFFFFFFFF n)), of_nat n)"
proof -
  have "n < 2 ^ 31" using assms(4) by simp
  note ct = cidr_text [OF assms(3) this]
  have "strchr (host @ ''/'' @ decimal n) CHR '':'' = None" using assms(2) colon_not_decimal by simp
  then show ?thesis
    using assms(4-6) ct(1,3)
    by (simp add: switch_parse_cidr_def strchr_append [OF assms(1)] before_char_append [OF assms(1)] switch_inet_pton_def
        htonl_v4 del: strchr_None and_not_numerals)
qed

text \<open>C33. An IPv4 entry \<open>a.b.c.d/n\<close>, n at most 32, is added at the head of the list with length n. With n from 1 to 31 an address
  matches it exactly when its first n bits are those of \<open>a.b.c.d\<close>. With n = 0 only \<open>a.b.c.d\<close> itself matches, or every address
  when that is \<open>0.0.0.0\<close>. With n = 32 the code shifts by the full width, which C leaves undefined: where the shift
  gives 0 only \<open>a.b.c.d\<close> matches, and where it leaves the word as it is the entry behaves as with n = 0.\<close>

theorem cidr_entry_prefix:
  assumes "CHR ''/'' \<notin> set host" and "CHR '':'' \<notin> set host" and "length host \<le> 114" and "n \<le> 32"
    and "pton AF_INET host = Some bs" and "length bs = 4"
  shows "\<exists>node. switch_network_list_perform_add_cidr_token over pton junk l (host @ ''/'' @ decimal n) ok token =
      (SWITCH_STATUS_SUCCESS, l\<lparr>nl_nodes := node # nl_nodes l\<rparr>) \<and>
    nn_bits node = of_nat n \<and> nn_ok node = ok \<and>
    (0 < n \<and> n < 32 \<longrightarrow> (\<forall>x. node_matches x node \<longleftrightarrow> drop_bit (32 - n) x = drop_bit (32 - n) (quad bs))) \<and>
    (n = 0 \<or> n = 32 \<and> over = 0xFFFFFFFF \<longrightarrow> (\<forall>x. node_matches x node \<longleftrightarrow> quad bs = 0 \<or> x = quad bs)) \<and>
    (n = 32 \<and> over = 0 \<longrightarrow> (\<forall>x. node_matches x node \<longleftrightarrow> x = quad bs))"
proof -
  obtain ip0 m0 b0 where junk: "junk = (ip0, m0, b0)" by (cases junk)
  note parse = parse_cidr_v4 [where pton = pton, OF assms]
  define node where "node = \<lparr>nn_ip = set_v4 (bs @ drop 4 ip0) (quad bs),
    nn_mask = set_v4 m0 (0xFFFFFFFF AND NOT (shift_right32 over 0xFFFFFFFF n)), nn_bits = of_nat n, nn_family = AF_INET,
    nn_ok = ok, nn_token = (if zstr token then None else token), nn_str = host @ ''/'' @ decimal n\<rparr>"
  have add: "switch_network_list_perform_add_cidr_token over pton junk l (host @ ''/'' @ decimal n) ok token =
      (SWITCH_STATUS_SUCCESS, l\<lparr>nl_nodes := node # nl_nodes l\<rparr>)"
    using assms(2) colon_not_decimal [of n]
    unfolding switch_network_list_perform_add_cidr_token_def junk parse node_def by simp
  have m: "node_matches x node \<longleftrightarrow> switch_test_subnet x (quad bs) (0xFFFFFFFF AND NOT (shift_right32 over 0xFFFFFFFF n))" for x
    by (simp add: node_matches_def node_def AF_INET_def AF_INET6_def)
  have "node_matches x node \<longleftrightarrow> drop_bit (32 - n) x = drop_bit (32 - n) (quad bs)" if "0 < n \<and> n < 32" for x
    using that unfolding m by (intro test_prefix) simp_all
  moreover have "node_matches x node \<longleftrightarrow> quad bs = 0 \<or> x = quad bs" if "n = 0 \<or> n = 32 \<and> over = 0xFFFFFFFF" for x
    using that test_no_prefix test_full_prefix test_full_mask(2) unfolding m by metis
  moreover have "node_matches x node \<longleftrightarrow> x = quad bs" if "n = 32 \<and> over = 0" for x
    using that test_full_prefix test_full_mask(1) unfolding m by metis
  ultimately show ?thesis using add by (intro exI [of _ node]) (simp add: node_def)
qed

text \<open>A resolver that knows one address, and an empty list, for the examples.\<close>

definition demo_pton :: pton where
  "demo_pton af host = (if af = AF_INET \<and> host = ''10.0.0.0'' then Some [10, 0, 0, 0] else None)"

definition demo_list :: network_list where
  "demo_list = \<lparr>nl_nodes = [], nl_default_type = False, nl_name = ''lan''\<rparr>"

theorem cidr_entry_prefix_witness:
  "demo_pton AF_INET ''10.0.0.0'' = Some [10, 0, 0, 0] \<and>
   (\<exists>node. switch_network_list_perform_add_cidr_token 0 demo_pton ([], [], 0) demo_list (''10.0.0.0'' @ ''/'' @ decimal 8) True None =
      (SWITCH_STATUS_SUCCESS, demo_list\<lparr>nl_nodes := [node]\<rparr>) \<and>
     node_matches 0x0A010203 node \<and> \<not> node_matches 0x0B010203 node)"
proof -
  have q: "quad [10, 0, 0, 0] = 0x0A000000" by (simp add: quad_def word_of_bytes_def)
  have "drop_bit 24 (0x0A010203 :: u32) = drop_bit 24 0x0A000000" "drop_bit 24 (0x0B010203 :: u32) \<noteq> drop_bit 24 0x0A000000"
    by (simp_all add: drop_bit_numeral_bit0)
  then show ?thesis
    using cidr_entry_prefix [of "''10.0.0.0''" 8 demo_pton "[10, 0, 0, 0]" 0 "([], [], 0)" demo_list True None]
    by (auto simp: demo_pton_def demo_list_def q)
qed

text \<open>C34. What \<open>switch_network_list_perform_add_cidr_token\<close> accepts, for a host text of at most 114 characters without a slash and any n
  below 2^31: \<open>host/n\<close> is added, as one new entry with length n at the head of the list, exactly when n is at most 32, or 128 when the host
  has a colon. \<open>host/n\<close> with a larger n, \<open>host/-n\<close> with n > 0 and the host without a slash are rejected, and the list stays
  as it is.\<close>

theorem cidr_rejected:
  fixes host :: string and n :: nat
  defines "limit \<equiv> if CHR '':'' \<in> set host then 128 else (32 :: nat)"
  assumes "CHR ''/'' \<notin> set host" and "length host \<le> 114" and "n < 2 ^ 31"
  shows "switch_network_list_perform_add_cidr_token over pton junk l host ok token = (SWITCH_STATUS_GENERR, l) \<and>
    (0 < n \<longrightarrow> switch_network_list_perform_add_cidr_token over pton junk l (host @ ''/-'' @ decimal n) ok token = (SWITCH_STATUS_GENERR, l)) \<and>
    (limit < n \<longrightarrow> switch_network_list_perform_add_cidr_token over pton junk l (host @ ''/'' @ decimal n) ok token = (SWITCH_STATUS_GENERR, l)) \<and>
    (n \<le> limit \<longrightarrow> (\<exists>node. switch_network_list_perform_add_cidr_token over pton junk l (host @ ''/'' @ decimal n) ok token =
        (SWITCH_STATUS_SUCCESS, l\<lparr>nl_nodes := node # nl_nodes l\<rparr>) \<and> nn_bits node = of_nat n \<and> nn_ok node = ok \<and>
        nn_family node = (if CHR '':'' \<in> set host then AF_INET6 else AF_INET)))"
proof -
  note ct = cidr_text [OF assms(3,4)] and add = switch_network_list_perform_add_cidr_token_def
  obtain ip0 m0 b0 where junk: "junk = (ip0, m0, b0)" by (cases junk)
  have "CHR ''/'' \<notin> set (take 126 host)" using assms(2) in_set_takeD by fast
  then have "strchr (take 126 host) CHR ''/'' = None" by simp
  then have none: "switch_network_list_perform_add_cidr_token over pton junk l host ok token = (SWITCH_STATUS_GENERR, l)"
    by (simp add: add switch_parse_cidr_def junk Let_def del: strchr_None)
  have colon: "strchr (host @ ''/'' @ decimal n) CHR '':'' = None \<longleftrightarrow> CHR '':'' \<notin> set host"
    "strchr (host @ ''/-'' @ decimal n) CHR '':'' = None \<longleftrightarrow> CHR '':'' \<notin> set host"
    using colon_not_decimal [of n] by auto
  have neg: "fst (switch_parse_cidr over pton (host @ ''/-'' @ decimal n) ip0 m0 b0) = -2" if "0 < n"
    unfolding switch_parse_cidr_def Let_def ct strchr_append [OF assms(2)] option.case list.sel using that by simp
  have "(fst (switch_parse_cidr over pton (host @ ''/'' @ decimal n) ip0 m0 b0) = (if n \<le> limit then 0 else -2)) \<and>
      (n \<le> limit \<longrightarrow> snd (snd (snd (switch_parse_cidr over pton (host @ ''/'' @ decimal n) ip0 m0 b0))) = of_nat n)"
    unfolding switch_parse_cidr_def Let_def ct strchr_append [OF assms(2)] option.case list.sel colon(1) limit_def by simp
  then obtain ip msk where pos: "n \<le> limit \<Longrightarrow> switch_parse_cidr over pton (host @ ''/'' @ decimal n) ip0 m0 b0 = (0, ip, msk, of_nat n)"
    "limit < n \<Longrightarrow> fst (switch_parse_cidr over pton (host @ ''/'' @ decimal n) ip0 m0 b0) = -2"
    by (metis not_le prod.collapse)
  show ?thesis
    using none neg pos colon(1) unfolding add junk by (auto simp: split_beta simp del: strchr_None append.simps)
qed

theorem cidr_rejected_witness:
  "switch_network_list_perform_add_cidr_token 0 demo_pton ([], [], 0) demo_list (''10.0.0.0'' @ ''/'' @ decimal 33) True None =
     (SWITCH_STATUS_GENERR, demo_list) \<and>
   (\<exists>node. switch_network_list_perform_add_cidr_token 0 demo_pton ([], [], 0) demo_list (''10.0.0.0'' @ ''/'' @ decimal 32) True None =
     (SWITCH_STATUS_SUCCESS, demo_list\<lparr>nl_nodes := [node]\<rparr>))"
  using cidr_rejected [of "''10.0.0.0''" 33 0 demo_pton "([], [], 0)" demo_list True None]
    cidr_rejected [of "''10.0.0.0''" 32 0 demo_pton "([], [], 0)" demo_list True None]
  by (auto simp: demo_list_def)

end
