(* ===== verification/FS_When.thy ===== *)
theory FS_When
  imports FS_Split
begin

text \<open>
  Conditions on dates and times: \<open>switch_split_time\<close>, \<open>switch_split_date\<close>, \<open>switch_fulldate_cmp\<close>,
  \<open>switch_dow_cmp\<close>, \<open>switch_number_cmp\<close> and \<open>switch_tod_cmp\<close> in \<^verbatim>\<open>src/src/lib/libfreeswitch/switch_utils.c\<close>, and
  \<open>switch_xml_std_datetime_check\<close> with \<open>switch_xml_attr\<close> in \<^verbatim>\<open>src/src/lib/libfreeswitch/switch_xml.c\<close>, which composes them.
  The broken-down times come from the C library and the runtime: \<open>mktime\<close> and the conversions of the
  current time are parameters. A value of type \<open>long\<close> assigned to an \<open>int\<close> keeps its low 32 bits; the sums of
  products of seconds are taken in the integers.
\<close>

section \<open>Splitting times and dates\<close>

definition to_int :: "int \<Rightarrow> int" where
  "to_int v = signed_take_bit 31 v"

definition after_char :: "string \<Rightarrow> string" where
  "after_char s = drop 1 s"

text \<open>The three results, unchanged where the code does not write them.\<close>

definition switch_split_time :: "string \<Rightarrow> int \<times> int \<times> int \<Rightarrow> int \<times> int \<times> int" where
  "switch_split_time exp old =
     (case strchr exp CHR '':'' of
        None \<Rightarrow> old
      | Some p \<Rightarrow>
          let shour = before_char exp CHR '':''; smin = after_char p;
              (smin, ssec) = (case strchr smin CHR '':'' of
                 None \<Rightarrow> (smin, ''00'') | Some q \<Rightarrow> (before_char smin CHR '':'', after_char q))
          in (to_int (atol shour), to_int (atol smin), to_int (atol ssec)))"

definition switch_split_date :: "string \<Rightarrow> int \<times> int \<times> int \<Rightarrow> int \<times> int \<times> int" where
  "switch_split_date exp old =
     (case strchr exp CHR ''-'' of
        None \<Rightarrow> old
      | Some p \<Rightarrow>
          let syear = before_char exp CHR ''-''; smonth = after_char p
          in case strchr smonth CHR ''-'' of
               None \<Rightarrow> old
             | Some q \<Rightarrow> (to_int (atol syear), to_int (atol (before_char smonth CHR ''-'')), to_int (atol (after_char q))))"

record tm =
  tm_sec :: int
  tm_min :: int
  tm_hour :: int
  tm_mday :: int
  tm_mon :: int
  tm_year :: int
  tm_wday :: int
  tm_yday :: int
  tm_isdst :: int
  tm_gmtoff :: int

definition tm_of :: "int \<times> int \<times> int \<Rightarrow> int \<times> int \<times> int \<Rightarrow> tm" where
  "tm_of date time = (case (date, time) of ((year, month, day), (hour, mint, sec)) \<Rightarrow>
     \<lparr>tm_sec = sec, tm_min = mint, tm_hour = hour, tm_mday = day, tm_mon = month - 1, tm_year = year - 1900,
      tm_wday = 0, tm_yday = 0, tm_isdst = 0, tm_gmtoff = 0\<rparr>)"

text \<open>Division of C, which rounds towards zero, and its remainder.\<close>

definition c_div :: "int \<Rightarrow> int \<Rightarrow> int" where
  "c_div a b = sgn a * sgn b * (\<bar>a\<bar> div \<bar>b\<bar>)"

definition c_rem :: "int \<Rightarrow> int \<Rightarrow> int" where
  "c_rem a b = a - b * c_div a b"

text \<open>The six numbers start as whatever is on the stack; the second half keeps those of the first.\<close>

definition switch_fulldate_cmp ::
    "(tm \<Rightarrow> int) \<Rightarrow> (int \<times> int \<times> int) \<times> (int \<times> int \<times> int) \<Rightarrow> string \<Rightarrow> int \<Rightarrow> bool" where
  "switch_fulldate_cmp mktime junk exp ts =
     (case strchr exp CHR ''~'' of
        None \<Rightarrow> False
      | Some p \<Rightarrow>
          let sStart = before_char exp CHR ''~''; sEnd = after_char p
          in case strchr sStart (CHR '' '') of
               None \<Rightarrow> False
             | Some sTime \<Rightarrow>
                 let date = switch_split_date (before_char sStart (CHR '' '')) (fst junk);
                     time = switch_split_time (after_char sTime) (snd junk);
                     tsStart = mktime (tm_of date time)
                 in case strchr sEnd (CHR '' '') of
                      None \<Rightarrow> False
                    | Some sTime' \<Rightarrow>
                        let date' = switch_split_date (before_char sEnd (CHR '' '')) date;
                            time' = switch_split_time (after_char sTime') time;
                            tsEnd = mktime (tm_of date' time')
                        in tsStart \<le> c_div ts 1000000 \<and> tsEnd > c_div ts 1000000)"

section \<open>Days of the week\<close>

definition DOW :: "string list" where
  "DOW = [''sun'', ''mon'', ''tue'', ''wed'', ''thu'', ''fri'', ''sat'']"

text \<open>A negative number indexes in front of the array: \<open>val >= 7\<close> compares as unsigned, so it goes through the remainder.\<close>

definition switch_dow_int2str :: "int \<Rightarrow> string" where
  "switch_dow_int2str val = DOW ! nat (val mod 2 ^ 64 mod 7)"

fun dow_find :: "string list \<Rightarrow> string \<Rightarrow> int \<Rightarrow> int" where
  "dow_find [] exp x = -1"
| "dow_find (d # ds) exp x = (if strncasecmp_eq d exp 3 then x + 1 else dow_find ds exp (x + 1))"

definition switch_dow_str2int :: "string \<Rightarrow> int" where
  "switch_dow_str2int exp = dow_find DOW exp 0"

definition DOW_ERR :: int where "DOW_ERR = -2"
definition DOW_EOF :: int where "DOW_EOF = -1"
definition DOW_HYPHEN :: int where "DOW_HYPHEN = 45"
definition DOW_COMA :: int where "DOW_COMA = 44"

definition dow_read_token :: "string \<Rightarrow> int \<times> string" where
  "dow_read_token s =
     (let i = switch_dow_str2int s in
      case s of
        [] \<Rightarrow> (if i \<noteq> 0 \<and> i \<noteq> -1 then (i, drop 3 s) else (DOW_EOF, s))
      | c # t \<Rightarrow>
          if c = CHR ''-'' then (DOW_HYPHEN, t)
          else if c = CHR '','' then (DOW_COMA, t)
          else if 49 \<le> code c \<and> code c \<le> 55 then (int (code c) - 48, t)
          else if i \<noteq> 0 \<and> i \<noteq> -1 then (i, drop 3 s)
          else (DOW_ERR, s))"

lemma str2int_nonempty: "switch_dow_str2int [] = -1"
  by (simp add: switch_dow_str2int_def DOW_def strncasecmp_eq_def)

lemma dow_read_shorter:
  "dow_read_token s = (cur, p) \<Longrightarrow> cur \<noteq> DOW_EOF \<Longrightarrow> cur \<noteq> DOW_ERR \<Longrightarrow> length p < length s"
  by (auto simp: dow_read_token_def Let_def str2int_nonempty split: list.splits if_splits)

function dow_loop :: "string \<Rightarrow> int \<Rightarrow> int \<Rightarrow> int \<Rightarrow> bool" where
  "dow_loop p prev range_start val =
     (case dow_read_token p of (cur, p') \<Rightarrow>
        if cur = DOW_EOF then False
        else if cur = DOW_COMA then dow_loop p' DOW_EOF range_start val
        else if cur = DOW_HYPHEN then dow_loop p' cur prev val
        else if cur = DOW_ERR then False
        else if range_start \<noteq> DOW_EOF then
          if val \<ge> range_start \<and> val \<le> cur then True else dow_loop p' cur DOW_EOF val
        else if val = cur then True
        else dow_loop p' cur range_start val)"
  by pat_completeness auto
termination
  by (relation "measure (\<lambda>(p, _). length p)") (auto dest!: sym [of "(_, _)"] dow_read_shorter simp: DOW_COMA_def DOW_HYPHEN_def DOW_EOF_def DOW_ERR_def)

declare dow_loop.simps [simp del]

definition switch_dow_cmp :: "string \<Rightarrow> int \<Rightarrow> bool" where
  "switch_dow_cmp exp val = dow_loop exp DOW_EOF DOW_EOF val"

section \<open>Numbers and times of day\<close>

text \<open>
  \<open>p\<close> is where the next item of a list starts. The search for the comma behind it begins one character
  further on, which is past the end of the string when nothing follows the last comma.
\<close>

function number_loop :: "string \<Rightarrow> string option \<Rightarrow> int \<Rightarrow> bool c" where
  "number_loop cur p val =
     (if atol cur = val then Inr True
      else case p of
          None \<Rightarrow> Inr False
        | Some [] \<Rightarrow> Inl Out_Of_Bounds
        | Some (c # t) \<Rightarrow> number_loop (c # t) (map_option after_char (strchr t CHR '','')) val)"
  by pat_completeness auto
termination
  by (relation "measure (\<lambda>(cur, p, val). case p of None \<Rightarrow> 0 | Some q \<Rightarrow> Suc (length q))")
    (auto simp: strchr_eq after_char_def less_Suc_eq_le intro: le_SucI length_dropWhile_le)

declare number_loop.simps [simp del]

definition switch_number_cmp :: "string \<Rightarrow> int \<Rightarrow> bool c" where
  "switch_number_cmp exp val =
     (case strchr exp CHR ''-'' of
        Some p \<Rightarrow> Inr (val \<ge> to_int (atol exp) \<and> val \<le> to_int (atol (after_char p)))
      | None \<Rightarrow>
          case strchr exp CHR '','' of
            Some p \<Rightarrow> number_loop exp (Some (after_char p)) val
          | None \<Rightarrow> Inr (atol exp = val))"

definition seconds_of :: "string \<Rightarrow> string \<Rightarrow> string \<Rightarrow> int" where
  "seconds_of h m s = atol h * 60 * 60 + atol m * 60 + atol s"

definition split_seconds :: "string \<Rightarrow> string \<times> string" where
  "split_seconds m = (case strchr m CHR '':'' of
     None \<Rightarrow> (m, ''00'') | Some p \<Rightarrow> (before_char m CHR '':'', after_char p))"

definition switch_tod_cmp :: "string \<Rightarrow> int \<Rightarrow> bool" where
  "switch_tod_cmp exp val =
     (case strchr exp CHR '':'' of
        None \<Rightarrow> False
      | Some p \<Rightarrow>
          let minh = before_char exp CHR '':''; minm = after_char p
          in case strchr minm CHR ''-'' of
               None \<Rightarrow> False
             | Some maxh \<Rightarrow>
                 case strchr maxh CHR '':'' of
                   None \<Rightarrow> False
                 | Some q \<Rightarrow>
                     let (minm, mins) = split_seconds (before_char minm CHR ''-'');
                         (maxm, maxs) = split_seconds (after_char q);
                         maxh = after_char (before_char maxh CHR '':'')
                     in seconds_of minh minm mins \<le> val \<and> val < seconds_of maxh maxm maxs)"

section \<open>The check of a condition\<close>

text \<open>
  What \<open>switch_xml_attr\<close> sees of a tag: its name, its attributes, and the default attributes the root tag
  has for each tag name. A tag without an attribute array has \<open>None\<close>.
\<close>

record xml_tag =
  xt_name :: "string option"
  xt_attr :: "(string \<times> string) list option"
  xt_defaults :: "(string \<times> (string \<times> string option) list) list option"

fun attr_find :: "(string \<times> 'a) list \<Rightarrow> string \<Rightarrow> 'a option" where
  "attr_find [] attr = None"
| "attr_find ((n, v) # as) attr = (if n = attr then Some v else attr_find as attr)"

text \<open>A tag without a name matches the first of the default lists.\<close>

fun default_find :: "(string \<times> (string \<times> string option) list) list \<Rightarrow> string option \<Rightarrow> (string \<times> string option) list option" where
  "default_find [] name = None"
| "default_find ((t, ds) # rest) name = (if name = None \<or> name = Some t then Some ds else default_find rest name)"

definition switch_xml_attr :: "xml_tag option \<Rightarrow> string \<Rightarrow> string option" where
  "switch_xml_attr xml attr =
     (case xml of None \<Rightarrow> None
      | Some x \<Rightarrow>
          (case xt_attr x of None \<Rightarrow> None
           | Some as \<Rightarrow>
               (case attr_find as attr of
                  Some v \<Rightarrow> Some v
                | None \<Rightarrow>
                    (case xt_defaults x of None \<Rightarrow> None
                     | Some defs \<Rightarrow>
                         (case default_find defs (xt_name x) of None \<Rightarrow> None
                          | Some ds \<Rightarrow> (case attr_find ds attr of None \<Rightarrow> None | Some v \<Rightarrow> v))))))"

text \<open>The clock of the runtime: the time now, and the three ways it is broken down.\<close>

record clock =
  ck_now :: int
  ck_exp_lt :: tm
  ck_exp_tz :: "int \<Rightarrow> tm"
  ck_exp_tz_name :: "string \<Rightarrow> tm"

definition week_of_month :: "tm \<Rightarrow> int" where
  "week_of_month t =
     (let firstdow = c_rem (7 - c_rem (tm_mday t - (tm_wday t + 1)) 7) 7
      in - (- (tm_mday t + firstdow) div 7))"

text \<open>One test of the sequence: it runs only while everything matches so far and its attribute is there.\<close>

definition and_test :: "int c \<Rightarrow> string option \<Rightarrow> (string \<Rightarrow> bool c) \<Rightarrow> int c" where
  "and_test r attr test = bindE r (\<lambda>time_match.
     case attr of
       None \<Rightarrow> Inr time_match
     | Some a \<Rightarrow> if time_match \<noteq> 0 then bindE (test a) (\<lambda>b. Inr (if b then 1 else 0)) else Inr time_match)"

definition switch_xml_std_datetime_check ::
    "(tm \<Rightarrow> int) \<Rightarrow> (int \<times> int \<times> int) \<times> (int \<times> int \<times> int) \<Rightarrow> clock \<Rightarrow> xml_tag option \<Rightarrow> int option \<Rightarrow> string option \<Rightarrow> int c" where
  "switch_xml_std_datetime_check mktime junk clk xcond offset tzname =
     (let attr = switch_xml_attr xcond;
          tzoff = attr ''tz-offset''; isdst = attr ''dst'';
          dst = (if \<not> zstr isdst then (if switch_true isdst then 1 else 0) else -1000 :: int);
          loffset = (if \<not> zstr tzoff \<and> switch_is_number (the tzoff) then atoi (the tzoff) else -1000);
          tm2 = ck_exp_lt clk;
          tm = (case offset of Some off \<Rightarrow> ck_exp_tz clk (off * 3600)
                | None \<Rightarrow> if \<not> zstr tzname then ck_exp_tz_name clk (the tzname) else tm2);
          eoffset = (case offset of Some off \<Rightarrow> off | None \<Rightarrow> -1000);
          eoffset = (if eoffset = -1000 then c_div (tm_gmtoff tm) 3600 else eoffset);
          loffset = (if loffset = -1000 then eoffset else loffset);
          r = (Inr (-1 :: int) :: int c);
          r = and_test r tzoff (\<lambda>_. Inr (loffset = eoffset));
          r = bindE r (\<lambda>time_match. Inr (if time_match \<noteq> 0 \<and> dst > -1
                then (if tm_isdst tm2 > 0 \<and> dst > 0 then 1 else 0) else time_match));
          r = and_test r (attr ''date-time'') (\<lambda>x. Inr (switch_fulldate_cmp mktime junk x (ck_now clk)));
          r = and_test r (attr ''year'') (\<lambda>x. switch_number_cmp x (tm_year tm + 1900));
          r = and_test r (attr ''yday'') (\<lambda>x. switch_number_cmp x (tm_yday tm + 1));
          r = and_test r (attr ''mon'') (\<lambda>x. switch_number_cmp x (tm_mon tm + 1));
          r = and_test r (attr ''mday'') (\<lambda>x. switch_number_cmp x (tm_mday tm));
          r = and_test r (attr ''week'') (\<lambda>x. switch_number_cmp x (c_div (tm_yday tm) 7 + 1));
          r = and_test r (attr ''week'') (\<lambda>x. switch_number_cmp x (c_div (tm_yday tm) 7 + 1));
          r = and_test r (attr ''mweek'') (\<lambda>x. switch_number_cmp x (week_of_month tm));
          r = and_test r (attr ''wday'') (\<lambda>x. Inr (switch_dow_cmp x (tm_wday tm + 1)));
          r = and_test r (attr ''hour'') (\<lambda>x. switch_number_cmp x (tm_hour tm));
          r = and_test r (attr ''minute'') (\<lambda>x. switch_number_cmp x (tm_min tm));
          r = and_test r (attr ''minute-of-day'') (\<lambda>x. switch_number_cmp x (tm_hour tm * 60 + (tm_min tm + 1)));
          r = and_test r (attr ''time-of-day'') (\<lambda>x. Inr (switch_tod_cmp x (tm_hour tm * 60 * 60 + tm_min tm * 60 + tm_sec tm)))
      in r)"

section \<open>What the expressions mean\<close>

fun commas :: "string list \<Rightarrow> string" where
  "commas [] = []"
| "commas [x] = x"
| "commas (x # y # xs) = x @ CHR '','' # commas (y # xs)"

lemma digits_only:
  assumes "\<not> isdigit_c c"
  shows "c \<notin> set (decimal n)"
  using decimal_digits [of n] assms by blast

lemma not_digits: "\<not> isdigit_c CHR '',''" "\<not> isdigit_c CHR ''-''" "\<not> isdigit_c CHR '':''"
  by (simp_all add: isdigit_c_def code_def)

lemma atol_number: "n < 2 ^ 63 \<Longrightarrow> atol (decimal n) = int n"
  using atol_decimal [of n "[]"] by simp

lemma commas_Cons: "commas (x # xs) = x @ (if xs = [] then [] else CHR '','' # commas xs)"
  by (cases xs) simp_all

lemma commas_decimal_Cons: "\<exists>c t. decimal n = c # t \<and> CHR '','' \<notin> set t"
  using digits_only [OF not_digits(1), of n] by (cases "decimal n") auto

lemma number_loop_list:
  "\<forall>m \<in> set (n # ns). m < 2 ^ 63 \<Longrightarrow>
   number_loop (commas (map decimal (n # ns))) (if ns = [] then None else Some (commas (map decimal ns))) v =
     Inr (v \<in> int ` set (n # ns))"
proof (induction ns arbitrary: n)
  case Nil
  then show ?case by (subst number_loop.simps) (auto simp: atol_number)
next
  case (Cons m ns)
  obtain c t where ct: "decimal m = c # t" "CHR '','' \<notin> set t" using commas_decimal_Cons by blast
  have "atol (commas (map decimal (n # m # ns))) = int n"
    using Cons.prems by (simp add: commas_Cons atol_decimal not_digits)
  moreover have "commas (map decimal (m # ns)) = c # t @ (if ns = [] then [] else CHR '','' # commas (map decimal ns))"
    using ct by (simp add: commas_Cons)
  moreover have "map_option after_char (strchr (t @ (if ns = [] then [] else CHR '','' # commas (map decimal ns))) CHR '','') =
      (if ns = [] then None else Some (commas (map decimal ns)))"
    using ct(2) by (simp add: strchr_append after_char_def)
  ultimately show ?case
    using Cons.IH [of m] Cons.prems by (subst number_loop.simps) (auto simp del: commas.simps)
qed

text \<open>C37. A well-formed number condition means what it reads as: a range \<open>a-b\<close> of numbers below 2^31 holds for the numbers from a to b, and
  a nonempty list of numbers below 2^63 separated by single commas, without a comma at its end, for the numbers in it; on these texts no read leaves
  the text.\<close>

theorem number_cmp_spec:
  assumes "ns \<noteq> []" and "\<forall>n \<in> set ns. n < 2 ^ 63" and "a < 2 ^ 31" and "b < 2 ^ 31"
  shows "switch_number_cmp (commas (map decimal ns)) v = Inr (v \<in> int ` set ns) \<and>
    switch_number_cmp (decimal a @ ''-'' @ decimal b) v = Inr (int a \<le> v \<and> v \<le> int b)"
proof
  obtain n ms where ns: "ns = n # ms" using assms(1) by (cases ns) auto
  have "CHR ''-'' \<notin> set (commas (map decimal ks))" for ks
    by (induction ks) (auto simp: commas_Cons digits_only not_digits)
  then have e1: "strchr (commas (map decimal ns)) CHR ''-'' = None" by simp
  have e2: "strchr (commas (map decimal ns)) CHR '','' = (if ms = [] then None else Some (CHR '','' # commas (map decimal ms)))"
    using digits_only [OF not_digits(1), of n] unfolding ns by (simp add: commas_Cons strchr_append)
  have "switch_number_cmp (commas (map decimal ns)) v =
      (if ms = [] then Inr (atol (decimal n) = v) else number_loop (commas (map decimal (n # ms))) (Some (commas (map decimal ms))) v)"
    unfolding switch_number_cmp_def e1 e2 by (simp add: ns after_char_def)
  then show "switch_number_cmp (commas (map decimal ns)) v = Inr (v \<in> int ` set ns)"
    using number_loop_list [of n ms v] assms(2) atol_number [of n] unfolding ns by (auto split: if_splits)
next
  have "to_int (int x) = int x" if "x < 2 ^ 31" for x
    using that by (simp add: to_int_def signed_take_bit_int_eq_self)
  moreover have "atol (decimal a @ ''-'' @ decimal b) = int a"
    using assms(3) atol_decimal [of a "''-'' @ decimal b"] by (simp add: not_digits)
  ultimately show "switch_number_cmp (decimal a @ ''-'' @ decimal b) v = Inr (int a \<le> v \<and> v \<le> int b)"
    using strchr_append [OF digits_only [OF not_digits(2)], of a "decimal b"] assms(3,4)
    by (simp add: switch_number_cmp_def after_char_def atol_number)
qed

theorem number_cmp_spec_witness:
  "switch_number_cmp (commas (map decimal [9, 12, 5])) 12 = Inr True \<and> switch_number_cmp (decimal 9 @ ''-'' @ decimal 17) 18 = Inr False"
  using number_cmp_spec [of "[9, 12, 5]" 9 17 12] number_cmp_spec [of "[9]" 9 17 18] by simp

text \<open>An empty item makes the loop miss its successor, and a comma at the end makes it read on after the end.\<close>

lemma number_cmp_empty_item: "switch_number_cmp ''1,,2'' 2 = Inr False"
  by code_simp

lemma number_cmp_trailing_comma: "switch_number_cmp ''1,'' 2 = Inl Out_Of_Bounds"
  by code_simp

text \<open>The text of a time, with or without seconds, and the second of the day it is.\<close>

type_synonym tod = "nat \<times> nat \<times> nat option"

definition minute_text :: "nat \<Rightarrow> nat option \<Rightarrow> string" where
  "minute_text m s = decimal m @ (case s of None \<Rightarrow> [] | Some s \<Rightarrow> CHR '':'' # decimal s)"

definition tod_text :: "tod \<Rightarrow> string" where
  "tod_text t = (case t of (h, m, s) \<Rightarrow> decimal h @ CHR '':'' # minute_text m s)"

definition tod_seconds :: "tod \<Rightarrow> int" where
  "tod_seconds t = (case t of (h, m, s) \<Rightarrow> int h * 3600 + int m * 60 + (case s of None \<Rightarrow> 0 | Some s \<Rightarrow> int s))"

definition tod_ok :: "tod \<Rightarrow> bool" where
  "tod_ok t \<longleftrightarrow> (case t of (h, m, s) \<Rightarrow> h < 24 \<and> m < 60 \<and> (case s of None \<Rightarrow> True | Some s \<Rightarrow> s < 60))"

lemma split_seconds_text: "split_seconds (minute_text m s) = (decimal m, case s of None \<Rightarrow> ''00'' | Some s \<Rightarrow> decimal s)"
  using digits_only [OF not_digits(3)]
  by (cases s) (simp_all add: split_seconds_def minute_text_def strchr_append before_char_append after_char_def strchr_eq [of "decimal m"])

lemma seconds_of_text:
  "tod_ok (h, m, s) \<Longrightarrow> seconds_of (decimal h) (decimal m) (case s of None \<Rightarrow> ''00'' | Some s \<Rightarrow> decimal s) = tod_seconds (h, m, s)"
proof -
  have "atol ''00'' = 0" by code_simp
  then show "tod_ok (h, m, s) \<Longrightarrow> ?thesis"
    by (cases s) (simp_all add: seconds_of_def tod_seconds_def tod_ok_def atol_number)
qed

text \<open>C38. A time-of-day condition \<open>from-to\<close>, each \<open>h:m\<close> or \<open>h:m:s\<close>, holds from its first time, included, to its
  second, excluded.\<close>

theorem tod_cmp_spec:
  assumes "tod_ok from" and "tod_ok to"
  shows "switch_tod_cmp (tod_text from @ ''-'' @ tod_text to) v \<longleftrightarrow> tod_seconds from \<le> v \<and> v < tod_seconds to"
proof -
  obtain h m s h' m' s' where ft: "from = (h, m, s)" "to = (h', m', s')" by (cases "from", cases to)
  note d = digits_only [OF not_digits(2)] digits_only [OF not_digits(3)]
  have m: "CHR ''-'' \<notin> set (minute_text m s)" using d by (auto simp: minute_text_def split: option.splits)
  have t: "tod_text from @ ''-'' @ tod_text to = decimal h @ CHR '':'' # minute_text m s @ CHR ''-'' # decimal h' @ CHR '':'' # minute_text m' s'"
    by (simp add: ft tod_text_def)
  have h: "CHR '':'' \<notin> set (CHR ''-'' # decimal h')" using d(2) by simp
  show ?thesis
    unfolding switch_tod_cmp_def t using assms seconds_of_text [of h m s] seconds_of_text [of h' m' s']
    by (simp add: strchr_append [OF d(2)] before_char_append [OF d(2)] strchr_append [OF m] before_char_append [OF m]
        strchr_append [OF h, simplified] before_char_append [OF h, simplified] after_char_def split_seconds_text ft)
qed

theorem tod_cmp_spec_witness: "switch_tod_cmp (tod_text (9, 30, None) @ ''-'' @ tod_text (17, 0, Some 30)) 61229"
  using tod_cmp_spec [of "(9, 30, None)" "(17, 0, Some 30)" 61229] by (simp add: tod_ok_def tod_seconds_def)

lemma first_dow:
  assumes "1 \<le> x" and "0 \<le> w" and "w \<le> 6"
  shows "c_rem (7 - c_rem (x - (w + 1)) 7) 7 = (w - (x - 1)) mod 7"
proof -
  define y where "y = x - (w + 1)"
  have "y \<ge> -6" using assms by (simp add: y_def)
  have pos: "c_rem a 7 = a mod 7" if "0 \<le> a" for a
    using that by (cases "a = 0") (simp_all add: c_rem_def c_div_def minus_mult_div_eq_mod)
  have neg: "c_rem a 7 = a" if "-6 \<le> a" "a < 0" for a
    using that by (simp add: c_rem_def c_div_def)
  have "c_rem (7 - c_rem y 7) 7 = (- y) mod 7"
  proof (cases "0 \<le> y")
    case True
    then have "c_rem y 7 = y mod 7" "0 \<le> 7 - y mod 7" by (simp_all add: pos)
    then show ?thesis by (simp add: pos mod_simps)
  next
    case False
    then show ?thesis using \<open>y \<ge> -6\<close> by (simp add: neg pos)
  qed
  then show ?thesis by (simp add: y_def algebra_simps)
qed

text \<open>The week of the month that the check computes from the day of the month and the day of the
  week is one more than the number of Sundays from the second of the month up to that day: weeks begin
  on Sunday and the first one has the first of the month.\<close>

theorem week_of_month_spec:
  assumes "1 \<le> tm_mday t" and "0 \<le> tm_wday t" and "tm_wday t \<le> 6"
  shows "week_of_month t = 1 + int (card {d \<in> {2..tm_mday t}. (tm_wday t + (d - tm_mday t)) mod 7 = 0})"
proof -
  define x w where "x = tm_mday t" and "w = tm_wday t"
  define f where "f = (w - (x - 1)) mod 7"
  have f: "0 \<le> f" "f < 7" by (simp_all add: f_def)
  have same: "(d - 1 + f) mod 7 = (w + (d - x)) mod 7" for d
  proof -
    have "(d - 1 + f) mod 7 = (d - 1 + (w - (x - 1))) mod 7" unfolding f_def by (rule mod_add_right_eq)
    also have "d - 1 + (w - (x - 1)) = w + (d - x)" by simp
    finally show ?thesis .
  qed
  have "c_rem (7 - c_rem (x - (w + 1)) 7) 7 = f"
    using first_dow [of x w] assms by (simp add: f_def x_def w_def)
  then have week: "week_of_month t = 1 + (x - 1 + f) div 7"
    unfolding week_of_month_def Let_def x_def [symmetric] w_def [symmetric] by (simp only:)
  have "{d \<in> {2..x}. (w + (d - x)) mod 7 = 0} = (\<lambda>k. 7 * k + 1 - f) ` {1..(x - 1 + f) div 7}"
  proof (intro equalityI subsetI)
    fix d assume d: "d \<in> {d \<in> {2..x}. (w + (d - x)) mod 7 = 0}"
    then have "(d - 1 + f) mod 7 = 0" using same [of d] by simp
    then have "d = 7 * ((d - 1 + f) div 7) + 1 - f" by presburger
    moreover have "(d - 1 + f) div 7 \<in> {1..(x - 1 + f) div 7}"
      using d f \<open>(d - 1 + f) mod 7 = 0\<close> by (auto intro: zdiv_mono1)
    ultimately show "d \<in> (\<lambda>k. 7 * k + 1 - f) ` {1..(x - 1 + f) div 7}" by blast
  next
    fix d assume "d \<in> (\<lambda>k. 7 * k + 1 - f) ` {1..(x - 1 + f) div 7}"
    then obtain k where k: "d = 7 * k + 1 - f" "1 \<le> k" "k \<le> (x - 1 + f) div 7" by auto
    then have "2 \<le> d" "d \<le> x" using f by linarith+
    moreover have "(w + (d - x)) mod 7 = 0" using same [of d] k(1) by simp
    ultimately show "d \<in> {d \<in> {2..x}. (w + (d - x)) mod 7 = 0}" by simp
  qed
  moreover have "inj_on (\<lambda>k. 7 * k + 1 - f) {1..(x - 1 + f) div 7}" by (simp add: inj_on_def)
  ultimately have "card {d \<in> {2..x}. (w + (d - x)) mod 7 = 0} = nat ((x - 1 + f) div 7)"
    by (simp add: card_image)
  then show ?thesis using week f assms(1) unfolding x_def w_def by (simp add: pos_imp_zdiv_nonneg_iff)
qed

theorem week_of_month_spec_witness:
  "week_of_month \<lparr>tm_sec = 0, tm_min = 0, tm_hour = 12, tm_mday = 15, tm_mon = 5, tm_year = 113, tm_wday = 6, tm_yday = 165,
     tm_isdst = 1, tm_gmtoff = 0\<rparr> = 3"
proof -
  have "{d \<in> {2..15::int}. (6 + (d - 15)) mod 7 = 0} = {2, 9}" by auto presburger
  then show ?thesis
    using week_of_month_spec [of "\<lparr>tm_sec = 0, tm_min = 0, tm_hour = 12, tm_mday = 15, tm_mon = 5, tm_year = 113, tm_wday = 6,
      tm_yday = 165, tm_isdst = 1, tm_gmtoff = 0\<rparr>"] by simp
qed

text \<open>The text of a day, by number or by name, of a day or a span of days, and of a list of them.\<close>

datatype dow_item = One "nat \<times> bool" | Span "nat \<times> bool" "nat \<times> bool"

definition day_text :: "nat \<times> bool \<Rightarrow> string" where
  "day_text d = (if snd d then DOW ! (fst d - 1) else [chr (48 + fst d)])"

fun item_text :: "dow_item \<Rightarrow> string" where
  "item_text (One d) = day_text d"
| "item_text (Span a b) = day_text a @ CHR ''-'' # day_text b"

fun item_ok :: "dow_item \<Rightarrow> bool" where
  "item_ok (One d) \<longleftrightarrow> fst d \<in> {1..7}"
| "item_ok (Span a b) \<longleftrightarrow> fst a \<in> {1..7} \<and> fst b \<in> {1..7}"

fun item_covers :: "dow_item \<Rightarrow> int \<Rightarrow> bool" where
  "item_covers (One d) v \<longleftrightarrow> v = int (fst d)"
| "item_covers (Span a b) v \<longleftrightarrow> v = int (fst a) \<or> (int (fst a) \<le> v \<and> v \<le> int (fst b))"

lemma str2int_name:
  "switch_dow_str2int (''sun'' @ r) = 1" "switch_dow_str2int (''mon'' @ r) = 2" "switch_dow_str2int (''tue'' @ r) = 3"
  "switch_dow_str2int (''wed'' @ r) = 4" "switch_dow_str2int (''thu'' @ r) = 5" "switch_dow_str2int (''fri'' @ r) = 6"
  "switch_dow_str2int (''sat'' @ r) = 7"
  by (simp_all add: switch_dow_str2int_def DOW_def strncasecmp_eq_def ascii_lower_def)

lemma read_digit:
  assumes "49 \<le> code c" and "code c \<le> 55"
  shows "dow_read_token (c # r) = (int (code c) - 48, r)"
proof -
  have "c \<noteq> CHR ''-''" "c \<noteq> CHR '',''" using assms by (auto simp: code_def)
  then show ?thesis using assms by (simp add: dow_read_token_def)
qed

lemma read_name:
  assumes "switch_dow_str2int (n @ r) = i" and "i \<noteq> 0" and "i \<noteq> -1" and "length n = 3" and "code (hd n) > 55"
  shows "dow_read_token (n @ r) = (i, r)"
proof -
  obtain c t where n: "n = c # t" using assms(4) by (cases n) auto
  then have "c \<noteq> CHR ''-''" "c \<noteq> CHR '',''" using assms(5) by (auto simp: code_def)
  then show ?thesis using assms n by (simp add: dow_read_token_def Let_def)
qed

lemma read_day:
  assumes "fst d \<in> {1..7}"
  shows "dow_read_token (day_text d @ r) = (int (fst d), r)"
proof (cases "snd d")
  case True
  have "fst d \<in> {1, 2, 3, 4, 5, 6, 7}" using assms by auto
  then have "switch_dow_str2int (DOW ! (fst d - 1) @ r) = int (fst d) \<and> length (DOW ! (fst d - 1)) = 3 \<and> code (hd (DOW ! (fst d - 1))) > 55"
    by (elim insertE) (simp_all add: DOW_def str2int_name [simplified] code_def)
  then show ?thesis using True assms by (simp add: day_text_def read_name)
next
  case False
  then show ?thesis using assms by (simp add: day_text_def read_digit)
qed

lemma read_marks:
  "dow_read_token (CHR ''-'' # r) = (DOW_HYPHEN, r)" "dow_read_token (CHR '','' # r) = (DOW_COMA, r)" "dow_read_token [] = (DOW_EOF, [])"
  by (simp_all add: dow_read_token_def str2int_nonempty)

lemmas dow_marks = DOW_EOF_def DOW_ERR_def DOW_COMA_def DOW_HYPHEN_def

lemma loop_marks:
  "dow_loop [] prev rs v = False"
  "dow_loop (CHR '','' # r) prev rs v = dow_loop r DOW_EOF rs v"
  "dow_loop (CHR ''-'' # r) prev rs v = dow_loop r DOW_HYPHEN prev v"
  by (subst dow_loop.simps, simp add: read_marks dow_marks)+

lemma loop_day:
  assumes "fst d \<in> {1..7}"
  shows "dow_loop (day_text d @ r) prev rs v =
    (if rs \<noteq> DOW_EOF then (rs \<le> v \<and> v \<le> int (fst d)) \<or> dow_loop r (int (fst d)) DOW_EOF v
     else v = int (fst d) \<or> dow_loop r (int (fst d)) rs v)"
  using assms by (subst dow_loop.simps) (auto simp: read_day dow_marks)

lemma loop_item:
  "item_ok i \<Longrightarrow> \<exists>prev'. dow_loop (item_text i @ r) prev DOW_EOF v = (item_covers i v \<or> dow_loop r prev' DOW_EOF v)"
  by (cases i) (auto simp: loop_day loop_marks dow_marks)

text \<open>C36. A day-of-week condition, a list of days and spans of days by number or by name, holds for the
  days it lists. A span whose first day comes after its last covers the first day only.\<close>

theorem dow_cmp_spec:
  assumes "list_all item_ok items"
  shows "switch_dow_cmp (commas (map item_text items)) v \<longleftrightarrow> list_ex (\<lambda>i. item_covers i v) items"
proof -
  have "dow_loop (commas (map item_text items)) prev DOW_EOF v \<longleftrightarrow> list_ex (\<lambda>i. item_covers i v) items" for prev
    using assms
  proof (induction items arbitrary: prev)
    case (Cons i items)
    obtain prev' where "dow_loop (item_text i @ (if items = [] then [] else CHR '','' # commas (map item_text items))) prev DOW_EOF v =
        (item_covers i v \<or> dow_loop (if items = [] then [] else CHR '','' # commas (map item_text items)) prev' DOW_EOF v)"
      using loop_item [of i] Cons.prems by fastforce
    then show ?case using Cons by (auto simp: commas_Cons loop_marks split: if_splits)
  qed (simp add: loop_marks)
  then show ?thesis by (simp add: switch_dow_cmp_def)
qed

theorem dow_cmp_spec_witness:
  "commas (map item_text [Span (2, True) (6, True), One (1, False)]) = ''mon-fri,1'' \<and> switch_dow_cmp ''mon-fri,1'' 4 \<and> \<not> switch_dow_cmp ''mon-fri,1'' 7"
proof -
  have t: "commas (map item_text [Span (2, True) (6, True), One (1, False)]) = ''mon-fri,1''" by code_simp
  have "switch_dow_cmp ''mon-fri,1'' v \<longleftrightarrow> list_ex (\<lambda>i. item_covers i v) [Span (2, True) (6, True), One (1, False)]" for v
    unfolding t [symmetric] by (rule dow_cmp_spec) simp
  then show ?thesis using t by simp
qed

text \<open>The comma does not forget a range that has begun, so \<open>mon-,fri\<close> is the range from Monday to Friday;
  and the two conversions of days are off by one against each other.\<close>

lemma dow_cmp_open_range: "switch_dow_cmp ''mon-,fri'' 4"
  by code_simp

lemma dow_int2str_shifted: "switch_dow_int2str (switch_dow_str2int ''sun'') = ''mon''"
  by code_simp

text \<open>A condition that asks for no daylight saving time never holds, whatever the clock says.\<close>

lemma and_test_failed: "and_test (Inr 0) a f = Inr 0"
  by (cases a) (simp_all add: and_test_def)

lemma datetime_dst_false:
  "switch_xml_attr xcond ''dst'' = Some ''false'' \<Longrightarrow> switch_xml_std_datetime_check mktime junk clk xcond offset tzname = Inr 0"
proof -
  have f: "\<not> switch_true (Some ''false'')" by code_simp
  have first: "bindE (and_test (Inr (-1)) a (\<lambda>_. Inr b)) (\<lambda>m. Inr (if m \<noteq> 0 then 0 else m)) = Inr 0" for a b
    by (cases a) (simp_all add: and_test_def)
  assume "switch_xml_attr xcond ''dst'' = Some ''false''"
  then show ?thesis
    unfolding switch_xml_std_datetime_check_def Let_def
    by (simp add: f zstr_def first [simplified] and_test_failed)
qed

end
