(* ===== verification/FS_ChannelTypes.thy ===== *)
theory FS_ChannelTypes
  imports FS_Chars
begin

text \<open>
  The enumerations of channels in \<^verbatim>\<open>src/src/include/switch_types.h\<close> and the tables that name them in
  \<^verbatim>\<open>src/src/lib/libfreeswitch/switch_channel.c\<close>: states, call states, hangup causes. The states and call states are data types ordered by
  their numbers, as the comparisons of the code take them; a cause is its number, because the code
  converts any digits to one; a flag is its index into the flag array.
\<close>

section \<open>Channel states\<close>

datatype channel_state =
    CS_NEW | CS_INIT | CS_ROUTING | CS_SOFT_EXECUTE | CS_EXECUTE | CS_EXCHANGE_MEDIA | CS_PARK | CS_CONSUME_MEDIA
  | CS_HIBERNATE | CS_RESET | CS_HANGUP | CS_REPORTING | CS_DESTROY | CS_NONE

fun state_num :: "channel_state \<Rightarrow> nat" where
  "state_num CS_NEW = 0" | "state_num CS_INIT = 1" | "state_num CS_ROUTING = 2" | "state_num CS_SOFT_EXECUTE = 3"
| "state_num CS_EXECUTE = 4" | "state_num CS_EXCHANGE_MEDIA = 5" | "state_num CS_PARK = 6"
| "state_num CS_CONSUME_MEDIA = 7" | "state_num CS_HIBERNATE = 8" | "state_num CS_RESET = 9" | "state_num CS_HANGUP = 10"
| "state_num CS_REPORTING = 11" | "state_num CS_DESTROY = 12" | "state_num CS_NONE = 13"

lemma state_num_inj: "state_num s = state_num t \<Longrightarrow> s = t"
  by (cases s; cases t) simp_all

instantiation channel_state :: linorder
begin

definition less_eq_channel_state :: "channel_state \<Rightarrow> channel_state \<Rightarrow> bool" where
  "s \<le> t \<longleftrightarrow> state_num s \<le> state_num t"

definition less_channel_state :: "channel_state \<Rightarrow> channel_state \<Rightarrow> bool" where
  "s < t \<longleftrightarrow> state_num s < state_num t"

instance
  by standard (auto simp: less_eq_channel_state_def less_channel_state_def intro: state_num_inj)

end

lemmas state_order = less_eq_channel_state_def less_channel_state_def

definition state_list :: "channel_state list" where
  "state_list = [CS_NEW, CS_INIT, CS_ROUTING, CS_SOFT_EXECUTE, CS_EXECUTE, CS_EXCHANGE_MEDIA, CS_PARK, CS_CONSUME_MEDIA,
     CS_HIBERNATE, CS_RESET, CS_HANGUP, CS_REPORTING, CS_DESTROY, CS_NONE]"

definition state_names :: "string list" where
  "state_names = [''CS_NEW'', ''CS_INIT'', ''CS_ROUTING'', ''CS_SOFT_EXECUTE'', ''CS_EXECUTE'', ''CS_EXCHANGE_MEDIA'',
     ''CS_PARK'', ''CS_CONSUME_MEDIA'', ''CS_HIBERNATE'', ''CS_RESET'', ''CS_HANGUP'', ''CS_REPORTING'', ''CS_DESTROY'', ''CS_NONE'']"

definition switch_channel_state_name :: "channel_state \<Rightarrow> string" where
  "switch_channel_state_name state = state_names ! state_num state"

fun name_state_from :: "string list \<Rightarrow> channel_state list \<Rightarrow> string \<Rightarrow> channel_state" where
  "name_state_from (n # ns) (s # ss) name = (if strcasecmp_eq n name then s else name_state_from ns ss name)"
| "name_state_from _ _ name = CS_DESTROY"

definition switch_channel_name_state :: "string \<Rightarrow> channel_state" where
  "switch_channel_name_state name = name_state_from state_names state_list name"

section \<open>Call states\<close>

datatype callstate = CCS_DOWN | CCS_DIALING | CCS_RINGING | CCS_EARLY | CCS_ACTIVE | CCS_HELD | CCS_RING_WAIT | CCS_HANGUP | CCS_UNHELD

definition CALLSTATE_CHART :: "(string \<times> callstate) list" where
  "CALLSTATE_CHART = [(''DOWN'', CCS_DOWN), (''DIALING'', CCS_DIALING), (''RINGING'', CCS_RINGING), (''EARLY'', CCS_EARLY),
     (''ACTIVE'', CCS_ACTIVE), (''HELD'', CCS_HELD), (''RING_WAIT'', CCS_RING_WAIT), (''HANGUP'', CCS_HANGUP), (''UNHELD'', CCS_UNHELD)]"

fun chart_name :: "(string \<times> 'a) list \<Rightarrow> 'a \<Rightarrow> string" where
  "chart_name [] v = ''UNKNOWN''"
| "chart_name ((n, w) # rest) v = (if w = v then n else chart_name rest v)"

fun chart_value :: "(string \<times> 'a) list \<Rightarrow> 'a \<Rightarrow> string \<Rightarrow> 'a" where
  "chart_value [] d str = d"
| "chart_value ((n, w) # rest) d str = (if strcasecmp_eq n str then w else chart_value rest d str)"

definition switch_channel_callstate2str :: "callstate \<Rightarrow> string" where
  "switch_channel_callstate2str cs = chart_name CALLSTATE_CHART cs"

section \<open>Hangup causes\<close>

definition SWITCH_CAUSE_NONE :: int where "SWITCH_CAUSE_NONE = 0"
definition SWITCH_CAUSE_NORMAL_CLEARING :: int where "SWITCH_CAUSE_NORMAL_CLEARING = 16"
definition SWITCH_CAUSE_INCOMPATIBLE_DESTINATION :: int where "SWITCH_CAUSE_INCOMPATIBLE_DESTINATION = 88"
definition SWITCH_CAUSE_INTERWORKING :: int where "SWITCH_CAUSE_INTERWORKING = 127"

definition CAUSE_CHART :: "(string \<times> int) list" where
  "CAUSE_CHART = [
    (''NONE'', 0), (''UNALLOCATED_NUMBER'', 1), (''NO_ROUTE_TRANSIT_NET'', 2), (''NO_ROUTE_DESTINATION'', 3),
    (''CHANNEL_UNACCEPTABLE'', 6), (''CALL_AWARDED_DELIVERED'', 7), (''NORMAL_CLEARING'', 16), (''USER_BUSY'', 17),
    (''NO_USER_RESPONSE'', 18), (''NO_ANSWER'', 19), (''SUBSCRIBER_ABSENT'', 20), (''CALL_REJECTED'', 21),
    (''NUMBER_CHANGED'', 22), (''REDIRECTION_TO_NEW_DESTINATION'', 23), (''EXCHANGE_ROUTING_ERROR'', 25),
    (''DESTINATION_OUT_OF_ORDER'', 27), (''INVALID_NUMBER_FORMAT'', 28), (''FACILITY_REJECTED'', 29),
    (''RESPONSE_TO_STATUS_ENQUIRY'', 30), (''NORMAL_UNSPECIFIED'', 31), (''NORMAL_CIRCUIT_CONGESTION'', 34),
    (''NETWORK_OUT_OF_ORDER'', 38), (''NORMAL_TEMPORARY_FAILURE'', 41), (''SWITCH_CONGESTION'', 42),
    (''ACCESS_INFO_DISCARDED'', 43), (''REQUESTED_CHAN_UNAVAIL'', 44), (''PRE_EMPTED'', 45),
    (''FACILITY_NOT_SUBSCRIBED'', 50), (''OUTGOING_CALL_BARRED'', 52), (''INCOMING_CALL_BARRED'', 54),
    (''BEARERCAPABILITY_NOTAUTH'', 57), (''BEARERCAPABILITY_NOTAVAIL'', 58), (''SERVICE_UNAVAILABLE'', 63),
    (''BEARERCAPABILITY_NOTIMPL'', 65), (''CHAN_NOT_IMPLEMENTED'', 66), (''FACILITY_NOT_IMPLEMENTED'', 69),
    (''SERVICE_NOT_IMPLEMENTED'', 79), (''INVALID_CALL_REFERENCE'', 81), (''INCOMPATIBLE_DESTINATION'', 88),
    (''INVALID_MSG_UNSPECIFIED'', 95), (''MANDATORY_IE_MISSING'', 96), (''MESSAGE_TYPE_NONEXIST'', 97),
    (''WRONG_MESSAGE'', 98), (''IE_NONEXIST'', 99), (''INVALID_IE_CONTENTS'', 100), (''WRONG_CALL_STATE'', 101),
    (''RECOVERY_ON_TIMER_EXPIRE'', 102), (''MANDATORY_IE_LENGTH_ERROR'', 103), (''PROTOCOL_ERROR'', 111),
    (''INTERWORKING'', 127), (''SUCCESS'', 142), (''ORIGINATOR_CANCEL'', 487), (''CRASH'', 500),
    (''SYSTEM_SHUTDOWN'', 501), (''LOSE_RACE'', 502), (''MANAGER_REQUEST'', 503), (''BLIND_TRANSFER'', 600),
    (''ATTENDED_TRANSFER'', 601), (''ALLOTTED_TIMEOUT'', 602), (''USER_CHALLENGE'', 603), (''MEDIA_TIMEOUT'', 604),
    (''PICKED_OFF'', 605), (''USER_NOT_REGISTERED'', 606), (''PROGRESS_TIMEOUT'', 607), (''INVALID_GATEWAY'', 608),
    (''GATEWAY_DOWN'', 609), (''INVALID_URL'', 610), (''INVALID_PROFILE'', 611), (''NO_PICKUP'', 612)]"

definition switch_channel_cause2str :: "int \<Rightarrow> string" where
  "switch_channel_cause2str cause = chart_name CAUSE_CHART cause"

definition leading_digit :: "string \<Rightarrow> bool" where
  "leading_digit str \<longleftrightarrow> (case str of [] \<Rightarrow> False | c # _ \<Rightarrow> 47 < code c \<and> code c < 58)"

definition switch_channel_str2cause :: "string \<Rightarrow> int" where
  "switch_channel_str2cause str =
     (if leading_digit str then atoi str else chart_value CAUSE_CHART SWITCH_CAUSE_NONE str)"

text \<open>The enumeration has no negative member, so the compiler compares it as unsigned.\<close>

definition switch_channel_cause_q850 :: "int \<Rightarrow> int" where
  "switch_channel_cause_q850 cause =
     (if cause mod 2 ^ 32 \<le> SWITCH_CAUSE_INTERWORKING then cause else SWITCH_CAUSE_NORMAL_CLEARING)"

section \<open>The tables are consistent\<close>

definition no_lower :: "char \<Rightarrow> bool" where
  "no_lower c \<longleftrightarrow> \<not> (97 \<le> code c \<and> code c \<le> 122)"

lemma code_ascii_lower: "code (ascii_lower x) = (if 65 \<le> code x \<and> code x \<le> 90 then code x + 32 else code x)"
proof -
  have e: "ascii_lower x = (if 65 \<le> code x \<and> code x \<le> 90 then chr (code x + 32) else x)"
    by (simp only: ascii_lower_def code_def chr_def)
  show ?thesis unfolding e by auto
qed

lemma ascii_lower_inj:
  assumes "no_lower c" and "no_lower d" and "ascii_lower c = ascii_lower d"
  shows "c = d"
proof -
  have "code (ascii_lower c) = code (ascii_lower d)" using assms(3) by (rule arg_cong)
  then have "code c = code d" using assms(1,2) unfolding code_ascii_lower no_lower_def by arith
  then show ?thesis by (simp only: code_inj)
qed

lemma strcasecmp_names:
  assumes "list_all no_lower m" and "list_all no_lower n" and "strcasecmp_eq m s" and "strcasecmp_eq n s"
  shows "m = n"
proof -
  have "map ascii_lower m = map ascii_lower n" using assms(3,4) by (simp add: strcasecmp_eq_def)
  moreover have "inj_on ascii_lower (set m \<union> set n)"
    using assms(1,2) by (intro inj_onI) (auto simp: list_all_iff intro: ascii_lower_inj)
  ultimately show ?thesis by (rule map_inj_on)
qed

definition chart_wf :: "(string \<times> 'a) list \<Rightarrow> bool" where
  "chart_wf chart \<longleftrightarrow> distinct (map fst chart) \<and> distinct (map snd chart) \<and> list_all (\<lambda>n. list_all no_lower n \<and> \<not> leading_digit n) (map fst chart)"

lemma leading_digit_case: "strcasecmp_eq n s \<Longrightarrow> leading_digit n = leading_digit s"
proof -
  assume "strcasecmp_eq n s"
  then have m: "map ascii_lower n = map ascii_lower s" by (simp add: strcasecmp_eq_def)
  have d: "47 < code x \<and> code x < 58 \<longleftrightarrow> 47 < code (ascii_lower x) \<and> code (ascii_lower x) < 58" for x
    unfolding code_ascii_lower by arith
  show ?thesis
  proof (cases n)
    case Nil
    then show ?thesis using m by simp
  next
    case (Cons c n')
    then obtain b s' where s: "s = b # s'" and "ascii_lower c = ascii_lower b" using m by (cases s) auto
    then show ?thesis using d [of c] d [of b] Cons by (simp add: leading_digit_def)
  qed
qed

lemma chart_value_of:
  "chart_wf chart \<Longrightarrow> (n, v) \<in> set chart \<Longrightarrow> strcasecmp_eq n s \<Longrightarrow> chart_value chart d s = v"
proof (induction chart)
  case (Cons e rest)
  obtain m w where e: "e = (m, w)" by (cases e)
  have "m = n" if "strcasecmp_eq m s"
    using strcasecmp_names [of m n s] that Cons.prems e by (auto simp: chart_wf_def list_all_iff)
  then show ?case
    using Cons e by (cases "strcasecmp_eq m s") (auto simp: chart_wf_def intro: image_eqI [of _ fst "(n, v)"])
qed simp

lemma chart_name_of: "chart_wf chart \<Longrightarrow> (n, v) \<in> set chart \<Longrightarrow> chart_name chart v = n"
proof (induction chart)
  case (Cons e rest)
  then show ?case by (cases e) (force simp: chart_wf_def)
qed simp

lemma cause_chart_distinct: "distinct (map fst CAUSE_CHART)" "distinct (map snd CAUSE_CHART)"
  by (simp_all add: CAUSE_CHART_def)

lemma cause_chart_upper: "list_all (\<lambda>n. list_all no_lower n \<and> \<not> leading_digit n) (map fst CAUSE_CHART)"
  by code_simp

lemma cause_chart_wf: "chart_wf CAUSE_CHART"
  using cause_chart_distinct cause_chart_upper by (simp add: chart_wf_def)

lemma callstate_chart_wf: "chart_wf CALLSTATE_CHART"
  by code_simp

lemma name_state_chart: "name_state_from ns ss name = chart_value (zip ns ss) CS_DESTROY name"
  by (induction ns ss name rule: name_state_from.induct) simp_all

lemma state_names_upper: "list_all (\<lambda>n. list_all no_lower n \<and> \<not> leading_digit n) state_names"
  by code_simp

lemma state_chart_wf: "chart_wf (zip state_names state_list)"
proof -
  have "length state_names = length state_list" by (simp add: state_names_def state_list_def)
  moreover have "distinct state_names" "distinct state_list" by (simp_all add: state_names_def state_list_def)
  ultimately show ?thesis using state_names_upper by (simp add: chart_wf_def)
qed

lemma state_name_in_chart: "(switch_channel_state_name s, s) \<in> set (zip state_names state_list)"
  by (cases s) (simp_all add: switch_channel_state_name_def state_names_def state_list_def)

lemma cause_chart_digits: "(n, c) \<in> set CAUSE_CHART \<Longrightarrow> \<not> leading_digit n"
  using cause_chart_wf by (force simp: chart_wf_def list_all_iff)

lemma str2cause_decimal: "n < 2 ^ 31 \<Longrightarrow> switch_channel_str2cause (decimal n) = int n"
proof -
  obtain c t where ct: "decimal n = c # t" by (cases "decimal n") simp_all
  then have "isdigit_c c" using decimal_digits [of n] by simp
  then have "leading_digit (decimal n)" by (simp add: ct leading_digit_def isdigit_c_def)
  then show "n < 2 ^ 31 \<Longrightarrow> ?thesis" using atoi_decimal [of n "[]"] by (simp add: switch_channel_str2cause_def)
qed

lemma name_state_of: "switch_channel_name_state (switch_channel_state_name s) = s"
  using chart_value_of [OF state_chart_wf state_name_in_chart]
  by (simp add: switch_channel_name_state_def name_state_chart strcasecmp_eq_def)

text \<open>C39. Hangup causes and channel states survive the way through their names: the name of a cause in the
  chart, in any mixture of upper and lower case, is read back as that cause, so are the digits of a
  number, and the name of a channel state is read back as that state.\<close>

theorem channel_names_roundtrip:
  assumes "(name, cause) \<in> set CAUSE_CHART" and "strcasecmp_eq name spelled" and "n < 2 ^ 31"
  shows "switch_channel_cause2str cause = name \<and> switch_channel_str2cause spelled = cause \<and>
    switch_channel_str2cause (decimal n) = int n \<and> switch_channel_name_state (switch_channel_state_name s) = s"
proof -
  have "\<not> leading_digit spelled" using cause_chart_digits [OF assms(1)] leading_digit_case [OF assms(2)] by simp
  then have "switch_channel_str2cause spelled = cause"
    using chart_value_of [OF cause_chart_wf assms(1,2)] by (simp add: switch_channel_str2cause_def)
  moreover have "switch_channel_cause2str cause = name"
    using chart_name_of [OF cause_chart_wf assms(1)] by (simp add: switch_channel_cause2str_def)
  ultimately show ?thesis using str2cause_decimal [OF assms(3)] name_state_of by simp
qed

theorem channel_names_roundtrip_witness:
  "switch_channel_str2cause ''User_Busy'' = 17 \<and> switch_channel_cause2str 17 = ''USER_BUSY''"
proof -
  have "strcasecmp_eq ''USER_BUSY'' ''User_Busy''" by code_simp
  moreover have "(''USER_BUSY'', 17) \<in> set CAUSE_CHART" by (simp add: CAUSE_CHART_def)
  ultimately show ?thesis using channel_names_roundtrip [of "''USER_BUSY''" 17 "''User_Busy''" 0 CS_NEW] by simp
qed

end
