(* ===== verification/FS_Channel.thy ===== *)
theory FS_Channel
  imports FS_ChannelTypes FS_Text
begin

text \<open>
  The life of a channel, \<^verbatim>\<open>src/src/lib/libfreeswitch/switch_channel.c\<close>: flags, call state, state and running state, hold,
  ring, pre-answer, answer and hangup. A channel is a record of the fields these operations read and
  write. What they call in other parts of the program (events, session signals and messages,
  variables, applications) is an effect, appended to the channel's log in the order of the calls;
  because that code may itself operate on the channel before it returns, the environment gives for
  each effect what it does to the channel, the status it returns, and the values of variables, clocks
  and session queries. Assertions and dereferences of NULL are faults.
\<close>

section \<open>The channel and its environment\<close>

datatype call_direction = SWITCH_CALL_DIRECTION_INBOUND | SWITCH_CALL_DIRECTION_OUTBOUND

definition CF_ANSWERED :: nat where "CF_ANSWERED = 1"
definition CF_OUTBOUND :: nat where "CF_OUTBOUND = 2"
definition CF_EARLY_MEDIA :: nat where "CF_EARLY_MEDIA = 3"
definition CF_BRIDGE_ORIGINATOR :: nat where "CF_BRIDGE_ORIGINATOR = 4"
definition CF_TRANSFER :: nat where "CF_TRANSFER = 6"
definition CF_BRIDGED :: nat where "CF_BRIDGED = 9"
definition CF_TAGGED :: nat where "CF_TAGGED = 12"
definition CF_PROXY_MODE :: nat where "CF_PROXY_MODE = 15"
definition CF_RING_READY :: nat where "CF_RING_READY = 19"
definition CF_BLOCK_STATE :: nat where "CF_BLOCK_STATE = 35"
definition CF_ORIGINATOR :: nat where "CF_ORIGINATOR = 40"
definition CF_NOT_READY :: nat where "CF_NOT_READY = 45"
definition CF_LEG_HOLDING :: nat where "CF_LEG_HOLDING = 49"
definition CF_PASSTHRU_PTIME_MISMATCH :: nat where "CF_PASSTHRU_PTIME_MISMATCH = 54"
definition CF_RECOVERED :: nat where "CF_RECOVERED = 56"
definition CF_DIALPLAN :: nat where "CF_DIALPLAN = 59"
definition CF_HANGUP_HELD :: nat where "CF_HANGUP_HELD = 94"
definition CF_FLAG_MAX :: nat where "CF_FLAG_MAX = 95"

definition OCF_HANGUP :: u32 where "OCF_HANGUP = 1"

datatype channel_event =
    CHANNEL_STATE | CHANNEL_HANGUP | CHANNEL_HOLD | CHANNEL_UNHOLD | CHANNEL_PROGRESS | CHANNEL_PROGRESS_MEDIA | CHANNEL_ANSWER

datatype channel_message =
    INDICATE_AUDIO_SYNC | INDICATE_PROGRESS | INDICATE_RINGING u32 | INDICATE_ANSWER | RING_EVENT | PROGRESS_EVENT | ANSWER_EVENT

datatype channel_effect =
    Fire channel_event
  | Fire_Callstate callstate callstate
  | Check_Device_State callstate
  | Signal_State_Change
  | Message channel_message
  | Set_Variable string "string option"
  | Set_Variable_Partner string string
  | Execute_On string
  | Api_On string
  | Thread_Launch
  | Kill_Channel
  | Hangup_State
  | Break_Originator string
  | Check_Zrtp
  | Originator_Progress int
  | Originator_Progress_Media int
  | Enable_Heartbeat u32
  | Presence
  | Recovery_Track
  | Get_Partner
  | Transfer_Recordings
  | Parse_Signal_Data
  | Sleep int
  | Cond_Next
  | Cond_Next_Locked

record hold_record =
  hr_on :: int
  hr_off :: int
  hr_uuid :: "string option"

record timetable =
  tt_progress :: int
  tt_progress_media :: int
  tt_answered :: int
  tt_bridged :: int
  tt_hungup :: int
  tt_last_hold :: int
  tt_hold_accum :: int

text \<open>
  \<open>ch_times\<close> is \<open>caller_profile->times\<close>, missing when either pointer is NULL; \<open>ch_originator\<close> tells whether the
  profile has an originator profile; \<open>ch_device\<close> is the call state and direction in the device node; \<open>ch_tick\<close>
  counts the readings of the clock.
\<close>

record channel =
  ch_direction :: call_direction
  ch_logical_direction :: call_direction
  ch_state :: channel_state
  ch_running_state :: channel_state
  ch_callstate :: callstate
  ch_flags :: "nat \<Rightarrow> u32"
  ch_caps :: "nat \<Rightarrow> u32"
  ch_state_flags :: "nat \<Rightarrow> u8"
  ch_private_flags :: u32
  ch_hangup_cause :: int
  ch_opaque_flags :: u32
  ch_queued_extension :: "nat option"
  ch_hold_record :: "hold_record list"
  ch_device :: "(callstate \<times> call_direction) option"
  ch_times :: "timetable option"
  ch_originator :: bool
  ch_tick :: nat
  ch_log :: "channel_effect list"

record channel_env =
  ce_hook :: "channel_effect \<Rightarrow> channel \<Rightarrow> channel"
  ce_reply :: "channel_effect \<Rightarrow> channel \<Rightarrow> switch_status_t"
  ce_variable :: "string \<Rightarrow> channel \<Rightarrow> string option"
  ce_partner_uuid :: "channel \<Rightarrow> string option"
  ce_session_locate :: "string \<Rightarrow> bool"
  ce_in_thread :: bool
  ce_session_running :: bool
  ce_session_started :: bool
  ce_read_codec :: bool
  ce_write_codec :: bool
  ce_now :: "nat \<Rightarrow> int"
  ce_thread_trylock :: bool
  ce_session_trylock :: "nat \<Rightarrow> bool"

definition call :: "channel_env \<Rightarrow> channel_effect \<Rightarrow> channel \<Rightarrow> channel" where
  "call env e ch = ce_hook env e (ch\<lparr>ch_log := ch_log ch @ [e]\<rparr>)"

definition ask :: "channel_env \<Rightarrow> channel_effect \<Rightarrow> channel \<Rightarrow> switch_status_t \<times> channel" where
  "ask env e ch = (ce_reply env e ch, call env e ch)"

definition time_now :: "channel_env \<Rightarrow> channel \<Rightarrow> int \<times> channel" where
  "time_now env ch = (ce_now env (ch_tick ch), ch\<lparr>ch_tick := Suc (ch_tick ch)\<rparr>)"

section \<open>Call state\<close>

definition switch_channel_set_callstate :: "channel_env \<Rightarrow> callstate \<Rightarrow> channel \<Rightarrow> channel" where
  "switch_channel_set_callstate env cs ch =
     (let o_callstate = ch_callstate ch in
      if o_callstate = cs \<or> o_callstate = CCS_HANGUP then ch
      else
        let ch = ch\<lparr>ch_callstate := cs, ch_device := map_option (\<lambda>(_, d). (cs, d)) (ch_device ch)\<rparr>;
            ch = call env (Check_Device_State cs) ch
        in call env (Fire_Callstate o_callstate cs) ch)"

section \<open>Flags\<close>

definition switch_channel_test_flag :: "channel \<Rightarrow> nat \<Rightarrow> u32" where
  "switch_channel_test_flag ch flag = ch_flags ch flag"

abbreviation flag_on :: "channel \<Rightarrow> nat \<Rightarrow> bool" where
  "flag_on ch flag \<equiv> switch_channel_test_flag ch flag \<noteq> 0"

definition set_variable :: "channel_env \<Rightarrow> string \<Rightarrow> string option \<Rightarrow> channel \<Rightarrow> channel" where
  "set_variable env name v ch = call env (Set_Variable name v) ch"

text \<open>The variables that mirror two of the flags.\<close>

definition mirror_flag :: "channel_env \<Rightarrow> nat \<Rightarrow> string option \<Rightarrow> channel \<Rightarrow> channel" where
  "mirror_flag env flag v ch =
     (let ch = (if flag = CF_OUTBOUND then set_variable env ''is_outbound'' v ch else ch)
      in if flag = CF_RECOVERED then set_variable env ''recovered'' v ch else ch)"

definition hold_begin :: "channel_env \<Rightarrow> channel \<Rightarrow> channel c" where
  "hold_begin env ch =
     (let brto = ce_partner_uuid env ch;
          ch = switch_channel_set_callstate env CCS_HELD ch
      in case ch_times ch of
           None \<Rightarrow> Inl Null_Deref
         | Some tt \<Rightarrow>
             let (now, ch) = time_now env ch;
                 ch = ch\<lparr>ch_times := Some (tt\<lparr>tt_last_hold := now\<rparr>)\<rparr>;
                 (on, ch) = time_now env ch
             in Inr (ch\<lparr>ch_hold_record := \<lparr>hr_on = on, hr_off = 0, hr_uuid = brto\<rparr> # ch_hold_record ch\<rparr>))"

definition set_dialplan_direction :: "channel \<Rightarrow> channel" where
  "set_dialplan_direction ch =
     (case ch_direction ch of
        SWITCH_CALL_DIRECTION_INBOUND \<Rightarrow>
          ch\<lparr>ch_logical_direction := SWITCH_CALL_DIRECTION_OUTBOUND,
             ch_device := map_option (\<lambda>(c, _). (c, SWITCH_CALL_DIRECTION_INBOUND)) (ch_device ch)\<rparr>
      | SWITCH_CALL_DIRECTION_OUTBOUND \<Rightarrow>
          ch\<lparr>ch_logical_direction := SWITCH_CALL_DIRECTION_INBOUND,
             ch_device := map_option (\<lambda>(c, _). (c, SWITCH_CALL_DIRECTION_OUTBOUND)) (ch_device ch)\<rparr>)"

definition switch_channel_set_flag_value :: "channel_env \<Rightarrow> nat \<Rightarrow> u32 \<Rightarrow> channel \<Rightarrow> channel c" where
  "switch_channel_set_flag_value env flag value ch =
     (let HELD = (flag = CF_LEG_HOLDING \<and> ch_flags ch flag = 0 \<and> ch_flags ch CF_ANSWERED \<noteq> 0);
          ch = ch\<lparr>ch_flags := (ch_flags ch)(flag := value)\<rparr>;
          ch = (if flag = CF_ORIGINATOR \<and> flag_on ch CF_ANSWERED \<and> ch_state ch < CS_HANGUP
                then switch_channel_set_callstate env CCS_RING_WAIT ch else ch);
          ch = (if flag = CF_DIALPLAN then set_dialplan_direction ch else ch)
      in bindE (if HELD then hold_begin env ch else Inr ch) (\<lambda>ch.
           Inr (mirror_flag env flag (Some ''true'') ch)))"

definition switch_channel_set_flag :: "channel_env \<Rightarrow> nat \<Rightarrow> channel \<Rightarrow> channel c" where
  "switch_channel_set_flag env flag ch = switch_channel_set_flag_value env flag 1 ch"

definition switch_channel_set_flag_recursive :: "channel_env \<Rightarrow> nat \<Rightarrow> channel \<Rightarrow> channel" where
  "switch_channel_set_flag_recursive env flag ch =
     mirror_flag env flag (Some ''true'') (ch\<lparr>ch_flags := (ch_flags ch)(flag := ch_flags ch flag + 1)\<rparr>)"

definition hold_end :: "channel_env \<Rightarrow> channel \<Rightarrow> channel c" where
  "hold_end env ch =
     (let ch = switch_channel_set_callstate env CCS_UNHELD ch
      in case ch_times ch of
           None \<Rightarrow> Inl Null_Deref
         | Some tt \<Rightarrow>
             let ch = (if tt_last_hold tt \<noteq> 0
                       then let (now, ch) = time_now env ch
                            in ch\<lparr>ch_times := Some (tt\<lparr>tt_hold_accum := tt_hold_accum tt + (now - tt_last_hold tt)\<rparr>)\<rparr>
                       else ch);
                 ch = (case ch_hold_record ch of
                         [] \<Rightarrow> ch
                       | hr # hrs \<Rightarrow> let (now, ch) = time_now env ch in ch\<lparr>ch_hold_record := hr\<lparr>hr_off := now\<rparr> # hrs\<rparr>)
             in Inr (if flag_on ch CF_PROXY_MODE \<and> flag_on ch CF_BRIDGED
                     then switch_channel_set_callstate env CCS_ACTIVE ch else ch))"

definition clear_dialplan_direction :: "channel \<Rightarrow> channel" where
  "clear_dialplan_direction ch =
     (if ch_direction ch = SWITCH_CALL_DIRECTION_OUTBOUND
      then ch\<lparr>ch_logical_direction := SWITCH_CALL_DIRECTION_OUTBOUND,
              ch_device := map_option (\<lambda>(c, _). (c, SWITCH_CALL_DIRECTION_INBOUND)) (ch_device ch)\<rparr>
      else ch)"

definition switch_channel_clear_flag :: "channel_env \<Rightarrow> nat \<Rightarrow> channel \<Rightarrow> channel c" where
  "switch_channel_clear_flag env flag ch =
     (let ACTIVE = (flag = CF_LEG_HOLDING \<and> ch_flags ch flag \<noteq> 0 \<and> ch_flags ch CF_ANSWERED \<noteq> 0);
          ch = ch\<lparr>ch_flags := (ch_flags ch)(flag := 0)\<rparr>;
          ch = (if flag = CF_DIALPLAN then clear_dialplan_direction ch else ch)
      in bindE (if ACTIVE then hold_end env ch else Inr ch) (\<lambda>ch.
           let ch = (if flag = CF_ORIGINATOR \<and> flag_on ch CF_ANSWERED \<and> ch_state ch < CS_HANGUP
                     then switch_channel_set_callstate env CCS_ACTIVE ch else ch)
           in Inr (mirror_flag env flag None ch)))"

text \<open>The recursive variant clears the variable of \<open>CF_OUTBOUND\<close> although the count may still be positive.\<close>

definition switch_channel_clear_flag_recursive :: "channel_env \<Rightarrow> nat \<Rightarrow> channel \<Rightarrow> channel" where
  "switch_channel_clear_flag_recursive env flag ch =
     (let ch = (if ch_flags ch flag \<noteq> 0 then ch\<lparr>ch_flags := (ch_flags ch)(flag := ch_flags ch flag - 1)\<rparr> else ch)
      in if flag = CF_OUTBOUND then set_variable env ''is_outbound'' None ch else ch)"

definition switch_channel_set_private_flag :: "u32 \<Rightarrow> channel \<Rightarrow> channel" where
  "switch_channel_set_private_flag flags ch = ch\<lparr>ch_private_flags := ch_private_flags ch OR flags\<rparr>"

definition switch_channel_clear_private_flag :: "u32 \<Rightarrow> channel \<Rightarrow> channel" where
  "switch_channel_clear_private_flag flags ch = ch\<lparr>ch_private_flags := ch_private_flags ch AND NOT flags\<rparr>"

definition switch_channel_test_private_flag :: "channel \<Rightarrow> u32 \<Rightarrow> u32" where
  "switch_channel_test_private_flag ch flags = ch_private_flags ch AND flags"

definition switch_channel_set_cap_value :: "nat \<Rightarrow> u32 \<Rightarrow> channel \<Rightarrow> channel" where
  "switch_channel_set_cap_value cap value ch = ch\<lparr>ch_caps := (ch_caps ch)(cap := value)\<rparr>"

definition switch_channel_clear_cap :: "nat \<Rightarrow> channel \<Rightarrow> channel" where
  "switch_channel_clear_cap cap ch = ch\<lparr>ch_caps := (ch_caps ch)(cap := 0)\<rparr>"

definition switch_channel_test_cap :: "channel \<Rightarrow> nat \<Rightarrow> u32" where
  "switch_channel_test_cap ch cap = (if ch_caps ch cap \<noteq> 0 then 1 else 0)"

definition switch_channel_set_state_flag :: "nat \<Rightarrow> channel \<Rightarrow> channel" where
  "switch_channel_set_state_flag flag ch = ch\<lparr>ch_state_flags := (ch_state_flags ch)(0 := 1, flag := 1)\<rparr>"

definition switch_channel_clear_state_flag :: "nat \<Rightarrow> channel \<Rightarrow> channel" where
  "switch_channel_clear_state_flag flag ch = ch\<lparr>ch_state_flags := (ch_state_flags ch)(flag := 0)\<rparr>"

section \<open>State and running state\<close>

text \<open>
  The new value is stored under one of two locks, or without a lock after a hundred attempts; the
  waits happen with the state mutex held.
\<close>

fun careful_wait :: "channel_env \<Rightarrow> nat \<Rightarrow> nat \<Rightarrow> channel \<Rightarrow> channel" where
  "careful_wait env x 0 ch = ch"
| "careful_wait env x (Suc n) ch =
     (if ce_session_trylock env x then ch else careful_wait env (Suc x) n (call env Cond_Next_Locked ch))"

definition careful_set :: "channel_env \<Rightarrow> (channel \<Rightarrow> channel) \<Rightarrow> channel \<Rightarrow> channel" where
  "careful_set env set_val ch = (if ce_thread_trylock env then set_val ch else set_val (careful_wait env 0 100 ch))"

definition apply_state_flags :: "channel \<Rightarrow> channel" where
  "apply_state_flags ch =
     (if ch_state_flags ch 0 \<noteq> 0 then
        ch\<lparr>ch_flags := (\<lambda>x. if 1 \<le> x \<and> x < CF_FLAG_MAX \<and> ch_state_flags ch x \<noteq> 0 then 1 else ch_flags ch x),
           ch_state_flags := (\<lambda>x. if x < CF_FLAG_MAX then 0 else ch_state_flags ch x)\<rparr>
      else ch)"

definition switch_channel_perform_set_running_state :: "channel_env \<Rightarrow> channel_state \<Rightarrow> channel \<Rightarrow> channel c" where
  "switch_channel_perform_set_running_state env state ch =
     bindE (switch_channel_clear_flag env CF_TAGGED (apply_state_flags ch)) (\<lambda>ch.
       let ch = careful_set env (\<lambda>ch. ch\<lparr>ch_running_state := state\<rparr>) ch
       in if state \<le> CS_DESTROY then
            let ch = (if ch_direction ch = SWITCH_CALL_DIRECTION_INBOUND \<and> state < CS_HANGUP then
                        if state = CS_ROUTING then switch_channel_set_callstate env CCS_RINGING ch
                        else if flag_on ch CF_ANSWERED then switch_channel_set_callstate env CCS_ACTIVE ch
                        else if flag_on ch CF_EARLY_MEDIA then switch_channel_set_callstate env CCS_EARLY ch
                        else ch
                      else ch)
            in Inr (call env (Fire CHANNEL_STATE) ch)
          else Inr ch)"

fun state_change_ok :: "channel_state \<Rightarrow> channel_state \<Rightarrow> bool" where
  "state_change_ok CS_NEW state = True"
| "state_change_ok CS_RESET state = True"
| "state_change_ok CS_INIT state = (state \<in> set [CS_EXCHANGE_MEDIA, CS_SOFT_EXECUTE, CS_ROUTING, CS_EXECUTE, CS_PARK,
     CS_CONSUME_MEDIA, CS_HIBERNATE, CS_RESET])"
| "state_change_ok CS_EXCHANGE_MEDIA state = (state \<in> set [CS_SOFT_EXECUTE, CS_ROUTING, CS_EXECUTE, CS_PARK,
     CS_CONSUME_MEDIA, CS_HIBERNATE, CS_RESET])"
| "state_change_ok CS_SOFT_EXECUTE state = (state \<in> set [CS_EXCHANGE_MEDIA, CS_ROUTING, CS_EXECUTE, CS_PARK,
     CS_CONSUME_MEDIA, CS_HIBERNATE, CS_RESET])"
| "state_change_ok CS_PARK state = (state \<in> set [CS_EXCHANGE_MEDIA, CS_ROUTING, CS_EXECUTE, CS_SOFT_EXECUTE,
     CS_HIBERNATE, CS_RESET, CS_CONSUME_MEDIA])"
| "state_change_ok CS_CONSUME_MEDIA state = (state \<in> set [CS_EXCHANGE_MEDIA, CS_ROUTING, CS_EXECUTE, CS_SOFT_EXECUTE,
     CS_HIBERNATE, CS_RESET, CS_PARK])"
| "state_change_ok CS_HIBERNATE state = (state \<in> set [CS_EXCHANGE_MEDIA, CS_INIT, CS_ROUTING, CS_EXECUTE, CS_SOFT_EXECUTE,
     CS_PARK, CS_CONSUME_MEDIA, CS_RESET])"
| "state_change_ok CS_ROUTING state = (state \<in> set [CS_EXCHANGE_MEDIA, CS_EXECUTE, CS_SOFT_EXECUTE, CS_PARK,
     CS_CONSUME_MEDIA, CS_HIBERNATE, CS_RESET])"
| "state_change_ok CS_EXECUTE state = (state \<in> set [CS_EXCHANGE_MEDIA, CS_SOFT_EXECUTE, CS_ROUTING, CS_PARK,
     CS_CONSUME_MEDIA, CS_HIBERNATE, CS_RESET])"
| "state_change_ok CS_HANGUP state = (state \<in> set [CS_REPORTING, CS_DESTROY])"
| "state_change_ok CS_REPORTING state = (state \<in> set [CS_DESTROY])"
| "state_change_ok CS_DESTROY state = False"
| "state_change_ok CS_NONE state = False"

definition switch_channel_perform_set_state :: "channel_env \<Rightarrow> channel_state \<Rightarrow> channel \<Rightarrow> (channel_state \<times> channel) c" where
  "switch_channel_perform_set_state env state ch =
     bindE (assertE (state \<le> CS_DESTROY)) (\<lambda>_.
       let last_state = ch_state ch in
       bindE (assertE (last_state \<le> CS_DESTROY)) (\<lambda>_.
         if last_state = state then Inr (ch_state ch, ch)
         else if last_state \<ge> CS_HANGUP \<and> state < last_state then Inr (ch_state ch, ch)
         else if state_change_ok last_state state then
           let ch = careful_set env (\<lambda>ch. ch\<lparr>ch_state := state\<rparr>) ch;
               ch = (if state = CS_HANGUP \<and> ch_hangup_cause ch = 0
                     then ch\<lparr>ch_hangup_cause := SWITCH_CAUSE_NORMAL_CLEARING\<rparr> else ch);
               ch = (if state \<le> CS_DESTROY then call env Signal_State_Change ch else ch)
           in Inr (ch_state ch, ch)
         else bindE (assertE (ch_state ch \<ge> CS_HANGUP)) (\<lambda>_. Inr (ch_state ch, ch))))"

definition switch_channel_state_change_pending :: "channel_env \<Rightarrow> channel \<Rightarrow> bool" where
  "switch_channel_state_change_pending env ch =
     (if ch_state ch \<ge> CS_HANGUP \<or> \<not> ce_in_thread env then False else ch_running_state ch \<noteq> ch_state ch)"

definition switch_channel_check_signal :: "channel_env \<Rightarrow> bool \<Rightarrow> channel \<Rightarrow> channel" where
  "switch_channel_check_signal env in_thread_only ch =
     (if \<not> in_thread_only \<or> ce_in_thread env then call env Parse_Signal_Data ch else ch)"

definition switch_channel_test_ready :: "channel_env \<Rightarrow> bool \<Rightarrow> bool \<Rightarrow> channel \<Rightarrow> bool \<times> channel" where
  "switch_channel_test_ready env check_ready check_media ch =
     (let ch = switch_channel_check_signal env True ch;
          media = ((flag_on ch CF_ANSWERED \<or> flag_on ch CF_EARLY_MEDIA) \<and> \<not> flag_on ch CF_PROXY_MODE \<and>
                   ce_read_codec env \<and> ce_write_codec env)
      in if check_media \<and> \<not> media then (False, ch)
         else if \<not> check_ready then (check_media, ch)
         else (ch_hangup_cause ch = 0 \<and> ch_state ch > CS_ROUTING \<and> ch_state ch < CS_HANGUP \<and> ch_state ch \<noteq> CS_RESET \<and>
               \<not> flag_on ch CF_TRANSFER \<and> \<not> flag_on ch CF_NOT_READY \<and> \<not> switch_channel_state_change_pending env ch, ch))"

function wait_for_state_loop :: "channel_env \<Rightarrow> channel_state \<Rightarrow> nat \<Rightarrow> nat \<Rightarrow> channel \<Rightarrow> channel" where
  "wait_for_state_loop env want_state timeout count ch =
     (if (ch_state ch = ch_running_state ch \<and> ch_running_state ch = want_state) \<or> ch_state ch \<ge> CS_HANGUP then ch
      else
        let ch = call env Cond_Next (switch_channel_check_signal env True ch)
        in if count + 1 \<ge> timeout then ch else wait_for_state_loop env want_state timeout (count + 1) ch)"
  by pat_completeness auto
termination by (relation "measure (\<lambda>(env, want, timeout, count, ch). timeout - count)") auto

declare wait_for_state_loop.simps [simp del]

definition switch_channel_wait_for_state_timeout :: "channel_env \<Rightarrow> channel_state \<Rightarrow> u32 \<Rightarrow> channel \<Rightarrow> channel" where
  "switch_channel_wait_for_state_timeout env want_state timeout ch = wait_for_state_loop env want_state (unat timeout) 0 ch"

text \<open>The direction can be set only from outside the session's thread.\<close>

definition switch_channel_set_direction :: "channel_env \<Rightarrow> call_direction \<Rightarrow> channel \<Rightarrow> channel" where
  "switch_channel_set_direction env dir ch =
     (if \<not> ce_in_thread env then ch\<lparr>ch_direction := dir, ch_logical_direction := dir\<rparr> else ch)"

text \<open>Called once, when the session is created, before any other operation; the state is stored as it is given.\<close>

definition switch_channel_init :: "channel_env \<Rightarrow> channel_state \<Rightarrow> nat \<Rightarrow> channel \<Rightarrow> channel c" where
  "switch_channel_init env state flag ch =
     bindE (switch_channel_set_flag env flag (ch\<lparr>ch_state := state\<rparr>)) (\<lambda>ch. Inr (ch\<lparr>ch_running_state := CS_NONE\<rparr>))"

definition switch_channel_transfer_to_extension :: "channel_env \<Rightarrow> nat option \<Rightarrow> channel \<Rightarrow> channel c" where
  "switch_channel_transfer_to_extension env ext ch =
     bindE (switch_channel_set_flag env CF_TRANSFER (ch\<lparr>ch_queued_extension := ext\<rparr>)) (\<lambda>ch.
     bindE (switch_channel_perform_set_state env CS_ROUTING ch) (\<lambda>(_, ch). Inr ch))"

definition switch_channel_set_bridge_time :: "channel_env \<Rightarrow> channel \<Rightarrow> channel" where
  "switch_channel_set_bridge_time env ch =
     (case ch_times ch of
        None \<Rightarrow> ch
      | Some tt \<Rightarrow> let (now, ch) = time_now env ch in ch\<lparr>ch_times := Some (tt\<lparr>tt_bridged := now\<rparr>)\<rparr>)"

definition switch_channel_set_hangup_time :: "channel_env \<Rightarrow> channel \<Rightarrow> channel" where
  "switch_channel_set_hangup_time env ch =
     (case ch_times ch of
        None \<Rightarrow> ch
      | Some tt \<Rightarrow>
          if tt_hungup tt = 0 then let (now, ch) = time_now env ch in ch\<lparr>ch_times := Some (tt\<lparr>tt_hungup := now\<rparr>)\<rparr> else ch)"

section \<open>Hold and hangup\<close>

definition switch_channel_mark_hold :: "channel_env \<Rightarrow> bool \<Rightarrow> channel \<Rightarrow> channel c" where
  "switch_channel_mark_hold env on ch =
     bindE (if on = flag_on ch CF_LEG_HOLDING then Inr ch
            else bindE (if on then switch_channel_set_flag env CF_LEG_HOLDING ch else switch_channel_clear_flag env CF_LEG_HOLDING ch)
                   (\<lambda>ch. Inr (call env (Fire (if on then CHANNEL_HOLD else CHANNEL_UNHOLD)) ch))) (\<lambda>ch.
       if on \<and> switch_true (ce_variable env ''flip_record_on_hold'' ch) then
         let (status, ch) = ask env Get_Partner ch
         in Inr (if status = SWITCH_STATUS_SUCCESS then call env Transfer_Recordings ch else ch)
       else Inr ch)"

definition hold_record_close :: "channel_env \<Rightarrow> channel \<Rightarrow> channel" where
  "hold_record_close env ch =
     (case ch_hold_record ch of
        [] \<Rightarrow> ch
      | hr # hrs \<Rightarrow>
          if hr_off hr = 0 then let (now, ch) = time_now env ch in ch\<lparr>ch_hold_record := hr\<lparr>hr_off := now\<rparr> # hrs\<rparr> else ch)"

definition bridge_role :: "channel_env \<Rightarrow> channel \<Rightarrow> channel" where
  "bridge_role env ch =
     (if flag_on ch CF_BRIDGE_ORIGINATOR then set_variable env ''last_bridge_role'' (Some ''originator'') ch
      else if flag_on ch CF_BRIDGED then set_variable env ''last_bridge_role'' (Some ''originatee'') ch
      else ch)"

text \<open>The part of the hangup that runs once, on a channel that is not yet in its final states.\<close>

definition hangup_body :: "channel_env \<Rightarrow> int \<Rightarrow> channel \<Rightarrow> channel" where
  "hangup_body env cause ch =
     (let ch = hold_record_close env ch;
          ch = ch\<lparr>ch_state := CS_HANGUP\<rparr>;
          ch = ch\<lparr>ch_hangup_cause := cause\<rparr>;
          ch = call env (Set_Variable_Partner ''last_bridge_hangup_cause'' (switch_channel_cause2str cause)) ch;
          ch = (case ce_variable env ''proto_specific_hangup_cause'' ch of
                  None \<Rightarrow> ch
                | Some var \<Rightarrow> call env (Set_Variable_Partner ''last_bridge_proto_specific_hangup_cause'' var) ch);
          ch = bridge_role env ch;
          ch = (if \<not> ce_session_running env \<and> \<not> ce_session_started env then call env Thread_Launch ch else ch);
          ch = call env (Fire CHANNEL_HANGUP) ch;
          ch = call env Kill_Channel ch;
          ch = call env Signal_State_Change ch
      in call env Hangup_State ch)"

definition switch_channel_perform_hangup :: "channel_env \<Rightarrow> int \<Rightarrow> channel \<Rightarrow> (channel_state \<times> channel) c" where
  "switch_channel_perform_hangup env cause ch =
     (let ok = (ch_opaque_flags ch AND OCF_HANGUP = 0);
          ch = (if ok then ch\<lparr>ch_opaque_flags := ch_opaque_flags ch OR OCF_HANGUP\<rparr> else ch)
      in bindE (if flag_on ch CF_LEG_HOLDING
                then bindE (switch_channel_mark_hold env False ch) (switch_channel_set_flag env CF_HANGUP_HELD)
                else Inr ch) (\<lambda>ch.
         if \<not> ok then Inr (ch_state ch, ch)
         else
           bindE (switch_channel_clear_flag env CF_BLOCK_STATE ch) (\<lambda>ch.
             let ch = (if ch_state ch < CS_HANGUP then hangup_body env cause ch else ch)
             in Inr (ch_state ch, ch))))"

section \<open>Ringing, early media, answer\<close>

definition send_ind :: "channel_env \<Rightarrow> channel_message \<Rightarrow> channel \<Rightarrow> channel" where
  "send_ind env m ch = call env (Message m) ch"

definition switch_channel_perform_audio_sync :: "channel_env \<Rightarrow> channel \<Rightarrow> channel" where
  "switch_channel_perform_audio_sync env ch =
     (if flag_on ch CF_ANSWERED \<or> flag_on ch CF_EARLY_MEDIA then call env (Message INDICATE_AUDIO_SYNC) ch else ch)"

definition note_progress :: "channel_env \<Rightarrow> channel \<Rightarrow> channel" where
  "note_progress env ch =
     (case ch_times ch of
        None \<Rightarrow> ch
      | Some tt \<Rightarrow>
          let (now, ch) = time_now env ch;
              ch = ch\<lparr>ch_times := Some (tt\<lparr>tt_progress := now\<rparr>)\<rparr>
          in if ch_originator ch then call env (Originator_Progress now) ch else ch)"

definition switch_channel_perform_mark_ring_ready_value :: "channel_env \<Rightarrow> u32 \<Rightarrow> channel \<Rightarrow> (switch_status_t \<times> channel) c" where
  "switch_channel_perform_mark_ring_ready_value env rv ch =
     (if \<not> flag_on ch CF_RING_READY \<and> \<not> flag_on ch CF_ANSWERED then
        bindE (switch_channel_set_flag_value env CF_RING_READY rv ch) (\<lambda>ch.
          let ch = note_progress env ch;
              ch = call env (Fire CHANNEL_PROGRESS) ch;
              ch = call env (Execute_On ''execute_on_ring'') ch;
              ch = call env (Api_On ''api_on_ring'') ch;
              ch = switch_channel_set_callstate env CCS_RINGING ch
          in Inr (SWITCH_STATUS_SUCCESS, send_ind env RING_EVENT ch))
      else Inr (SWITCH_STATUS_FALSE, ch))"

definition note_progress_media :: "channel_env \<Rightarrow> channel \<Rightarrow> channel" where
  "note_progress_media env ch =
     (case ch_times ch of
        None \<Rightarrow> ch
      | Some tt \<Rightarrow>
          let (now, ch) = time_now env ch;
              ch = ch\<lparr>ch_times := Some (tt\<lparr>tt_progress_media := now\<rparr>)\<rparr>
          in if ch_originator ch then call env (Originator_Progress_Media now) ch else ch)"

definition ptime_mismatch :: "channel_env \<Rightarrow> channel \<Rightarrow> channel c" where
  "ptime_mismatch env ch =
     (if ce_variable env ''passthru_ptime_mismatch'' ch \<noteq> None
      then switch_channel_set_flag env CF_PASSTHRU_PTIME_MISMATCH ch else Inr ch)"

definition break_originator :: "channel_env \<Rightarrow> channel \<Rightarrow> channel" where
  "break_originator env ch =
     (case ce_variable env ''originator'' ch of
        None \<Rightarrow> ch
      | Some uuid \<Rightarrow> if ce_session_locate env uuid then call env (Break_Originator uuid) ch else ch)"

definition switch_channel_perform_mark_pre_answered :: "channel_env \<Rightarrow> channel \<Rightarrow> (switch_status_t \<times> channel) c" where
  "switch_channel_perform_mark_pre_answered env ch =
     (if \<not> flag_on ch CF_EARLY_MEDIA \<and> \<not> flag_on ch CF_ANSWERED then
        bindE (switch_channel_set_flag env CF_EARLY_MEDIA (call env Check_Zrtp ch)) (\<lambda>ch.
          let ch = set_variable env ''endpoint_disposition'' (Some ''EARLY MEDIA'') ch;
              ch = note_progress_media env ch;
              ch = call env (Fire CHANNEL_PROGRESS_MEDIA) ch;
              ch = call env (Execute_On ''execute_on_pre_answer'') ch;
              ch = call env (Execute_On ''execute_on_media'') ch;
              ch = call env (Api_On ''api_on_pre_answer'') ch;
              ch = call env (Api_On ''api_on_media'') ch
          in bindE (ptime_mismatch env ch) (\<lambda>ch.
               let ch = break_originator env ch;
                   ch = switch_channel_set_callstate env CCS_EARLY ch
               in Inr (SWITCH_STATUS_SUCCESS, send_ind env PROGRESS_EVENT ch)))
      else Inr (SWITCH_STATUS_FALSE, ch))"

text \<open>
  Pre-answer, ring-ready and answer share their shape: nothing happens on a channel that has been
  hung up or is already that far; an inbound channel is told, and hung up when it refuses.
\<close>

definition switch_channel_perform_pre_answer :: "channel_env \<Rightarrow> channel \<Rightarrow> (switch_status_t \<times> channel) c" where
  "switch_channel_perform_pre_answer env ch =
     (if ch_hangup_cause ch \<noteq> 0 \<or> ch_state ch \<ge> CS_HANGUP then Inr (SWITCH_STATUS_FALSE, ch)
      else if flag_on ch CF_ANSWERED then Inr (SWITCH_STATUS_SUCCESS, ch)
      else if flag_on ch CF_EARLY_MEDIA then Inr (SWITCH_STATUS_SUCCESS, ch)
      else
        let (status, ch) = (if ch_direction ch = SWITCH_CALL_DIRECTION_INBOUND
                            then ask env (Message INDICATE_PROGRESS) ch else (SWITCH_STATUS_SUCCESS, ch))
        in if status = SWITCH_STATUS_SUCCESS then
             bindE (switch_channel_perform_mark_pre_answered env ch) (\<lambda>(_, ch).
               Inr (status, switch_channel_perform_audio_sync env ch))
           else bindE (switch_channel_perform_hangup env SWITCH_CAUSE_INCOMPATIBLE_DESTINATION ch) (\<lambda>(_, ch). Inr (status, ch)))"

definition switch_channel_perform_ring_ready_value :: "channel_env \<Rightarrow> u32 \<Rightarrow> channel \<Rightarrow> (switch_status_t \<times> channel) c" where
  "switch_channel_perform_ring_ready_value env rv ch =
     (if ch_hangup_cause ch \<noteq> 0 \<or> ch_state ch \<ge> CS_HANGUP then Inr (SWITCH_STATUS_FALSE, ch)
      else if flag_on ch CF_ANSWERED then Inr (SWITCH_STATUS_SUCCESS, ch)
      else if flag_on ch CF_EARLY_MEDIA then Inr (SWITCH_STATUS_SUCCESS, ch)
      else
        let (status, ch) = (if ch_direction ch = SWITCH_CALL_DIRECTION_INBOUND
                            then ask env (Message (INDICATE_RINGING rv)) ch else (SWITCH_STATUS_SUCCESS, ch))
        in if status = SWITCH_STATUS_SUCCESS then
             bindE (switch_channel_perform_mark_ring_ready_value env rv ch) (\<lambda>(_, ch). Inr (status, ch))
           else bindE (switch_channel_perform_hangup env SWITCH_CAUSE_INCOMPATIBLE_DESTINATION ch) (\<lambda>(_, ch). Inr (status, ch)))"

definition heartbeat_seconds :: "string \<Rightarrow> u32" where
  "heartbeat_seconds var =
     (if switch_is_number var then (if atoi var > 0 then of_int (atoi var) else 60)
      else if \<not> switch_true (Some var) then 0 else 60)"

definition enable_heartbeat :: "channel_env \<Rightarrow> channel \<Rightarrow> channel" where
  "enable_heartbeat env ch =
     (case ce_variable env ''enable_heartbeat_events'' ch of
        None \<Rightarrow> ch
      | Some var \<Rightarrow> if heartbeat_seconds var \<noteq> 0 then call env (Enable_Heartbeat (heartbeat_seconds var)) ch else ch)"

definition note_answered :: "channel_env \<Rightarrow> channel \<Rightarrow> channel" where
  "note_answered env ch =
     (case ch_times ch of
        None \<Rightarrow> ch
      | Some tt \<Rightarrow> let (now, ch) = time_now env ch in ch\<lparr>ch_times := Some (tt\<lparr>tt_answered := now\<rparr>)\<rparr>)"

definition switch_channel_perform_mark_answered :: "channel_env \<Rightarrow> channel \<Rightarrow> (switch_status_t \<times> channel) c" where
  "switch_channel_perform_mark_answered env ch =
     (if ch_hangup_cause ch \<noteq> 0 \<or> ch_state ch \<ge> CS_HANGUP then Inr (SWITCH_STATUS_FALSE, ch)
      else if flag_on ch CF_ANSWERED then Inr (SWITCH_STATUS_SUCCESS, ch)
      else
        bindE (switch_channel_set_flag env CF_ANSWERED (call env Check_Zrtp (note_answered env ch))) (\<lambda>ch.
          let ch = call env (Fire CHANNEL_ANSWER) ch;
              ch = break_originator env ch
          in bindE (ptime_mismatch env ch) (\<lambda>ch.
               let ch = enable_heartbeat env ch;
                   ch = set_variable env ''endpoint_disposition'' (Some ''ANSWER'') ch;
                   ch = call env (Execute_On ''execute_on_answer'') ch;
                   ch = (if \<not> flag_on ch CF_EARLY_MEDIA
                         then call env (Api_On ''api_on_media'') (call env (Execute_On ''execute_on_media'') ch) else ch);
                   ch = call env (Api_On ''api_on_answer'') ch;
                   ch = call env Presence ch;
                   ch = call env Recovery_Track ch;
                   ch = switch_channel_set_callstate env CCS_ACTIVE ch
               in Inr (SWITCH_STATUS_SUCCESS, send_ind env ANSWER_EVENT ch))))"

definition answer_delay :: "channel_env \<Rightarrow> channel \<Rightarrow> channel" where
  "answer_delay env ch =
     (if ce_in_thread env then
        (case ce_variable env ''answer_delay'' ch of
           None \<Rightarrow> ch
         | Some delay \<Rightarrow> if atol delay \<noteq> 0 then call env (Sleep (atol delay)) ch else ch)
      else ch)"

definition switch_channel_perform_answer :: "channel_env \<Rightarrow> channel \<Rightarrow> (switch_status_t \<times> channel) c" where
  "switch_channel_perform_answer env ch =
     (if ch_direction ch = SWITCH_CALL_DIRECTION_OUTBOUND then Inr (SWITCH_STATUS_SUCCESS, ch)
      else if ch_hangup_cause ch \<noteq> 0 \<or> ch_state ch \<ge> CS_HANGUP then Inr (SWITCH_STATUS_FALSE, ch)
      else if flag_on ch CF_ANSWERED then Inr (SWITCH_STATUS_SUCCESS, ch)
      else
        let (status, ch) = ask env (Message INDICATE_ANSWER) ch
        in bindE (if status = SWITCH_STATUS_SUCCESS then
                    bindE (switch_channel_perform_mark_answered env ch) (\<lambda>(_, ch).
                      Inr (if \<not> flag_on ch CF_EARLY_MEDIA then switch_channel_perform_audio_sync env ch else ch))
                  else bindE (switch_channel_perform_hangup env SWITCH_CAUSE_INCOMPATIBLE_DESTINATION ch) (\<lambda>(_, ch). Inr ch)) (\<lambda>ch.
             Inr (status, answer_delay env ch)))"

section \<open>Runs of operations\<close>

text \<open>The operations on a channel that has been initialised.\<close>

datatype channel_op =
    Op_Set_State channel_state | Op_Set_Running_State channel_state | Op_Set_Callstate callstate
  | Op_Set_Flag nat u32 | Op_Clear_Flag nat | Op_Set_Flag_Recursive nat | Op_Clear_Flag_Recursive nat
  | Op_Set_State_Flag nat | Op_Clear_State_Flag nat | Op_Set_Private_Flag u32 | Op_Clear_Private_Flag u32
  | Op_Set_Cap nat u32 | Op_Clear_Cap nat | Op_Mark_Hold bool | Op_Transfer "nat option" | Op_Hangup int
  | Op_Ring_Ready u32 | Op_Pre_Answer | Op_Answer | Op_Mark_Ring_Ready u32 | Op_Mark_Pre_Answered | Op_Mark_Answered
  | Op_Test_Ready bool bool | Op_Wait_For_State channel_state u32 | Op_Set_Bridge_Time | Op_Set_Hangup_Time
  | Op_Set_Direction call_direction

definition keep_channel :: "('a \<times> channel) c \<Rightarrow> channel c" where
  "keep_channel m = bindE m (\<lambda>(_, ch). Inr ch)"

fun channel_step :: "channel_env \<times> channel_op \<Rightarrow> channel \<Rightarrow> channel c" where
  "channel_step (env, Op_Set_State s) ch = keep_channel (switch_channel_perform_set_state env s ch)"
| "channel_step (env, Op_Set_Running_State s) ch = switch_channel_perform_set_running_state env s ch"
| "channel_step (env, Op_Set_Callstate cs) ch = Inr (switch_channel_set_callstate env cs ch)"
| "channel_step (env, Op_Set_Flag f v) ch = switch_channel_set_flag_value env f v ch"
| "channel_step (env, Op_Clear_Flag f) ch = switch_channel_clear_flag env f ch"
| "channel_step (env, Op_Set_Flag_Recursive f) ch = Inr (switch_channel_set_flag_recursive env f ch)"
| "channel_step (env, Op_Clear_Flag_Recursive f) ch = Inr (switch_channel_clear_flag_recursive env f ch)"
| "channel_step (env, Op_Set_State_Flag f) ch = Inr (switch_channel_set_state_flag f ch)"
| "channel_step (env, Op_Clear_State_Flag f) ch = Inr (switch_channel_clear_state_flag f ch)"
| "channel_step (env, Op_Set_Private_Flag v) ch = Inr (switch_channel_set_private_flag v ch)"
| "channel_step (env, Op_Clear_Private_Flag v) ch = Inr (switch_channel_clear_private_flag v ch)"
| "channel_step (env, Op_Set_Cap c v) ch = Inr (switch_channel_set_cap_value c v ch)"
| "channel_step (env, Op_Clear_Cap c) ch = Inr (switch_channel_clear_cap c ch)"
| "channel_step (env, Op_Mark_Hold b) ch = switch_channel_mark_hold env b ch"
| "channel_step (env, Op_Transfer e) ch = switch_channel_transfer_to_extension env e ch"
| "channel_step (env, Op_Hangup c) ch = keep_channel (switch_channel_perform_hangup env c ch)"
| "channel_step (env, Op_Ring_Ready v) ch = keep_channel (switch_channel_perform_ring_ready_value env v ch)"
| "channel_step (env, Op_Pre_Answer) ch = keep_channel (switch_channel_perform_pre_answer env ch)"
| "channel_step (env, Op_Answer) ch = keep_channel (switch_channel_perform_answer env ch)"
| "channel_step (env, Op_Mark_Ring_Ready v) ch = keep_channel (switch_channel_perform_mark_ring_ready_value env v ch)"
| "channel_step (env, Op_Mark_Pre_Answered) ch = keep_channel (switch_channel_perform_mark_pre_answered env ch)"
| "channel_step (env, Op_Mark_Answered) ch = keep_channel (switch_channel_perform_mark_answered env ch)"
| "channel_step (env, Op_Test_Ready r m) ch = Inr (snd (switch_channel_test_ready env r m ch))"
| "channel_step (env, Op_Wait_For_State s t) ch = Inr (switch_channel_wait_for_state_timeout env s t ch)"
| "channel_step (env, Op_Set_Bridge_Time) ch = Inr (switch_channel_set_bridge_time env ch)"
| "channel_step (env, Op_Set_Hangup_Time) ch = Inr (switch_channel_set_hangup_time env ch)"
| "channel_step (env, Op_Set_Direction d) ch = Inr (switch_channel_set_direction env d ch)"

section \<open>What no operation takes back\<close>

text \<open>
  The contract of a system whose steps go forward in a preorder, and what follows for its runs.
\<close>

locale forward_system =
  fixes step :: "'o \<Rightarrow> 's \<Rightarrow> 's c"
    and pre :: "'o \<Rightarrow> bool"
    and ahead :: "'s \<Rightarrow> 's \<Rightarrow> bool"
  assumes ahead_refl: "ahead s s"
    and ahead_trans: "ahead s t \<Longrightarrow> ahead t u \<Longrightarrow> ahead s u"
    and step_ahead: "step x s = Inr t \<Longrightarrow> pre x \<Longrightarrow> ahead s t"
begin

lemma run_ahead: "run_ops step xs s = Inr t \<Longrightarrow> list_all pre xs \<Longrightarrow> ahead s t"
proof (induction xs arbitrary: s)
  case (Cons x xs)
  then obtain u where "step x s = Inr u" "run_ops step xs u = Inr t" by (auto simp: bindE_eq_Inr)
  with Cons show ?case by (auto intro: ahead_trans step_ahead)
qed (simp add: ahead_refl)

end

text \<open>
  A channel is behind another when the second can come after it: a channel in one of the final states
  moves on only towards \<open>CS_DESTROY\<close> and keeps its cause, a call state that has reached \<open>CCS_HANGUP\<close> stays,
  the hangup event has been fired at most once, the log has grown, and
  a channel that is in a state of the machine is still in one. \<open>hang_credit\<close> counts the hangup events fired, and one more
  while a hangup is still possible.
\<close>

definition hangups :: "channel \<Rightarrow> nat" where
  "hangups ch = count_list (ch_log ch) (Fire CHANNEL_HANGUP)"

definition hung :: "channel \<Rightarrow> bool" where
  "hung ch \<longleftrightarrow> ch_opaque_flags ch AND OCF_HANGUP \<noteq> 0"

definition hang_credit :: "channel \<Rightarrow> nat" where
  "hang_credit ch = hangups ch + (if hung ch then 0 else 1)"

definition advances :: "channel \<Rightarrow> channel \<Rightarrow> bool" where
  "advances a b \<longleftrightarrow>
     (CS_HANGUP \<le> ch_state a \<longrightarrow> ch_state a \<le> ch_state b \<and> ch_hangup_cause b = ch_hangup_cause a) \<and>
     (ch_callstate a = CCS_HANGUP \<longrightarrow> ch_callstate b = CCS_HANGUP) \<and>
     (hung a \<longrightarrow> hung b) \<and> hang_credit b \<le> hang_credit a \<and> (\<exists>l. ch_log b = ch_log a @ l) \<and>
     (ch_state a \<noteq> CS_NONE \<longrightarrow> ch_state b \<noteq> CS_NONE)"

text \<open>What the proofs use of the code that is called: it changes the channel by going forward, and not its state while
  the state mutex is held. Below it follows from the fact that this code, too, works on the channel through the operations.\<close>

definition hook_ok :: "channel_env \<Rightarrow> bool" where
  "hook_ok env \<longleftrightarrow> (\<forall>e ch. advances ch (ce_hook env e ch)) \<and>
     (\<forall>ch. ch_state (ce_hook env Cond_Next_Locked ch) = ch_state ch)"

lemma advances_refl [simp]: "advances a a"
  by (simp add: advances_def)

lemma advances_trans: "advances a b \<Longrightarrow> advances b c \<Longrightarrow> advances a c"
  unfolding advances_def by (elim conjE exE) (intro conjI impI; fastforce)

named_theorems adv \<open>operations that go forward\<close>

lemma advances_update [adv]:
  "advances a b \<Longrightarrow> advances a (b\<lparr>ch_flags := x1\<rparr>)" "advances a b \<Longrightarrow> advances a (b\<lparr>ch_caps := x2\<rparr>)"
  "advances a b \<Longrightarrow> advances a (b\<lparr>ch_state_flags := x3\<rparr>)" "advances a b \<Longrightarrow> advances a (b\<lparr>ch_private_flags := x4\<rparr>)"
  "advances a b \<Longrightarrow> advances a (b\<lparr>ch_queued_extension := x5\<rparr>)" "advances a b \<Longrightarrow> advances a (b\<lparr>ch_hold_record := x6\<rparr>)"
  "advances a b \<Longrightarrow> advances a (b\<lparr>ch_device := x7\<rparr>)" "advances a b \<Longrightarrow> advances a (b\<lparr>ch_times := x8\<rparr>)"
  "advances a b \<Longrightarrow> advances a (b\<lparr>ch_tick := x9\<rparr>)" "advances a b \<Longrightarrow> advances a (b\<lparr>ch_logical_direction := x10\<rparr>)"
  "advances a b \<Longrightarrow> advances a (b\<lparr>ch_running_state := x11\<rparr>)"
  "advances a b \<Longrightarrow> advances a (b\<lparr>ch_logical_direction := x10, ch_device := x7\<rparr>)"
  "advances a b \<Longrightarrow> advances a (b\<lparr>ch_direction := x12, ch_logical_direction := x10\<rparr>)"
  "advances a b \<Longrightarrow> advances a (b\<lparr>ch_flags := x1, ch_state_flags := x3\<rparr>)"
  by (simp_all add: advances_def hang_credit_def hangups_def hung_def)

lemma hook_advances: "hook_ok env \<Longrightarrow> advances ch (ce_hook env e ch)"
  by (simp add: hook_ok_def)

lemma advances_call [adv]:
  assumes "advances a b" and "hook_ok env" and "e \<noteq> Fire CHANNEL_HANGUP"
  shows "advances a (call env e b)"
proof -
  have "advances b (b\<lparr>ch_log := ch_log b @ [e]\<rparr>)"
    using assms(3) by (simp add: advances_def hang_credit_def hangups_def hung_def)
  then show ?thesis unfolding call_def using assms(1) hook_advances [OF assms(2)] by (blast intro: advances_trans)
qed

lemma advances_time_now [adv]: "advances a b \<Longrightarrow> advances a (snd (time_now env b))"
  by (simp add: time_now_def advances_update)

lemma time_now_pair: "time_now env b = (fst (time_now env b), snd (time_now env b))"
  by simp

lemma advances_set_callstate [adv]:
  assumes "advances a b" and "hook_ok env"
  shows "advances a (switch_channel_set_callstate env cs b)"
proof (cases "ch_callstate b = cs \<or> ch_callstate b = CCS_HANGUP")
  case False
  have "advances b (b\<lparr>ch_callstate := cs\<rparr>)"
    using False by (simp add: advances_def hang_credit_def hangups_def hung_def)
  then show ?thesis using False assms
    by (auto simp: switch_channel_set_callstate_def Let_def intro!: adv intro: advances_trans)
qed (use assms in \<open>auto simp: switch_channel_set_callstate_def Let_def\<close>)

lemma advances_set_variable [adv]: "advances a b \<Longrightarrow> hook_ok env \<Longrightarrow> advances a (set_variable env n v b)"
  by (simp add: set_variable_def adv)

lemma advances_mirror_flag [adv]: "advances a b \<Longrightarrow> hook_ok env \<Longrightarrow> advances a (mirror_flag env f v b)"
  by (simp add: mirror_flag_def Let_def adv)

lemma advances_hold_begin: "hold_begin env b = Inr c \<Longrightarrow> advances a b \<Longrightarrow> hook_ok env \<Longrightarrow> advances a c"
  by (auto simp: hold_begin_def Let_def time_now_def intro!: adv split: option.splits)

lemma advances_dialplan [adv]:
  "advances a b \<Longrightarrow> advances a (set_dialplan_direction b)" "advances a b \<Longrightarrow> advances a (clear_dialplan_direction b)"
  by (auto simp: set_dialplan_direction_def clear_dialplan_direction_def adv split: call_direction.split)

lemma advances_set_flag_value:
  "switch_channel_set_flag_value env f v b = Inr c \<Longrightarrow> advances a b \<Longrightarrow> hook_ok env \<Longrightarrow> advances a c"
  unfolding switch_channel_set_flag_value_def Let_def
  by (auto simp: bindE_eq_Inr adv split: if_splits intro!: adv dest!: advances_hold_begin)

lemma advances_set_flag: "switch_channel_set_flag env f b = Inr c \<Longrightarrow> advances a b \<Longrightarrow> hook_ok env \<Longrightarrow> advances a c"
  unfolding switch_channel_set_flag_def by (rule advances_set_flag_value)

lemma advances_hold_end: "hold_end env b = Inr c \<Longrightarrow> advances a b \<Longrightarrow> hook_ok env \<Longrightarrow> advances a c"
  unfolding hold_end_def Let_def time_now_def
  by (auto simp: adv split: option.splits if_splits list.splits intro!: adv)

lemma advances_clear_flag:
  "switch_channel_clear_flag env f b = Inr c \<Longrightarrow> advances a b \<Longrightarrow> hook_ok env \<Longrightarrow> advances a c"
  unfolding switch_channel_clear_flag_def Let_def
  by (auto simp: bindE_eq_Inr adv split: if_splits intro!: adv dest!: advances_hold_end)

lemma advances_flag_ops [adv]:
  "advances a b \<Longrightarrow> hook_ok env \<Longrightarrow> advances a (switch_channel_set_flag_recursive env f b)"
  "advances a b \<Longrightarrow> hook_ok env \<Longrightarrow> advances a (switch_channel_clear_flag_recursive env f b)"
  "advances a b \<Longrightarrow> advances a (switch_channel_set_state_flag f b)"
  "advances a b \<Longrightarrow> advances a (switch_channel_clear_state_flag f b)"
  "advances a b \<Longrightarrow> advances a (switch_channel_set_private_flag v b)"
  "advances a b \<Longrightarrow> advances a (switch_channel_clear_private_flag v b)"
  "advances a b \<Longrightarrow> advances a (switch_channel_set_cap_value n v b)"
  "advances a b \<Longrightarrow> advances a (switch_channel_clear_cap n b)"
  "advances a b \<Longrightarrow> advances a (apply_state_flags b)"
  by (auto simp: switch_channel_set_flag_recursive_def switch_channel_clear_flag_recursive_def switch_channel_set_state_flag_def
      switch_channel_clear_state_flag_def switch_channel_set_private_flag_def switch_channel_clear_private_flag_def
      switch_channel_set_cap_value_def switch_channel_clear_cap_def apply_state_flags_def Let_def intro!: adv)

lemma advances_set_direction [adv]: "advances a b \<Longrightarrow> advances a (switch_channel_set_direction env d b)"
  by (simp add: switch_channel_set_direction_def adv)

lemma careful_wait_keeps:
  "hook_ok env \<Longrightarrow> advances a b \<Longrightarrow> advances a (careful_wait env x n b) \<and>
     ch_state (careful_wait env x n b) = ch_state b"
proof (induction env x n b rule: careful_wait.induct)
  case (2 env x n b)
  have "ch_state (call env Cond_Next_Locked b) = ch_state b" using 2(2) by (simp add: call_def hook_ok_def)
  moreover have "advances a (call env Cond_Next_Locked b)" using 2 by (auto intro: adv)
  ultimately show ?case using 2 by simp
qed simp

lemma advances_set_running_state:
  "switch_channel_perform_set_running_state env s b = Inr c \<Longrightarrow> advances a b \<Longrightarrow> hook_ok env \<Longrightarrow> advances a c"
proof -
  assume *: "switch_channel_perform_set_running_state env s b = Inr c" "advances a b" "hook_ok env"
  obtain d where d: "switch_channel_clear_flag env CF_TAGGED (apply_state_flags b) = Inr d"
    using *(1) by (auto simp: switch_channel_perform_set_running_state_def bindE_eq_Inr)
  have "advances a d" using advances_clear_flag [OF d] * by (auto intro: adv)
  then have "advances a (careful_set env (\<lambda>ch. ch\<lparr>ch_running_state := s\<rparr>) d)"
    using careful_wait_keeps [OF *(3)] by (auto simp: careful_set_def intro: adv)
  then show ?thesis using *(1,3) d
    by (auto simp: switch_channel_perform_set_running_state_def Let_def adv split: if_splits)
qed

lemma advances_to_state:
  assumes "advances a b" and "ch_state b \<ge> CS_HANGUP \<longrightarrow> s \<ge> ch_state b" and "s \<noteq> CS_NONE"
  shows "advances a (b\<lparr>ch_state := s\<rparr>)"
proof -
  have "advances b (b\<lparr>ch_state := s\<rparr>)" using assms(2,3) by (simp add: advances_def hang_credit_def hangups_def hung_def)
  then show ?thesis using assms(1) by (rule advances_trans [rotated])
qed

lemma advances_set_state:
  assumes "switch_channel_perform_set_state env s b = Inr (r, c)" and "advances a b" and "hook_ok env"
  shows "advances a c"
proof (cases "state_change_ok (ch_state b) s \<and> ch_state b \<noteq> s \<and> \<not> (ch_state b \<ge> CS_HANGUP \<and> s < ch_state b)")
  case True
  have "s \<noteq> CS_NONE" using assms(1) by (auto simp: switch_channel_perform_set_state_def assertE_def state_order)
  define d where "d = careful_set env (\<lambda>ch. ch\<lparr>ch_state := s\<rparr>) b"
  define e where "e = (if s = CS_HANGUP \<and> ch_hangup_cause d = 0 then d\<lparr>ch_hangup_cause := SWITCH_CAUSE_NORMAL_CLEARING\<rparr> else d)"
  have "advances a d"
    unfolding d_def careful_set_def using careful_wait_keeps [OF assms(3,2), of 0 100] assms(2) True \<open>s \<noteq> CS_NONE\<close>
    by (auto intro!: advances_to_state)
  have "advances a e"
  proof (cases "ch_state b \<ge> CS_HANGUP")
    case False
    then have "\<not> CS_HANGUP \<le> ch_state a" using assms(2) by (auto simp: advances_def)
    then show ?thesis using \<open>advances a d\<close> by (auto simp: e_def advances_def hang_credit_def hangups_def hung_def)
  next
    case high: True
    then have "s \<noteq> CS_HANGUP" using True by (cases "ch_state b") (auto simp: state_order)
    then show ?thesis using \<open>advances a d\<close> by (simp add: e_def)
  qed
  then show ?thesis using assms(1,3) True
    by (auto simp: switch_channel_perform_set_state_def bindE_eq_Inr assertE_def Let_def adv
        simp flip: d_def e_def split: if_splits)
next
  case False
  then show ?thesis using assms
    by (auto simp: switch_channel_perform_set_state_def bindE_eq_Inr assertE_def Let_def split: if_splits)
qed

lemma advances_mark_hold:
  "switch_channel_mark_hold env on b = Inr c \<Longrightarrow> advances a b \<Longrightarrow> hook_ok env \<Longrightarrow> advances a c"
  unfolding switch_channel_mark_hold_def ask_def Let_def
  by (auto simp: bindE_eq_Inr adv split: if_splits intro!: adv dest!: advances_set_flag advances_clear_flag)

lemma advances_hold_record_close [adv]: "advances a b \<Longrightarrow> advances a (hold_record_close env b)"
  by (auto simp: hold_record_close_def time_now_def intro!: adv split: list.split)

lemma hold_record_close_core:
  "ch_state (hold_record_close env b) = ch_state b" "ch_callstate (hold_record_close env b) = ch_callstate b"
  "hung (hold_record_close env b) = hung b" "hang_credit (hold_record_close env b) = hang_credit b"
  "ch_log (hold_record_close env b) = ch_log b"
  by (simp_all add: hold_record_close_def time_now_def hung_def hang_credit_def hangups_def split: list.split)

lemma advances_bridge_role [adv]: "advances a b \<Longrightarrow> hook_ok env \<Longrightarrow> advances a (bridge_role env b)"
  by (simp add: bridge_role_def adv)

text \<open>The body of the hangup spends the credit that taking the hangup flag has left.\<close>

lemma hangup_body_spends:
  assumes "hook_ok env" and "ch_state b < CS_HANGUP" and "hung b"
  shows "ch_callstate b = CCS_HANGUP \<longrightarrow> ch_callstate (hangup_body env cause b) = CCS_HANGUP"
    and "hung (hangup_body env cause b)" and "hang_credit (hangup_body env cause b) \<le> Suc (hang_credit b)"
    and "CS_HANGUP \<le> ch_state (hangup_body env cause b)" and "ch_hangup_cause (hangup_body env cause b) = cause"
    and "\<exists>l l'. ch_log (hangup_body env cause b) = ch_log b @ l @ Fire CHANNEL_HANGUP # l'"
    and "ch_state (hangup_body env cause b) \<noteq> CS_NONE"
proof -
  define d where "d = (hold_record_close env b)\<lparr>ch_state := CS_HANGUP\<rparr>\<lparr>ch_hangup_cause := cause\<rparr>"
  define e where "e =
    (let ch = call env (Set_Variable_Partner ''last_bridge_hangup_cause'' (switch_channel_cause2str cause)) d;
         ch = (case ce_variable env ''proto_specific_hangup_cause'' ch of
                  None \<Rightarrow> ch
                | Some var \<Rightarrow> call env (Set_Variable_Partner ''last_bridge_proto_specific_hangup_cause'' var) ch);
         ch = bridge_role env ch
     in if \<not> ce_session_running env \<and> \<not> ce_session_started env then call env Thread_Launch ch else ch)"
  define f where "f = call env (Fire CHANNEL_HANGUP) e"
  have "advances d e" unfolding e_def Let_def using assms(1) by (auto intro!: adv split: option.split)
  have fl: "advances (e\<lparr>ch_log := ch_log e @ [Fire CHANNEL_HANGUP]\<rparr>) f"
    unfolding f_def call_def using assms(1) by (rule hook_advances)
  have body: "hangup_body env cause b = call env Hangup_State (call env Signal_State_Change (call env Kill_Channel f))"
    by (simp only: hangup_body_def Let_def d_def e_def f_def)
  have g: "advances f (hangup_body env cause b)" unfolding body using assms(1) by (intro adv) simp_all
  have d: "ch_state d = CS_HANGUP" "ch_hangup_cause d = cause" "ch_callstate d = ch_callstate b" "hung d = hung b"
    "hang_credit d = hang_credit b" "ch_log d = ch_log b"
    using hold_record_close_core [of env b] by (simp_all add: d_def hung_def hang_credit_def hangups_def)
  have c: "hang_credit (e\<lparr>ch_log := ch_log e @ [Fire CHANNEL_HANGUP]\<rparr>) = Suc (hang_credit e)"
    by (simp add: hang_credit_def hangups_def hung_def)
  note facts = \<open>advances d e\<close> fl g d c
  show "ch_callstate b = CCS_HANGUP \<longrightarrow> ch_callstate (hangup_body env cause b) = CCS_HANGUP"
    using facts(1-3) d by (simp add: advances_def)
  show "hung (hangup_body env cause b)" using facts(1-3) d assms(3) by (simp add: advances_def hung_def)
  show "hang_credit (hangup_body env cause b) \<le> Suc (hang_credit b)" using facts(1-3) d c by (simp add: advances_def)
  show "CS_HANGUP \<le> ch_state (hangup_body env cause b)" "ch_hangup_cause (hangup_body env cause b) = cause"
    using facts(1-3) d by (auto simp: advances_def)
  show "ch_state (hangup_body env cause b) \<noteq> CS_NONE" using facts(1-3) d(1) by (auto simp: advances_def)
  obtain l where l: "ch_log e = ch_log d @ l" using facts(1) by (auto simp: advances_def)
  obtain l' where "ch_log f = (ch_log e @ [Fire CHANNEL_HANGUP]) @ l'" using fl by (auto simp: advances_def)
  moreover obtain l'' where "ch_log (hangup_body env cause b) = ch_log f @ l''" using g by (auto simp: advances_def)
  ultimately have "ch_log (hangup_body env cause b) = ch_log b @ l @ Fire CHANNEL_HANGUP # (l' @ l'')" using l d(6) by simp
  then show "\<exists>l l'. ch_log (hangup_body env cause b) = ch_log b @ l @ Fire CHANNEL_HANGUP # l'" by blast
qed

lemma hung_once: "hung (b\<lparr>ch_opaque_flags := ch_opaque_flags b OR OCF_HANGUP\<rparr>)"
proof -
  have "bit ((ch_opaque_flags b OR OCF_HANGUP) AND OCF_HANGUP) 0" by (simp add: bit_simps OCF_HANGUP_def)
  then show ?thesis by (auto simp: hung_def)
qed

lemma advances_hangup:
  assumes "switch_channel_perform_hangup env cause b = Inr (r, c)" and "hook_ok env"
  shows "advances b c"
proof -
  define d where "d = (if \<not> hung b then b\<lparr>ch_opaque_flags := ch_opaque_flags b OR OCF_HANGUP\<rparr> else b)"
  have d: "advances b d" "hung d" "\<not> hung b \<longrightarrow> Suc (hang_credit d) \<le> hang_credit b"
    using hung_once [of b] by (auto simp: d_def advances_def hang_credit_def hangups_def)
  define M where "M = (if flag_on d CF_LEG_HOLDING
    then bindE (switch_channel_mark_hold env False d) (switch_channel_set_flag env CF_HANGUP_HELD) else Inr d)"
  define F where "F e = (if hung b then Inr (ch_state e, e)
    else bindE (switch_channel_clear_flag env CF_BLOCK_STATE e) (\<lambda>ch.
           let ch = (if ch_state ch < CS_HANGUP then hangup_body env cause ch else ch) in Inr (ch_state ch, ch)))" for e
  have "switch_channel_perform_hangup env cause b = bindE M F"
    unfolding switch_channel_perform_hangup_def Let_def d_def hung_def M_def F_def [abs_def] by simp
  then have "bindE M F = Inr (r, c)" using assms(1) by simp
  then obtain e where e: "M = Inr e" and c: "F e = Inr (r, c)" unfolding bindE_eq_Inr by blast
  have "advances d e" using e assms(2) by (auto simp: M_def bindE_eq_Inr split: if_splits dest!: advances_mark_hold advances_set_flag)
  show ?thesis
  proof (cases "hung b")
    case True
    then show ?thesis using c d(1) \<open>advances d e\<close> by (auto simp: F_def intro: advances_trans)
  next
    case False
    then obtain f where f: "switch_channel_clear_flag env CF_BLOCK_STATE e = Inr f"
      and c': "c = (if ch_state f < CS_HANGUP then hangup_body env cause f else f)" using c by (auto simp: F_def bindE_eq_Inr Let_def)
    have "advances d f" using advances_clear_flag [OF f \<open>advances d e\<close> assms(2)] .
    show ?thesis
    proof (cases "ch_state f < CS_HANGUP")
      case True
      have "hung f" "Suc (hang_credit f) \<le> hang_credit b"
        using \<open>advances d f\<close> d(2,3) False by (auto simp: advances_def)
      moreover have "\<not> CS_HANGUP \<le> ch_state b" "ch_callstate b = CCS_HANGUP \<longrightarrow> ch_callstate f = CCS_HANGUP"
        using True \<open>advances d f\<close> d(1) by (auto simp: advances_def)
      moreover obtain k where "ch_log f = ch_log b @ k"
        using advances_trans [OF d(1) \<open>advances d f\<close>] by (auto simp: advances_def)
      ultimately show ?thesis using hangup_body_spends [OF assms(2) True, of cause] True
        unfolding advances_def c' by auto
    qed (use c' \<open>advances d f\<close> d(1) in \<open>auto intro: advances_trans\<close>)
  qed
qed

lemma advances_notes [adv]:
  "advances a b \<Longrightarrow> hook_ok env \<Longrightarrow> advances a (note_progress env b)"
  "advances a b \<Longrightarrow> hook_ok env \<Longrightarrow> advances a (note_progress_media env b)"
  "advances a b \<Longrightarrow> advances a (note_answered env b)"
  "advances a b \<Longrightarrow> advances a (switch_channel_set_bridge_time env b)"
  "advances a b \<Longrightarrow> advances a (switch_channel_set_hangup_time env b)"
  by (auto simp: note_progress_def note_progress_media_def note_answered_def switch_channel_set_bridge_time_def
      switch_channel_set_hangup_time_def time_now_def Let_def intro!: adv split: option.split)

lemma advances_helpers [adv]:
  "advances a b \<Longrightarrow> hook_ok env \<Longrightarrow> advances a (send_ind env m b)"
  "advances a b \<Longrightarrow> hook_ok env \<Longrightarrow> advances a (switch_channel_perform_audio_sync env b)"
  "advances a b \<Longrightarrow> hook_ok env \<Longrightarrow> advances a (break_originator env b)"
  "advances a b \<Longrightarrow> hook_ok env \<Longrightarrow> advances a (enable_heartbeat env b)"
  "advances a b \<Longrightarrow> hook_ok env \<Longrightarrow> advances a (answer_delay env b)"
  "advances a b \<Longrightarrow> hook_ok env \<Longrightarrow> advances a (switch_channel_check_signal env t b)"
  by (auto simp: send_ind_def switch_channel_perform_audio_sync_def break_originator_def enable_heartbeat_def answer_delay_def
      switch_channel_check_signal_def intro!: adv split: option.split)

lemma advances_ptime: "ptime_mismatch env b = Inr c \<Longrightarrow> advances a b \<Longrightarrow> hook_ok env \<Longrightarrow> advances a c"
  by (auto simp: ptime_mismatch_def split: if_splits dest: advances_set_flag)

lemma advances_mark_ring_ready:
  "switch_channel_perform_mark_ring_ready_value env rv b = Inr (st, c) \<Longrightarrow> advances a b \<Longrightarrow> hook_ok env \<Longrightarrow> advances a c"
  by (auto simp: switch_channel_perform_mark_ring_ready_value_def bindE_eq_Inr Let_def intro!: adv split: if_splits
      dest!: advances_set_flag_value)

lemma advances_mark_pre_answered:
  "switch_channel_perform_mark_pre_answered env b = Inr (st, c) \<Longrightarrow> advances a b \<Longrightarrow> hook_ok env \<Longrightarrow> advances a c"
  unfolding switch_channel_perform_mark_pre_answered_def Let_def
  by (auto simp: bindE_eq_Inr intro!: adv elim!: advances_ptime advances_set_flag split: if_splits)

lemma advances_mark_answered:
  "switch_channel_perform_mark_answered env b = Inr (st, c) \<Longrightarrow> advances a b \<Longrightarrow> hook_ok env \<Longrightarrow> advances a c"
  unfolding switch_channel_perform_mark_answered_def Let_def
  by (auto simp: bindE_eq_Inr intro!: adv elim!: advances_ptime advances_set_flag split: if_splits)

lemma advances_hangup_from:
  "switch_channel_perform_hangup env cause b = Inr (r, c) \<Longrightarrow> advances a b \<Longrightarrow> hook_ok env \<Longrightarrow> advances a c"
  using advances_hangup advances_trans by blast

lemma advances_pre_answer:
  "switch_channel_perform_pre_answer env b = Inr (st, c) \<Longrightarrow> advances a b \<Longrightarrow> hook_ok env \<Longrightarrow> advances a c"
  unfolding switch_channel_perform_pre_answer_def ask_def Let_def
  by (auto simp: bindE_eq_Inr intro!: adv elim!: advances_mark_pre_answered advances_hangup_from split: if_splits)

lemma advances_ring_ready:
  "switch_channel_perform_ring_ready_value env rv b = Inr (st, c) \<Longrightarrow> advances a b \<Longrightarrow> hook_ok env \<Longrightarrow> advances a c"
  unfolding switch_channel_perform_ring_ready_value_def ask_def Let_def
  by (auto simp: bindE_eq_Inr intro!: adv elim!: advances_mark_ring_ready advances_hangup_from split: if_splits)

lemma advances_answer:
  "switch_channel_perform_answer env b = Inr (st, c) \<Longrightarrow> advances a b \<Longrightarrow> hook_ok env \<Longrightarrow> advances a c"
  unfolding switch_channel_perform_answer_def ask_def Let_def
  by (auto simp: bindE_eq_Inr intro!: adv elim!: advances_mark_answered advances_hangup_from split: if_splits)

lemma advances_wait_loop [adv]:
  "advances a b \<Longrightarrow> hook_ok env \<Longrightarrow> advances a (wait_for_state_loop env w t n b)"
proof (induction env w t n b rule: wait_for_state_loop.induct)
  case (1 env w t n b)
  have "advances a (call env Cond_Next (switch_channel_check_signal env True b))" using 1(2,3) by (intro adv) simp_all
  then show ?case using 1 by (subst wait_for_state_loop.simps) (auto simp: Let_def)
qed

lemma advances_transfer:
  "switch_channel_transfer_to_extension env x b = Inr c \<Longrightarrow> advances a b \<Longrightarrow> hook_ok env \<Longrightarrow> advances a c"
  unfolding switch_channel_transfer_to_extension_def
  by (auto simp: bindE_eq_Inr elim!: advances_set_state advances_set_flag intro!: adv)

lemma keep_channel_Inr: "keep_channel m = Inr c \<longleftrightarrow> (\<exists>r. m = Inr (r, c))"
  by (auto simp: keep_channel_def bindE_eq_Inr)

lemmas op_advances = advances_set_state advances_set_running_state advances_set_flag_value advances_clear_flag
  advances_mark_hold advances_transfer advances_hangup_from advances_ring_ready advances_pre_answer advances_answer
  advances_mark_ring_ready advances_mark_pre_answered advances_mark_answered

lemma channel_step_advances: "channel_step (env, x) b = Inr c \<Longrightarrow> hook_ok env \<Longrightarrow> advances b c"
  by (cases x)
    (auto simp: keep_channel_Inr switch_channel_test_ready_def switch_channel_wait_for_state_timeout_def Let_def
      intro: op_advances [where a = b] intro!: adv)

interpretation chan: forward_system channel_step "\<lambda>x. hook_ok (fst x)" advances
proof
  show "advances s u" if "advances s t" "advances t u" for s t u using that by (rule advances_trans)
  show "advances s t" if "channel_step x s = Inr t" "hook_ok (fst x)" for x s t
    using that channel_step_advances by (cases x) auto
qed simp

text \<open>
  What is relied on of the code that the operations call: what it does to the channel it does through these same operations,
  in environments of the same kind, and a wait with the state mutex held leaves the state alone.
\<close>

inductive calls_back :: "channel_env \<Rightarrow> bool" where
  calls_back: "(\<And>e ch. \<exists>xs. (\<forall>x\<in>set xs. calls_back (fst x)) \<and> run_ops channel_step xs ch = Inr (ce_hook env e ch)) \<Longrightarrow>
    (\<And>ch. ch_state (ce_hook env Cond_Next_Locked ch) = ch_state ch) \<Longrightarrow> calls_back env"

lemma calls_back_hook_ok: "calls_back env \<Longrightarrow> hook_ok env"
proof (induction rule: calls_back.induct)
  case (calls_back env)
  have "advances ch (ce_hook env e ch)" for e ch
  proof -
    obtain xs where "\<forall>x\<in>set xs. hook_ok (fst x)" "run_ops channel_step xs ch = Inr (ce_hook env e ch)"
      using calls_back(1) by blast
    then show ?thesis by (intro chan.run_ahead) (simp_all add: list_all_iff)
  qed
  then show ?case using calls_back(2) by (simp add: hook_ok_def)
qed

lemma idle_calls_back: "(\<And>e ch. ce_hook env e ch = ch) \<Longrightarrow> calls_back env"
  by (rule calls_back.intros) (auto intro: exI [of _ "[]"])

lemma run_advances: "run_ops channel_step xs ch = Inr ch' \<Longrightarrow> list_all (\<lambda>x. calls_back (fst x)) xs \<Longrightarrow> advances ch ch'"
  by (rule chan.run_ahead) (auto simp: list_all_iff calls_back_hook_ok)

section \<open>Properties\<close>

text \<open>C2. Whatever sequence of operations runs on a channel after its initialisation, and however the code they call operates on it in turn: from the moment it is in
  one of the states \<open>CS_HANGUP\<close>, \<open>CS_REPORTING\<close>, \<open>CS_DESTROY\<close> its state only moves forward and its hangup cause
  stays, a call state \<open>CCS_HANGUP\<close> stays, the mark of a hangup stays, and the hangup event is fired at most
  once, and not at all on a channel already marked.\<close>

theorem channel_hangup_final:
  assumes "run_ops channel_step xs ch = Inr ch'" and "list_all (\<lambda>x. calls_back (fst x)) xs"
  shows "(CS_HANGUP \<le> ch_state ch \<longrightarrow> ch_state ch \<le> ch_state ch' \<and> ch_hangup_cause ch' = ch_hangup_cause ch) \<and>
    (ch_callstate ch = CCS_HANGUP \<longrightarrow> ch_callstate ch' = CCS_HANGUP) \<and> (hung ch \<longrightarrow> hung ch') \<and>
    hangups ch' \<le> hangups ch + (if hung ch then 0 else 1)"
  using run_advances [OF assms] by (auto simp: advances_def hang_credit_def split: if_splits)

text \<open>An environment in which nothing that is called touches the channel, and a new channel.\<close>

definition quiet_env :: channel_env where
  "quiet_env = \<lparr>ce_hook = (\<lambda>e ch. ch), ce_reply = (\<lambda>e ch. SWITCH_STATUS_SUCCESS), ce_variable = (\<lambda>n ch. None),
     ce_partner_uuid = (\<lambda>ch. None), ce_session_locate = (\<lambda>u. False), ce_in_thread = True, ce_session_running = True,
     ce_session_started = True, ce_read_codec = True, ce_write_codec = True, ce_now = int, ce_thread_trylock = True,
     ce_session_trylock = (\<lambda>n. True)\<rparr>"

definition new_channel :: channel where
  "new_channel = \<lparr>ch_direction = SWITCH_CALL_DIRECTION_INBOUND, ch_logical_direction = SWITCH_CALL_DIRECTION_INBOUND,
     ch_state = CS_NEW, ch_running_state = CS_NONE, ch_callstate = CCS_DOWN, ch_flags = (\<lambda>f. 0), ch_caps = (\<lambda>c. 0),
     ch_state_flags = (\<lambda>f. 0), ch_private_flags = 0, ch_hangup_cause = 0, ch_opaque_flags = 0, ch_queued_extension = None,
     ch_hold_record = [], ch_device = None, ch_times = None, ch_originator = False, ch_tick = 0, ch_log = []\<rparr>"

lemma quiet_calls_back: "calls_back quiet_env"
  by (rule idle_calls_back) (simp add: quiet_env_def)

lemma quiet_call [simp]: "call quiet_env e ch = ch\<lparr>ch_log := ch_log ch @ [e]\<rparr>"
  by (simp add: call_def quiet_env_def)

lemma quiet_fields [simp]:
  "ce_variable quiet_env n ch = None" "ce_session_running quiet_env" "ce_thread_trylock quiet_env"
  by (simp_all add: quiet_env_def)

lemma clear_block_state:
  "switch_channel_clear_flag env CF_BLOCK_STATE ch = Inr (ch\<lparr>ch_flags := (ch_flags ch)(CF_BLOCK_STATE := 0)\<rparr>)"
  by (simp add: switch_channel_clear_flag_def mirror_flag_def Let_def CF_BLOCK_STATE_def CF_LEG_HOLDING_def CF_DIALPLAN_def
      CF_ORIGINATOR_def CF_OUTBOUND_def CF_RECOVERED_def)

lemma hangup_twice:
  "run_ops channel_step [(quiet_env, Op_Hangup 17), (quiet_env, Op_Hangup 16), (quiet_env, Op_Set_State CS_REPORTING)] new_channel =
     Inr (new_channel\<lparr>ch_state := CS_REPORTING, ch_hangup_cause := 17, ch_opaque_flags := 1,
       ch_log := [Set_Variable_Partner ''last_bridge_hangup_cause'' ''USER_BUSY'', Fire CHANNEL_HANGUP, Kill_Channel,
         Signal_State_Change, Hangup_State, Signal_State_Change]\<rparr>)"
proof -
  have n: "switch_channel_cause2str 17 = ''USER_BUSY''" by (simp add: switch_channel_cause2str_def CAUSE_CHART_def)
  show ?thesis
    by (simp add: keep_channel_def switch_channel_perform_hangup_def hangup_body_def hold_record_close_def bridge_role_def n
        clear_block_state new_channel_def switch_channel_test_flag_def OCF_HANGUP_def fun_upd_idem
        state_order switch_channel_perform_set_state_def careful_set_def Let_def)
qed

theorem channel_hangup_final_witness:
  "\<exists>ch'. run_ops channel_step [(quiet_env, Op_Hangup 17), (quiet_env, Op_Hangup 16), (quiet_env, Op_Set_State CS_REPORTING)] new_channel =
     Inr ch' \<and> hangups ch' \<le> 1"
  using channel_hangup_final [OF hangup_twice] hangup_twice
  by (auto simp: quiet_calls_back new_channel_def hangups_def hung_def)

text \<open>
  The changes of state that the machine permits, without the table of the code: any from \<open>CS_NEW\<close> and \<open>CS_RESET\<close>; from
  the other states before \<open>CS_HANGUP\<close> to any of the states \<open>CS_ROUTING\<close> to \<open>CS_RESET\<close>, and back to \<open>CS_INIT\<close> from
  \<open>CS_HIBERNATE\<close> only; and forward among the final states.
\<close>

definition permitted_change :: "channel_state \<Rightarrow> channel_state \<Rightarrow> bool" where
  "permitted_change cur s \<longleftrightarrow> cur = CS_NEW \<or> cur = CS_RESET \<or>
     CS_INIT \<le> cur \<and> cur < CS_RESET \<and> (CS_ROUTING \<le> s \<and> s \<le> CS_RESET \<or> cur = CS_HIBERNATE \<and> s = CS_INIT) \<or>
     CS_HANGUP \<le> cur \<and> cur < s"

lemma state_change_ok_permitted:
  "cur \<noteq> CS_NONE \<Longrightarrow> s \<noteq> CS_NONE \<Longrightarrow> s \<noteq> cur \<Longrightarrow> state_change_ok cur s \<longleftrightarrow> permitted_change cur s"
  by (cases cur; cases s) (simp_all add: permitted_change_def state_order)

lemma final_changes: "CS_HANGUP \<le> cur \<Longrightarrow> s \<noteq> cur \<Longrightarrow> \<not> s < cur \<Longrightarrow> permitted_change cur s"
  by (auto simp: permitted_change_def not_less le_less)

lemma state_not_none: "t \<le> CS_DESTROY \<longleftrightarrow> t \<noteq> CS_NONE"
  by (cases t) (simp_all add: state_order)

text \<open>C22. The outcome of \<open>switch_channel_perform_set_state\<close> for every present state and every state asked for. It stops the program
  when either is \<open>CS_NONE\<close>. A request for the present state, or back from a final state, changes nothing. A permitted
  change stores the state asked for, with normal clearing as the cause of a first \<open>CS_HANGUP\<close> without one, and signals the change; every other
  request stops the program, in particular one for \<open>CS_HANGUP\<close> on a channel before it that is not in \<open>CS_NEW\<close> or
  \<open>CS_RESET\<close>. The state returned is the one the channel has after the signal.\<close>

theorem set_state_outcome:
  "switch_channel_perform_set_state env s ch =
     (if s = CS_NONE \<or> ch_state ch = CS_NONE then Inl Assertion_Failed
      else if s = ch_state ch \<or> CS_HANGUP \<le> ch_state ch \<and> s < ch_state ch then Inr (ch_state ch, ch)
      else if permitted_change (ch_state ch) s then
        let w = (if ce_thread_trylock env then ch else careful_wait env 0 100 ch);
            c = call env Signal_State_Change (w\<lparr>ch_state := s, ch_hangup_cause :=
                  (if s = CS_HANGUP \<and> ch_hangup_cause w = 0 then 16 else ch_hangup_cause w)\<rparr>)
        in Inr (ch_state c, c)
      else Inl Assertion_Failed)"
proof (cases "s = CS_NONE \<or> ch_state ch = CS_NONE \<or> s = ch_state ch \<or> CS_HANGUP \<le> ch_state ch \<and> s < ch_state ch")
  case True
  then show ?thesis
    by (cases "s = CS_NONE"; cases "ch_state ch = CS_NONE")
      (auto simp: switch_channel_perform_set_state_def state_not_none assertE_def Let_def)
next
  case False
  then have n: "s \<noteq> CS_NONE" "ch_state ch \<noteq> CS_NONE" "s \<noteq> ch_state ch" and nb: "\<not> (CS_HANGUP \<le> ch_state ch \<and> s < ch_state ch)" by auto
  note ok = state_change_ok_permitted [OF n(2,1,3)]
  have nf: "\<not> CS_HANGUP \<le> ch_state ch" if "\<not> permitted_change (ch_state ch) s"
    using that final_changes [of "ch_state ch" s] n(3) nb by blast
  have keep: "w\<lparr>ch_state := s, ch_hangup_cause := ch_hangup_cause w\<rparr> = w\<lparr>ch_state := s\<rparr>" for w :: channel by simp
  show ?thesis using n nb nf
    by (cases "permitted_change (ch_state ch) s")
      (auto simp: switch_channel_perform_set_state_def state_not_none assertE_def ok Let_def careful_set_def keep
        SWITCH_CAUSE_NORMAL_CLEARING_def)
qed

lemma hangup_takes_effect_aux:
  assumes "hook_ok env" and "ch_state ch < CS_HANGUP" and "\<not> hung ch" and "\<not> flag_on ch CF_LEG_HOLDING"
  shows "\<exists>r ch'. switch_channel_perform_hangup env cause ch = Inr (r, ch') \<and> r = ch_state ch' \<and> hung ch' \<and>
    CS_HANGUP \<le> ch_state ch' \<and> ch_hangup_cause ch' = cause \<and> hangups ch' = hangups ch + 1"
proof -
  define d where "d = ch\<lparr>ch_opaque_flags := ch_opaque_flags ch OR OCF_HANGUP, ch_flags := (ch_flags ch)(CF_BLOCK_STATE := 0)\<rparr>"
  have "switch_channel_perform_hangup env cause ch = Inr (ch_state (hangup_body env cause d), hangup_body env cause d)"
    using assms(2-4) by (simp add: switch_channel_perform_hangup_def hung_def Let_def clear_block_state d_def switch_channel_test_flag_def)
  moreover have "hung d" "ch_state d < CS_HANGUP" "ch_log d = ch_log ch"
    using hung_once [of ch] assms(2) by (simp_all add: d_def hung_def)
  moreover have "hangups (hangup_body env cause d) = hangups ch + 1"
  proof -
    obtain l l' where "ch_log (hangup_body env cause d) = ch_log d @ l @ Fire CHANNEL_HANGUP # l'"
      using hangup_body_spends(6) [OF assms(1) calculation(3,2)] by blast
    then have "hangups ch + 1 \<le> hangups (hangup_body env cause d)" using calculation(4) by (simp add: hangups_def)
    moreover have "hangups (hangup_body env cause d) \<le> hangups ch + 1"
      using hangup_body_spends(2,3) [OF assms(1), of d cause] \<open>hung d\<close> \<open>ch_state d < CS_HANGUP\<close> \<open>ch_log d = ch_log ch\<close>
      by (simp add: hang_credit_def hangups_def)
    ultimately show ?thesis by simp
  qed
  ultimately show ?thesis using hangup_body_spends(2,4,5) [OF assms(1), of d cause] by auto
qed

text \<open>C10. A hangup of a channel that is up, not held and not yet marked returns with the channel marked and in a final
  state, its cause the one given; the event has been fired exactly once more, whatever the code that
  is called in between does to the channel.\<close>

theorem hangup_takes_effect:
  assumes "calls_back env" and "ch_state ch < CS_HANGUP" and "\<not> hung ch" and "\<not> flag_on ch CF_LEG_HOLDING"
  shows "\<exists>r ch'. switch_channel_perform_hangup env cause ch = Inr (r, ch') \<and> r = ch_state ch' \<and> hung ch' \<and>
    CS_HANGUP \<le> ch_state ch' \<and> ch_hangup_cause ch' = cause \<and> hangups ch' = hangups ch + 1"
  using hangup_takes_effect_aux [OF calls_back_hook_ok [OF assms(1)] assms(2-4)] .

theorem hangup_takes_effect_witness:
  "\<exists>r ch'. switch_channel_perform_hangup quiet_env 17 new_channel = Inr (r, ch') \<and> ch_hangup_cause ch' = 17 \<and> hangups ch' = 1"
  using hangup_takes_effect [OF quiet_calls_back, of new_channel 17]
  by (auto simp: new_channel_def hung_def switch_channel_test_flag_def state_order hangups_def)

text \<open>An environment whose calls leave the channel alone.\<close>

definition hook_idle :: "channel_env \<Rightarrow> bool" where
  "hook_idle env \<longleftrightarrow> (\<forall>e ch. ce_hook env e ch = ch)"

lemma idle_call: "hook_idle env \<Longrightarrow> call env e ch = ch\<lparr>ch_log := ch_log ch @ [e]\<rparr>"
  by (simp add: hook_idle_def call_def)

lemma idle_hook_ok: "hook_idle env \<Longrightarrow> hook_ok env"
  by (simp add: hook_idle_def hook_ok_def)

lemma set_plain_flag:
  "f \<notin> {CF_LEG_HOLDING, CF_ORIGINATOR, CF_DIALPLAN, CF_OUTBOUND, CF_RECOVERED} \<Longrightarrow>
   switch_channel_set_flag env f ch = Inr (ch\<lparr>ch_flags := (ch_flags ch)(f := 1)\<rparr>)"
  by (simp add: switch_channel_set_flag_def switch_channel_set_flag_value_def mirror_flag_def Let_def)

lemma plain_flags:
  "CF_ANSWERED \<notin> {CF_LEG_HOLDING, CF_ORIGINATOR, CF_DIALPLAN, CF_OUTBOUND, CF_RECOVERED}"
  "CF_PASSTHRU_PTIME_MISMATCH \<notin> {CF_LEG_HOLDING, CF_ORIGINATOR, CF_DIALPLAN, CF_OUTBOUND, CF_RECOVERED}"
  "CF_PASSTHRU_PTIME_MISMATCH \<noteq> CF_ANSWERED"
  by (simp_all add: CF_ANSWERED_def CF_LEG_HOLDING_def CF_ORIGINATOR_def CF_DIALPLAN_def CF_OUTBOUND_def CF_RECOVERED_def
      CF_PASSTHRU_PTIME_MISMATCH_def)

text \<open>What the steps of an answer keep: the answered flag, the state, and the number of answer events but for the one.\<close>

definition answered_events :: "channel \<Rightarrow> nat" where
  "answered_events ch = count_list (ch_log ch) (Fire CHANNEL_ANSWER)"

definition answer_keeps :: "channel \<Rightarrow> channel \<Rightarrow> bool" where
  "answer_keeps a b \<longleftrightarrow> ch_flags b CF_ANSWERED = ch_flags a CF_ANSWERED \<and> answered_events b = answered_events a \<and>
     ch_state b = ch_state a \<and> ch_hangup_cause b = ch_hangup_cause a \<and> ch_callstate b = ch_callstate a"

lemma answer_keeps_trans: "answer_keeps a b \<Longrightarrow> answer_keeps b c \<Longrightarrow> answer_keeps a c"
  by (simp add: answer_keeps_def)

lemma answer_keeps_steps:
  assumes "hook_idle env"
  shows "e \<noteq> Fire CHANNEL_ANSWER \<Longrightarrow> answer_keeps ch (call env e ch)"
    and "answer_keeps ch (break_originator env ch)" and "answer_keeps ch (enable_heartbeat env ch)"
    and "answer_keeps ch (set_variable env n v ch)" and "answer_keeps ch (note_answered env ch)"
    and "answer_keeps ch (switch_channel_perform_audio_sync env ch)" and "answer_keeps ch (answer_delay env ch)"
  using assms
  by (auto simp: answer_keeps_def answered_events_def idle_call break_originator_def enable_heartbeat_def set_variable_def
      note_answered_def time_now_def switch_channel_perform_audio_sync_def answer_delay_def split: option.split)

lemma ptime_keeps: "\<exists>c. ptime_mismatch env b = Inr c \<and> answer_keeps b c"
  using plain_flags(3) by (auto simp: ptime_mismatch_def set_plain_flag [OF plain_flags(2)] answer_keeps_def answered_events_def)

lemma idle_set_callstate:
  assumes "hook_idle env" and "ch_callstate b \<noteq> CCS_HANGUP"
  shows "ch_callstate (switch_channel_set_callstate env cs b) = cs"
    and "ch_flags (switch_channel_set_callstate env cs b) = ch_flags b"
    and "ch_state (switch_channel_set_callstate env cs b) = ch_state b"
    and "answered_events (switch_channel_set_callstate env cs b) = answered_events b"
  using assms by (auto simp: switch_channel_set_callstate_def idle_call Let_def answered_events_def)

lemma mark_answered_idle:
  assumes idle: "hook_idle env" and up: "ch_hangup_cause b = 0" "ch_state b < CS_HANGUP" "\<not> flag_on b CF_ANSWERED" "ch_callstate b \<noteq> CCS_HANGUP"
  shows "\<exists>c. switch_channel_perform_mark_answered env b = Inr (SWITCH_STATUS_SUCCESS, c) \<and> flag_on c CF_ANSWERED \<and>
    ch_callstate c = CCS_ACTIVE \<and> ch_state c = ch_state b \<and> answered_events c = answered_events b + 1"
proof -
  note keep = answer_keeps_steps [OF idle]
  define b1 where "b1 = call env Check_Zrtp (note_answered env b)"
  define b2 where "b2 = call env (Fire CHANNEL_ANSWER) (b1\<lparr>ch_flags := (ch_flags b1)(CF_ANSWERED := 1)\<rparr>)"
  define b3 where "b3 = break_originator env b2"
  obtain b4 where b4: "ptime_mismatch env b3 = Inr b4" "answer_keeps b3 b4" using ptime_keeps by blast
  define b5 where "b5 = call env (Execute_On ''execute_on_answer'') (set_variable env ''endpoint_disposition'' (Some ''ANSWER'') (enable_heartbeat env b4))"
  define b6 where "b6 = (if \<not> flag_on b5 CF_EARLY_MEDIA
    then call env (Api_On ''api_on_media'') (call env (Execute_On ''execute_on_media'') b5) else b5)"
  define b7 where "b7 = call env Recovery_Track (call env Presence (call env (Api_On ''api_on_answer'') b6))"
  have eq: "switch_channel_perform_mark_answered env b =
      Inr (SWITCH_STATUS_SUCCESS, send_ind env ANSWER_EVENT (switch_channel_set_callstate env CCS_ACTIVE b7))"
    unfolding switch_channel_perform_mark_answered_def Let_def b7_def b6_def b5_def
    using up b4(1) by (simp add: set_plain_flag [OF plain_flags(1)] b1_def [symmetric] b2_def [symmetric] b3_def [symmetric] not_le)
  have k1: "answer_keeps b b1" unfolding b1_def using keep(1,5) by (blast intro: answer_keeps_trans)
  have k3: "answer_keeps b2 b3" unfolding b3_def by (rule keep)
  have k5: "answer_keeps b4 b5" unfolding b5_def using keep(1,3,4) by (blast intro: answer_keeps_trans)
  have k6: "answer_keeps b5 b6" unfolding b6_def using keep(1) by (auto simp: answer_keeps_def)
  have k7: "answer_keeps b6 b7" unfolding b7_def using keep(1) by (simp add: answer_keeps_def)
  have b2: "ch_flags b2 CF_ANSWERED = 1" "answered_events b2 = answered_events b + 1" "ch_state b2 = ch_state b" "ch_callstate b2 = ch_callstate b"
    using k1 by (simp_all add: b2_def idle_call [OF idle] answer_keeps_def answered_events_def)
  have "answer_keeps b2 b7" using k3 b4(2) k5 k6 k7 by (blast intro: answer_keeps_trans)
  then have b7: "ch_flags b7 CF_ANSWERED = 1" "answered_events b7 = answered_events b + 1" "ch_state b7 = ch_state b" "ch_callstate b7 \<noteq> CCS_HANGUP"
    using b2 up(4) by (simp_all add: answer_keeps_def)
  show ?thesis unfolding eq using idle_set_callstate [OF idle b7(4), of CCS_ACTIVE] b7
    by (simp add: send_ind_def idle_call [OF idle] switch_channel_test_flag_def answered_events_def)
qed

lemma answer_untouched:
  assumes "ch_direction ch = SWITCH_CALL_DIRECTION_OUTBOUND \<or> (ch_hangup_cause ch \<noteq> 0 \<or> CS_HANGUP \<le> ch_state ch) \<or> flag_on ch CF_ANSWERED"
  shows "switch_channel_perform_answer env ch =
     Inr (if ch_direction ch \<noteq> SWITCH_CALL_DIRECTION_OUTBOUND \<and> (ch_hangup_cause ch \<noteq> 0 \<or> CS_HANGUP \<le> ch_state ch)
          then SWITCH_STATUS_FALSE else SWITCH_STATUS_SUCCESS, ch)"
  using assms by (auto simp: switch_channel_perform_answer_def)

lemma answer_idle:
  assumes "hook_idle env" and "ch_callstate ch \<noteq> CCS_HANGUP" and "\<not> hung ch" and "\<not> flag_on ch CF_LEG_HOLDING"
    and up: "\<not> (ch_direction ch = SWITCH_CALL_DIRECTION_OUTBOUND \<or> (ch_hangup_cause ch \<noteq> 0 \<or> CS_HANGUP \<le> ch_state ch) \<or> flag_on ch CF_ANSWERED)"
  shows "\<exists>ch'. switch_channel_perform_answer env ch = Inr (ce_reply env (Message INDICATE_ANSWER) ch, ch') \<and>
       (if ce_reply env (Message INDICATE_ANSWER) ch = SWITCH_STATUS_SUCCESS
        then flag_on ch' CF_ANSWERED \<and> ch_callstate ch' = CCS_ACTIVE \<and> ch_state ch' = ch_state ch \<and> answered_events ch' = answered_events ch + 1
        else CS_HANGUP \<le> ch_state ch' \<and> ch_hangup_cause ch' = SWITCH_CAUSE_INCOMPATIBLE_DESTINATION)"
proof -
  define b where "b = call env (Message INDICATE_ANSWER) ch"
  have b: "b = ch\<lparr>ch_log := ch_log ch @ [Message INDICATE_ANSWER]\<rparr>" by (simp add: b_def idle_call [OF assms(1)])
  have ub: "ch_hangup_cause b = 0" "ch_state b < CS_HANGUP" "\<not> flag_on b CF_ANSWERED" "ch_callstate b \<noteq> CCS_HANGUP" "\<not> hung b"
    "\<not> flag_on b CF_LEG_HOLDING" "answered_events b = answered_events ch" "ch_state b = ch_state ch"
    using up assms(2-4) by (auto simp: b switch_channel_test_flag_def hung_def answered_events_def not_le)
  show ?thesis
  proof (cases "ce_reply env (Message INDICATE_ANSWER) ch = SWITCH_STATUS_SUCCESS")
    case True
    obtain c where c: "switch_channel_perform_mark_answered env b = Inr (SWITCH_STATUS_SUCCESS, c)" "flag_on c CF_ANSWERED"
        "ch_callstate c = CCS_ACTIVE" "ch_state c = ch_state b" "answered_events c = answered_events b + 1"
      using mark_answered_idle [OF assms(1) ub(1-4)] by blast
    define d where "d = (if \<not> flag_on c CF_EARLY_MEDIA then switch_channel_perform_audio_sync env c else c)"
    have "answer_keeps c (answer_delay env d)"
      using answer_keeps_steps(6,7) [OF assms(1)] by (auto simp: d_def intro: answer_keeps_trans)
    moreover have "switch_channel_perform_answer env ch = Inr (SWITCH_STATUS_SUCCESS, answer_delay env d)"
      using up True c(1) unfolding switch_channel_perform_answer_def ask_def b_def [symmetric]
      by (auto simp: d_def not_le call_direction.exhaust)
    ultimately show ?thesis using True c ub(7,8) by (simp add: answer_keeps_def switch_channel_test_flag_def)
  next
    case refused: False
    obtain r c where c: "switch_channel_perform_hangup env SWITCH_CAUSE_INCOMPATIBLE_DESTINATION b = Inr (r, c)"
        "CS_HANGUP \<le> ch_state c" "ch_hangup_cause c = SWITCH_CAUSE_INCOMPATIBLE_DESTINATION"
      using hangup_takes_effect_aux [OF idle_hook_ok [OF assms(1)] ub(2,5,6)] by blast
    moreover have "switch_channel_perform_answer env ch = Inr (ce_reply env (Message INDICATE_ANSWER) ch, answer_delay env c)"
      using up refused c(1) unfolding switch_channel_perform_answer_def ask_def b_def [symmetric]
      by (auto simp: not_le call_direction.exhaust)
    ultimately show ?thesis using refused answer_keeps_steps(7) [OF assms(1), of c] by (simp add: answer_keeps_def)
  qed
qed

text \<open>C11. Answering a channel that is outbound, that has a hangup cause or is in a final state, or that is answered already changes nothing,
  whatever the environment: the result is success, but false for an inbound channel that is down. On any other channel, if it is neither marked as
  hung up nor held, its call state is not \<open>CCS_HANGUP\<close>, and the code called does not itself operate on the channel: when the endpoint accepts, the channel is
  answered, its call state is active, its state is unchanged and one answer event has been fired; when the endpoint refuses,
  the channel is hung up as an incompatible destination.\<close>

theorem answer_outcome:
  defines "down \<equiv> \<lambda>ch. ch_hangup_cause ch \<noteq> 0 \<or> CS_HANGUP \<le> ch_state ch"
  defines "untouched \<equiv> \<lambda>ch. ch_direction ch = SWITCH_CALL_DIRECTION_OUTBOUND \<or> down ch \<or> flag_on ch CF_ANSWERED"
  shows "(untouched ch \<longrightarrow> switch_channel_perform_answer env ch =
       Inr (if ch_direction ch \<noteq> SWITCH_CALL_DIRECTION_OUTBOUND \<and> down ch then SWITCH_STATUS_FALSE else SWITCH_STATUS_SUCCESS, ch)) \<and>
    (\<not> untouched ch \<and> hook_idle env \<and> ch_callstate ch \<noteq> CCS_HANGUP \<and> \<not> hung ch \<and> \<not> flag_on ch CF_LEG_HOLDING \<longrightarrow>
      (\<exists>ch'. switch_channel_perform_answer env ch = Inr (ce_reply env (Message INDICATE_ANSWER) ch, ch') \<and>
       (if ce_reply env (Message INDICATE_ANSWER) ch = SWITCH_STATUS_SUCCESS
        then flag_on ch' CF_ANSWERED \<and> ch_callstate ch' = CCS_ACTIVE \<and> ch_state ch' = ch_state ch \<and> answered_events ch' = answered_events ch + 1
        else CS_HANGUP \<le> ch_state ch' \<and> ch_hangup_cause ch' = SWITCH_CAUSE_INCOMPATIBLE_DESTINATION)))"
  using answer_untouched [of ch env] answer_idle [of env ch] unfolding untouched_def down_def by blast

theorem answer_outcome_witness:
  "\<exists>ch'. switch_channel_perform_answer quiet_env (new_channel\<lparr>ch_state := CS_EXECUTE\<rparr>) = Inr (SWITCH_STATUS_SUCCESS, ch') \<and>
     flag_on ch' CF_ANSWERED \<and> ch_callstate ch' = CCS_ACTIVE \<and> ch_state ch' = CS_EXECUTE"
proof -
  have "hook_idle quiet_env" "ce_reply quiet_env (Message INDICATE_ANSWER) (new_channel\<lparr>ch_state := CS_EXECUTE\<rparr>) = SWITCH_STATUS_SUCCESS"
    by (simp_all add: hook_idle_def quiet_env_def)
  then show ?thesis
    using answer_outcome [of "new_channel\<lparr>ch_state := CS_EXECUTE\<rparr>" quiet_env]
    by (auto simp: new_channel_def hung_def switch_channel_test_flag_def state_order)
qed

lemma init_advances:
  assumes "switch_channel_init env state flag ch = Inr ch'" and "hook_ok env"
  shows "advances (ch\<lparr>ch_state := state\<rparr>) ch'"
  using assms advances_set_flag [OF _ advances_refl]
  by (auto simp: switch_channel_init_def bindE_eq_Inr intro!: adv)

text \<open>C23. The state of a channel that is initialised with one of the thirteen states of the machine stays one of them: no sequence of operations, and
  nothing the code they call does through these operations, makes it \<open>CS_NONE\<close>, so the assertion of \<open>switch_channel_perform_set_state\<close> on the present state
  never fails. The initialisation itself stores the state it is given without a check.\<close>

theorem channel_state_typed:
  assumes "switch_channel_init env0 state flag ch0 = Inr ch" and "calls_back env0" and "state \<le> CS_DESTROY"
    and "run_ops channel_step xs ch = Inr ch'" and "list_all (\<lambda>x. calls_back (fst x)) xs"
  shows "ch_state ch' \<le> CS_DESTROY"
proof -
  have "ch_state ch \<noteq> CS_NONE"
    using init_advances [OF assms(1) calls_back_hook_ok [OF assms(2)]] assms(3) unfolding state_not_none by (simp add: advances_def)
  then show ?thesis using run_advances [OF assms(4,5)] unfolding state_not_none by (simp add: advances_def)
qed

theorem channel_state_typed_witness:
  "\<exists>ch ch'. switch_channel_init quiet_env CS_NEW CF_BLOCK_STATE new_channel = Inr ch \<and>
     run_ops channel_step [(quiet_env, Op_Set_State CS_INIT), (quiet_env, Op_Set_State CS_ROUTING), (quiet_env, Op_Hangup 17)] ch = Inr ch' \<and>
     ch_state ch' \<le> CS_DESTROY"
proof -
  define ch where "ch = new_channel\<lparr>ch_flags := (ch_flags new_channel)(CF_BLOCK_STATE := 1)\<rparr>"
  have "CF_BLOCK_STATE \<notin> {CF_LEG_HOLDING, CF_ORIGINATOR, CF_DIALPLAN, CF_OUTBOUND, CF_RECOVERED}"
    by (simp add: CF_BLOCK_STATE_def CF_LEG_HOLDING_def CF_ORIGINATOR_def CF_DIALPLAN_def CF_OUTBOUND_def CF_RECOVERED_def)
  then have i: "switch_channel_init quiet_env CS_NEW CF_BLOCK_STATE new_channel = Inr ch"
    by (simp add: switch_channel_init_def set_plain_flag ch_def new_channel_def)
  have nh: "CF_LEG_HOLDING \<noteq> CF_BLOCK_STATE" by (simp add: CF_LEG_HOLDING_def CF_BLOCK_STATE_def)
  have "\<exists>ch'. run_ops channel_step [(quiet_env, Op_Set_State CS_INIT), (quiet_env, Op_Set_State CS_ROUTING), (quiet_env, Op_Hangup 17)] ch = Inr ch'"
    using nh by (simp add: keep_channel_def switch_channel_perform_set_state_def state_order careful_set_def Let_def
        switch_channel_perform_hangup_def clear_block_state ch_def new_channel_def switch_channel_test_flag_def OCF_HANGUP_def)
  then obtain ch' where r: "run_ops channel_step [(quiet_env, Op_Set_State CS_INIT), (quiet_env, Op_Set_State CS_ROUTING), (quiet_env, Op_Hangup 17)] ch = Inr ch'" ..
  show ?thesis using i r channel_state_typed [OF i quiet_calls_back _ r] by (auto simp: quiet_calls_back state_order)
qed

end
