(* ===== verification/FS_Event.thy ===== *)
theory FS_Event
  imports FS_Split FS_CoreHash
begin

text \<open>
  Events, \<^verbatim>\<open>src/src/lib/libfreeswitch/switch_event.c\<close>: the names of the event types, the header list of an event
  with its arrays, and the operations that read, add, replace, rename and remove headers, copy an event
  and print it. An event is a record of the fields these operations use; the linked list of headers is a
  list (\<open>last_header\<close> always points to its last node), and a pointer to a header is its position. Strings
  have no NUL characters; allocation does not fail, as the code asserts.
\<close>

section \<open>Event types\<close>

definition SWITCH_EVENT_CUSTOM :: nat where "SWITCH_EVENT_CUSTOM = 0"
definition SWITCH_EVENT_CLONE :: nat where "SWITCH_EVENT_CLONE = 1"
definition SWITCH_EVENT_MESSAGE :: nat where "SWITCH_EVENT_MESSAGE = 37"
definition SWITCH_EVENT_REQUEST_PARAMS :: nat where "SWITCH_EVENT_REQUEST_PARAMS = 60"
definition SWITCH_EVENT_CHANNEL_DATA :: nat where "SWITCH_EVENT_CHANNEL_DATA = 61"
definition SWITCH_EVENT_ALL :: nat where "SWITCH_EVENT_ALL = 87"

definition EVENT_NAMES :: "string list" where
  "EVENT_NAMES =
    [''CUSTOM'', ''CLONE'', ''CHANNEL_CREATE'', ''CHANNEL_DESTROY'', ''CHANNEL_STATE'', ''CHANNEL_CALLSTATE'', ''CHANNEL_ANSWER'',
     ''CHANNEL_HANGUP'', ''CHANNEL_HANGUP_COMPLETE'', ''CHANNEL_EXECUTE'', ''CHANNEL_EXECUTE_COMPLETE'', ''CHANNEL_HOLD'',
     ''CHANNEL_UNHOLD'', ''CHANNEL_BRIDGE'', ''CHANNEL_UNBRIDGE'', ''CHANNEL_PROGRESS'', ''CHANNEL_PROGRESS_MEDIA'',
     ''CHANNEL_OUTGOING'', ''CHANNEL_PARK'', ''CHANNEL_UNPARK'', ''CHANNEL_APPLICATION'', ''CHANNEL_ORIGINATE'', ''CHANNEL_UUID'',
     ''API'', ''LOG'', ''INBOUND_CHAN'', ''OUTBOUND_CHAN'', ''STARTUP'', ''SHUTDOWN'', ''PUBLISH'', ''UNPUBLISH'', ''TALK'',
     ''NOTALK'', ''SESSION_CRASH'', ''MODULE_LOAD'', ''MODULE_UNLOAD'', ''DTMF'', ''MESSAGE'', ''PRESENCE_IN'', ''NOTIFY_IN'',
     ''PRESENCE_OUT'', ''PRESENCE_PROBE'', ''MESSAGE_WAITING'', ''MESSAGE_QUERY'', ''ROSTER'', ''CODEC'', ''BACKGROUND_JOB'',
     ''DETECTED_SPEECH'', ''DETECTED_TONE'', ''PRIVATE_COMMAND'', ''HEARTBEAT'', ''TRAP'', ''ADD_SCHEDULE'', ''DEL_SCHEDULE'',
     ''EXE_SCHEDULE'', ''RE_SCHEDULE'', ''RELOADXML'', ''NOTIFY'', ''SEND_MESSAGE'', ''RECV_MESSAGE'', ''REQUEST_PARAMS'',
     ''CHANNEL_DATA'', ''GENERAL'', ''COMMAND'', ''SESSION_HEARTBEAT'', ''CLIENT_DISCONNECTED'', ''SERVER_DISCONNECTED'',
     ''SEND_INFO'', ''RECV_INFO'', ''RECV_RTCP_MESSAGE'', ''CALL_SECURE'', ''NAT'', ''RECORD_START'', ''RECORD_STOP'',
     ''PLAYBACK_START'', ''PLAYBACK_STOP'', ''CALL_UPDATE'', ''FAILURE'', ''SOCKET_DATA'', ''MEDIA_BUG_START'', ''MEDIA_BUG_STOP'',
     ''CONFERENCE_DATA_QUERY'', ''CONFERENCE_DATA'', ''CALL_SETUP_REQ'', ''CALL_SETUP_RESULT'', ''CALL_DETAIL'', ''DEVICE_STATE'',
     ''ALL'']"

definition switch_event_name :: "nat \<Rightarrow> string c" where
  "switch_event_name event = (if event \<le> SWITCH_EVENT_ALL then Inr (EVENT_NAMES ! event) else Inl Out_Of_Bounds)"

text \<open>A name may carry any 13 characters in front, the length of \<open>SWITCH_EVENT_\<close>.\<close>

definition event_name_is :: "string \<Rightarrow> string \<Rightarrow> bool" where
  "event_name_is name n \<longleftrightarrow> 13 < length name \<and> strcasecmp_eq (drop 13 name) n \<or> strcasecmp_eq name n"

definition switch_name_event :: "string \<Rightarrow> nat option" where
  "switch_name_event name = find (\<lambda>x. event_name_is name (EVENT_NAMES ! x)) [0..<Suc SWITCH_EVENT_ALL]"

section \<open>Events and their headers\<close>

definition SWITCH_STACK_BOTTOM :: u32 where "SWITCH_STACK_BOTTOM = 1"
definition SWITCH_STACK_TOP :: u32 where "SWITCH_STACK_TOP = 2"
definition SWITCH_STACK_NODUP :: u32 where "SWITCH_STACK_NODUP = 4"
definition SWITCH_STACK_UNSHIFT :: u32 where "SWITCH_STACK_UNSHIFT = 8"
definition SWITCH_STACK_PUSH :: u32 where "SWITCH_STACK_PUSH = 16"

definition EF_UNIQ_HEADERS :: u32 where "EF_UNIQ_HEADERS = 1"
definition EF_NO_CHAT_EXEC :: u32 where "EF_NO_CHAT_EXEC = 2"
definition EF_DEFAULT_ALLOW :: u32 where "EF_DEFAULT_ALLOW = 4"

record event_header =
  h_name :: string
  h_value :: "string option"
  h_array :: "string list"
  h_hash :: u32

record event =
  ev_event_id :: nat
  ev_priority :: nat
  ev_owner :: "string option"
  ev_subclass_name :: "string option"
  ev_headers :: "event_header list"
  ev_body :: "string option"
  ev_bind_user_data :: "nat option"
  ev_event_user_data :: "nat option"
  ev_key :: nat
  ev_flags :: u32

definition header_is :: "string \<Rightarrow> event_header \<Rightarrow> bool" where
  "header_is name hp \<longleftrightarrow>
     (h_hash hp = 0 \<or> switch_ci_hashfunc_default name = h_hash hp) \<and> strcasecmp_eq (h_name hp) name"

fun rename_walk :: "string \<Rightarrow> string \<Rightarrow> event_header list \<Rightarrow> nat \<times> event_header list" where
  "rename_walk name new [] = (0, [])"
| "rename_walk name new (hp # hps) =
     (case rename_walk name new hps of (x, hps') \<Rightarrow>
        if header_is name hp then (Suc x, hp\<lparr>h_name := new, h_hash := switch_ci_hashfunc_default new\<rparr> # hps')
        else (x, hp # hps'))"

definition switch_event_rename_header :: "event \<Rightarrow> string option \<Rightarrow> string \<Rightarrow> switch_status_t \<times> event" where
  "switch_event_rename_header ev header_name new_header_name =
     (case header_name of
        None \<Rightarrow> (SWITCH_STATUS_FALSE, ev)
      | Some name \<Rightarrow>
          (case rename_walk name new_header_name (ev_headers ev) of (x, hps) \<Rightarrow>
             (if x \<noteq> 0 then SWITCH_STATUS_SUCCESS else SWITCH_STATUS_FALSE, ev\<lparr>ev_headers := hps\<rparr>)))"

fun header_position :: "string \<Rightarrow> event_header list \<Rightarrow> nat option" where
  "header_position name [] = None"
| "header_position name (hp # hps) = (if header_is name hp then Some 0 else map_option Suc (header_position name hps))"

definition switch_event_get_header_ptr :: "event \<Rightarrow> string option \<Rightarrow> nat option" where
  "switch_event_get_header_ptr ev header_name =
     (case header_name of None \<Rightarrow> None | Some name \<Rightarrow> header_position name (ev_headers ev))"

definition switch_event_get_header_idx :: "event \<Rightarrow> string \<Rightarrow> int \<Rightarrow> string option" where
  "switch_event_get_header_idx ev header_name idx =
     (case switch_event_get_header_ptr ev (Some header_name) of
        Some i \<Rightarrow>
          let hp = ev_headers ev ! i in
          if idx > -1 then (if idx < int (length (h_array hp)) then Some (h_array hp ! nat idx) else None)
          else h_value hp
      | None \<Rightarrow> if header_name = ''_body'' then ev_body ev else None)"

definition switch_event_get_header :: "event \<Rightarrow> string \<Rightarrow> string option" where
  "switch_event_get_header ev header_name = switch_event_get_header_idx ev header_name (-1)"

definition switch_event_get_body :: "event option \<Rightarrow> string option" where
  "switch_event_get_body ev = (case ev of None \<Rightarrow> None | Some ev \<Rightarrow> ev_body ev)"

text \<open>
  \<open>del_walk\<close> carries the number of headers seen; comparing the value of a header that has none would
  dereference NULL.
\<close>

fun del_walk :: "nat \<Rightarrow> string \<Rightarrow> string option \<Rightarrow> event_header list \<Rightarrow> (bool \<times> event_header list) c" where
  "del_walk x name val [] = Inr (False, [])"
| "del_walk x name val (hp # hps) =
     bindE (assertE (Suc x < 1000000)) (\<lambda>_.
     bindE (if header_is name hp then
              (case val of
                 None \<Rightarrow> Inr True
               | Some v \<Rightarrow> if v = [] then Inr True
                           else (case h_value hp of None \<Rightarrow> Inl Null_Deref | Some w \<Rightarrow> Inr (w = v)))
            else Inr False) (\<lambda>gone.
     bindE (del_walk (Suc x) name val hps) (\<lambda>(found, hps').
       Inr (if gone then (True, hps') else (found, hp # hps')))))"

definition switch_event_del_header_val :: "event \<Rightarrow> string \<Rightarrow> string option \<Rightarrow> (switch_status_t \<times> event) c" where
  "switch_event_del_header_val ev header_name val =
     bindE (del_walk 0 header_name val (ev_headers ev)) (\<lambda>(found, hps).
       Inr (if found then SWITCH_STATUS_SUCCESS else SWITCH_STATUS_FALSE, ev\<lparr>ev_headers := hps\<rparr>))"

definition switch_event_del_header :: "event \<Rightarrow> string \<Rightarrow> event c" where
  "switch_event_del_header ev header_name =
     bindE (switch_event_del_header_val ev header_name None) (\<lambda>(_, ev). Inr ev)"

definition new_header :: "string \<Rightarrow> event_header" where
  "new_header header_name = \<lparr>h_name = header_name, h_value = None, h_array = [], h_hash = 0\<rparr>"

definition switch_event_set_body :: "event \<Rightarrow> string option \<Rightarrow> event" where
  "switch_event_set_body ev body = ev\<lparr>ev_body := body\<rparr>"

section \<open>Adding headers\<close>

text \<open>The value of a header with an array is drawn from the array.\<close>

fun join_bars :: "string list \<Rightarrow> string" where
  "join_bars [] = []"
| "join_bars [x] = x"
| "join_bars (x # y # xs) = x @ ''|:'' @ join_bars (y # xs)"

definition redraw :: "event_header \<Rightarrow> event_header" where
  "redraw hp =
     (if h_array hp = [] then hp
      else hp\<lparr>h_value := Some ((if 1 < length (h_array hp) then ''ARRAY::'' else []) @ join_bars (h_array hp))\<rparr>)"

definition stack_on :: "u32 \<Rightarrow> u32 \<Rightarrow> bool" where
  "stack_on stack flag \<longleftrightarrow> stack AND flag \<noteq> 0"

definition push_value :: "u32 \<Rightarrow> string \<Rightarrow> event_header \<Rightarrow> event_header" where
  "push_value stack data hp =
     (let hp = (case h_value hp of
                  None \<Rightarrow> hp
                | Some v \<Rightarrow> if h_array hp = [] then hp\<lparr>h_array := [v], h_value := None\<rparr> else hp);
          hp = hp\<lparr>h_array := (if stack_on stack SWITCH_STACK_PUSH then h_array hp @ [data] else data # h_array hp)\<rparr>
      in redraw hp)"

definition set_index :: "nat \<Rightarrow> string \<Rightarrow> event_header \<Rightarrow> event_header" where
  "set_index index data hp =
     (if index < length (h_array hp) then hp\<lparr>h_array := (h_array hp)[index := data]\<rparr>
      else redraw (hp\<lparr>h_array := h_array hp @ replicate (index - length (h_array hp)) [] @ [data]\<rparr>))"

definition link_header :: "u32 \<Rightarrow> event_header \<Rightarrow> event \<Rightarrow> event" where
  "link_header stack hp ev =
     (let hp = hp\<lparr>h_hash := switch_ci_hashfunc_default (h_name hp)\<rparr>
      in ev\<lparr>ev_headers := (if stack_on stack SWITCH_STACK_TOP then hp # ev_headers ev else ev_headers ev @ [hp])\<rparr>)"

definition update_header :: "nat \<Rightarrow> (event_header \<Rightarrow> event_header) \<Rightarrow> event \<Rightarrow> event" where
  "update_header i f ev = ev\<lparr>ev_headers := (ev_headers ev)[i := f (ev_headers ev ! i)]\<rparr>"

lemma strstr_SomeD: "strstr s t = Some q \<Longrightarrow> \<exists>p. s = p @ q \<and> take (length t) q = t"
proof (induction s t rule: strstr.induct)
  case (1 s t)
  show ?case
  proof (cases "take (length t) s = t")
    case True
    then show ?thesis using 1(2) by (simp add: strstr.simps [of s t])
  next
    case False
    then obtain c s' where s: "s = c # s'" "strstr s' t = Some q"
      using 1(2) by (subst (asm) strstr.simps) (auto split: list.splits)
    then obtain p where "s' = p @ q" "take (length t) q = t" using 1(1) [OF False s(1)] by blast
    then show ?thesis using s(1) by (intro exI [of _ "c # p"]) simp
  qed
qed

lemma strstr_bars: "strstr p ''|:'' = Some q \<Longrightarrow> length (drop 2 q) + 2 \<le> length p"
proof -
  assume "strstr p ''|:'' = Some q"
  then obtain r where r: "p = r @ q" "take (length ''|:'') q = ''|:''" using strstr_SomeD by blast
  have "2 \<le> length q" using arg_cong [OF r(2), of length] by simp
  then show ?thesis using r(1) by simp
qed

function count_bars :: "string \<Rightarrow> nat" where
  "count_bars p = (case strstr p ''|:'' of None \<Rightarrow> 0 | Some q \<Rightarrow> Suc (count_bars (drop 2 q)))"
  by pat_completeness auto
termination
  by (relation "measure length") (use strstr_bars in \<open>force+\<close>)

declare count_bars.simps [simp del]

lemma parts_shorter:
  "sum_list (map (\<lambda>x. length x + 2) (separate_string_string_loop ''|:'' n cur)) \<le> length cur + 2"
proof (induction n arbitrary: cur)
  case (Suc n)
  show ?case
  proof (cases "strstr cur ''|:''")
    case (Some q)
    then obtain r where "cur = r @ q" using strstr_SomeD by blast
    moreover have "2 \<le> length q" using strstr_SomeD [OF Some] by (metis length_Cons length_take list.size(3) min.cobounded1 numeral_2_eq_2)
    ultimately show ?thesis using Some Suc [of "drop 2 q"] by (simp add: numeral_2_eq_2)
  qed simp
qed simp

text \<open>
  \<open>switch_event_base_add_header\<close> and \<open>switch_event_add_array\<close> call each other: an element of an array may itself
  be written as an array. The elements are shorter than the text they are parts of. A header name may
  end in an index in brackets.
\<close>

function (sequential) switch_event_base_add_header :: "u32 \<Rightarrow> string \<Rightarrow> string \<Rightarrow> event \<Rightarrow> event c"
  and add_elements :: "string \<Rightarrow> string list \<Rightarrow> event \<Rightarrow> event c" where
  "switch_event_base_add_header stack header_name data ev =
     (let ev = (if header_name = ''_body'' then switch_event_set_body ev (Some data) else ev);
          indexed = CHR ''['' \<in> set header_name;
          index = atoi (tl (dropWhile (\<lambda>x. x \<noteq> CHR ''['') header_name));
          name = takeWhile (\<lambda>x. x \<noteq> CHR ''['') header_name;
          multi = stack_on stack SWITCH_STACK_PUSH \<or> stack_on stack SWITCH_STACK_UNSHIFT;
          uniq = (ev_flags ev AND EF_UNIQ_HEADERS \<noteq> 0)
      in bindE (if indexed \<and> switch_event_get_header_ptr ev (Some name) = None \<and> uniq
                then switch_event_del_header ev name else Inr ev) (\<lambda>ev.
         case (if indexed \<or> multi then switch_event_get_header_ptr ev (Some name) else None) of
           Some i \<Rightarrow>
             if indexed then
               Inr (if index > -1 \<and> index \<le> 4000 then update_header i (set_index (nat index) data) ev else ev)
             else Inr (update_header i (push_value stack data) ev)
         | None \<Rightarrow>
             if data = [] then switch_event_del_header ev name
             else
               bindE (if uniq then switch_event_del_header ev name else Inr ev) (\<lambda>ev.
                 if strstr data ''ARRAY::'' \<noteq> None then
                   (if length data < 8 then Inr ev
                    else
                      (case switch_separate_string_string (drop 7 data) ''|:'' (1 + count_bars (drop 7 data)) of
                         Inl f \<Rightarrow> Inl f
                       | Inr array \<Rightarrow> add_elements name array ev))
                 else
                   let hp = new_header name;
                       hp = (if multi then push_value stack data hp else hp\<lparr>h_value := Some data\<rparr>)
                   in Inr (link_header stack hp ev))))"
| "add_elements var [] ev = Inr ev"
| "add_elements var (x # xs) ev =
     bindE (switch_event_base_add_header SWITCH_STACK_PUSH var x ev) (\<lambda>ev. add_elements var xs ev)"
  by pat_completeness auto
termination
proof (relation "measure (\<lambda>x. case x of Inl (_, _, data, _) \<Rightarrow> length data + 1 | Inr (_, xs, _) \<Rightarrow> sum_list (map (\<lambda>x. length x + 2) xs))",
    goal_cases)
  case (2 stack header_name data ev ev' indexed index name multi uniq ev1 ev2 array)
  then have "length data \<ge> 8" and "array = separate_string_string_loop ''|:'' (count_bars (drop 7 data)) (drop 7 data)"
    by (simp_all add: switch_separate_string_string_def)
  then show ?case using parts_shorter [of "count_bars (drop 7 data)" "drop 7 data"] by simp
qed simp_all

declare switch_event_base_add_header.simps [simp del]

definition switch_event_add_array :: "event \<Rightarrow> string \<Rightarrow> string \<Rightarrow> (int \<times> event) c" where
  "switch_event_add_array ev var val =
     (if length val < 8 then Inr (-1, ev)
      else
        bindE (switch_separate_string_string (drop 7 val) ''|:'' (1 + count_bars (drop 7 val))) (\<lambda>array.
        bindE (add_elements var array ev) (\<lambda>ev. Inr (0, ev))))"

text \<open>The text of \<open>switch_event_add_header\<close> is what its format string gives; \<open>None\<close> when formatting fails.\<close>

definition switch_event_add_header :: "event \<Rightarrow> u32 \<Rightarrow> string \<Rightarrow> string option \<Rightarrow> (switch_status_t \<times> event) c" where
  "switch_event_add_header ev stack header_name text =
     (case text of
        None \<Rightarrow> Inr (SWITCH_STATUS_MEMERR, ev)
      | Some data \<Rightarrow> bindE (switch_event_base_add_header stack header_name data ev) (\<lambda>ev. Inr (SWITCH_STATUS_SUCCESS, ev)))"

definition switch_event_add_header_string :: "event \<Rightarrow> u32 \<Rightarrow> string \<Rightarrow> string option \<Rightarrow> (switch_status_t \<times> event) c" where
  "switch_event_add_header_string ev stack header_name data =
     (case data of
        Some data \<Rightarrow> bindE (switch_event_base_add_header stack header_name data ev) (\<lambda>ev. Inr (SWITCH_STATUS_SUCCESS, ev))
      | None \<Rightarrow> Inr (SWITCH_STATUS_GENERR, ev))"

definition add_string :: "u32 \<Rightarrow> string \<times> string option \<Rightarrow> event \<Rightarrow> event c" where
  "add_string stack x ev = bindE (switch_event_add_header_string ev stack (fst x) (snd x)) (\<lambda>(_, ev). Inr ev)"

definition switch_event_set_subclass_name :: "event option \<Rightarrow> string option \<Rightarrow> (switch_status_t \<times> event option) c" where
  "switch_event_set_subclass_name event subclass_name =
     (case (event, subclass_name) of
        (Some ev, Some sub) \<Rightarrow>
          bindE (switch_event_del_header (ev\<lparr>ev_subclass_name := Some sub\<rparr>) ''Event-Subclass'') (\<lambda>ev.
          bindE (add_string SWITCH_STACK_BOTTOM (''Event-Subclass'', ev_subclass_name ev) ev) (\<lambda>ev.
            Inr (SWITCH_STATUS_SUCCESS, Some ev)))
      | _ \<Rightarrow> Inr (SWITCH_STATUS_GENERR, event))"

text \<open>The text of \<open>switch_event_add_body\<close>: no format, a format that fails, or what it gives.\<close>

definition switch_event_add_body :: "event \<Rightarrow> string option option \<Rightarrow> switch_status_t \<times> event" where
  "switch_event_add_body ev fmt =
     (case fmt of
        Some (Some data) \<Rightarrow> (SWITCH_STATUS_SUCCESS, ev\<lparr>ev_body := Some data\<rparr>)
      | _ \<Rightarrow> (SWITCH_STATUS_GENERR, ev))"

definition switch_event_set_priority :: "event \<Rightarrow> nat \<Rightarrow> (switch_status_t \<times> event) c" where
  "switch_event_set_priority ev priority =
     bindE (add_string SWITCH_STACK_TOP (''priority'', Some (switch_priority_name priority)) (ev\<lparr>ev_priority := priority\<rparr>)) (\<lambda>ev.
       Inr (SWITCH_STATUS_SUCCESS, ev))"

section \<open>Creating, copying and printing events\<close>

text \<open>
  What \<open>switch_event_prep_for_delivery_detailed\<close> takes from its caller, the core, the clock and the sequence counter,
  as text.
\<close>

record prep_facts =
  pf_core_uuid :: "string option"
  pf_hostname :: "string option"
  pf_switchname :: "string option"
  pf_ipv4 :: string
  pf_ipv6 :: string
  pf_date_local :: string
  pf_date_gmt :: string
  pf_timestamp :: string
  pf_file :: "string option"
  pf_func :: "string option"
  pf_line :: string
  pf_sequence :: string

definition prep_headers :: "prep_facts \<Rightarrow> string \<Rightarrow> (string \<times> string option) list" where
  "prep_headers pf name =
     [(''Event-Name'', Some name), (''Core-UUID'', pf_core_uuid pf), (''FreeSWITCH-Hostname'', pf_hostname pf),
      (''FreeSWITCH-Switchname'', pf_switchname pf), (''FreeSWITCH-IPv4'', Some (pf_ipv4 pf)),
      (''FreeSWITCH-IPv6'', Some (pf_ipv6 pf)), (''Event-Date-Local'', Some (pf_date_local pf)),
      (''Event-Date-GMT'', Some (pf_date_gmt pf)), (''Event-Date-Timestamp'', Some (pf_timestamp pf)),
      (''Event-Calling-File'', pf_file pf), (''Event-Calling-Function'', pf_func pf),
      (''Event-Calling-Line-Number'', Some (pf_line pf)), (''Event-Sequence'', Some (pf_sequence pf))]"

definition switch_event_prep_for_delivery :: "prep_facts \<Rightarrow> event \<Rightarrow> event c" where
  "switch_event_prep_for_delivery pf ev =
     bindE (switch_event_name (ev_event_id ev)) (\<lambda>name.
       run_ops (add_string SWITCH_STACK_BOTTOM) (prep_headers pf name) ev)"

definition blank_event :: event where
  "blank_event = \<lparr>ev_event_id = 0, ev_priority = 0, ev_owner = None, ev_subclass_name = None, ev_headers = [], ev_body = None,
     ev_bind_user_data = None, ev_event_user_data = None, ev_key = 0, ev_flags = 0\<rparr>"

definition switch_event_create_subclass ::
    "prep_facts \<Rightarrow> nat \<Rightarrow> string option \<Rightarrow> (switch_status_t \<times> event option) c" where
  "switch_event_create_subclass pf event_id subclass_name =
     (if event_id \<noteq> SWITCH_EVENT_CLONE \<and> event_id \<noteq> SWITCH_EVENT_CUSTOM \<and> subclass_name \<noteq> None
      then Inr (SWITCH_STATUS_GENERR, None)
      else
        let ev = (if event_id \<in> set [SWITCH_EVENT_REQUEST_PARAMS, SWITCH_EVENT_CHANNEL_DATA, SWITCH_EVENT_MESSAGE]
                  then blank_event\<lparr>ev_flags := ev_flags blank_event OR EF_UNIQ_HEADERS\<rparr> else blank_event)
        in bindE (if event_id \<noteq> SWITCH_EVENT_CLONE then switch_event_prep_for_delivery pf (ev\<lparr>ev_event_id := event_id\<rparr>)
                  else Inr ev) (\<lambda>ev.
           bindE (case subclass_name of
                    None \<Rightarrow> Inr ev
                  | Some sub \<Rightarrow> add_string SWITCH_STACK_BOTTOM (''Event-Subclass'', Some sub) (ev\<lparr>ev_subclass_name := Some sub\<rparr>)) (\<lambda>ev.
             Inr (SWITCH_STATUS_SUCCESS, Some ev))))"

definition switch_event_create_plain :: "prep_facts \<Rightarrow> nat \<Rightarrow> (switch_status_t \<times> event option) c" where
  "switch_event_create_plain pf event_id =
     bindE (switch_event_create_subclass pf SWITCH_EVENT_CLONE None) (\<lambda>(status, event).
       Inr (status, map_option (\<lambda>ev.
         if event_id = SWITCH_EVENT_REQUEST_PARAMS \<or> event_id = SWITCH_EVENT_CHANNEL_DATA
         then ev\<lparr>ev_event_id := event_id, ev_flags := ev_flags ev OR EF_UNIQ_HEADERS\<rparr>
         else ev\<lparr>ev_event_id := event_id\<rparr>) event))"

definition switch_event_create_array_pair :: "prep_facts \<Rightarrow> (string option \<times> string option) list \<Rightarrow> (switch_status_t \<times> event option) c" where
  "switch_event_create_array_pair pf pairs =
     bindE (switch_event_create_subclass pf SWITCH_EVENT_CLONE None) (\<lambda>(_, event).
       (case event of
          None \<Rightarrow> Inl Null_Deref
        | Some ev \<Rightarrow>
            bindE (run_ops (\<lambda>(name, val). add_string SWITCH_STACK_BOTTOM
                     ((case name of None \<Rightarrow> ''Unknown'' | Some n \<Rightarrow> if n = [] then ''Unknown'' else n),
                      Some (case val of None \<Rightarrow> [] | Some v \<Rightarrow> v))) pairs ev) (\<lambda>ev.
              Inr (SWITCH_STATUS_SUCCESS, Some ev))))"

text \<open>How one header is copied into another event, under a name of its own.\<close>

definition copy_header :: "string \<times> event_header \<Rightarrow> event \<Rightarrow> event c" where
  "copy_header x ev =
     (case x of (name, hp) \<Rightarrow>
        if h_array hp \<noteq> [] then run_ops (add_string SWITCH_STACK_PUSH) (map (\<lambda>v. (name, Some v)) (h_array hp)) ev
        else add_string SWITCH_STACK_BOTTOM (name, h_value hp) ev)"

definition switch_event_merge :: "event \<Rightarrow> event \<Rightarrow> event c" where
  "switch_event_merge event tomerge = run_ops copy_header (map (\<lambda>hp. (h_name hp, hp)) (ev_headers tomerge)) event"

definition copied :: "event \<Rightarrow> event_header list" where
  "copied todup = filter (\<lambda>hp. \<not> (ev_subclass_name todup \<noteq> None \<and> h_name hp = ''Event-Subclass'')) (ev_headers todup)"

definition switch_event_dup :: "prep_facts \<Rightarrow> event \<Rightarrow> (switch_status_t \<times> event option) c" where
  "switch_event_dup pf todup =
     bindE (switch_event_create_subclass pf SWITCH_EVENT_CLONE (ev_subclass_name todup)) (\<lambda>(status, event).
       (case event of
          None \<Rightarrow> Inr (SWITCH_STATUS_GENERR, None)
        | Some ev \<Rightarrow>
            bindE (run_ops copy_header (map (\<lambda>hp. (h_name hp, hp)) (copied todup))
                    (ev\<lparr>ev_event_id := ev_event_id todup, ev_event_user_data := ev_event_user_data todup,
                        ev_bind_user_data := ev_bind_user_data todup, ev_flags := ev_flags todup\<rparr>)) (\<lambda>ev.
              let ev = (if ev_body todup \<noteq> None then ev\<lparr>ev_body := ev_body todup\<rparr> else ev)
              in Inr (SWITCH_STATUS_SUCCESS, Some (ev\<lparr>ev_key := ev_key todup\<rparr>)))))"

text \<open>The name of a header in a reply: what was from is to, and the other way round, in a buffer of 1024 bytes.\<close>

definition reply_name :: "string \<Rightarrow> string" where
  "reply_name name =
     (if strncasecmp_eq name ''from_'' 5 then take 1023 (''to_'' @ drop 5 name)
      else if strncasecmp_eq name ''to_'' 3 then take 1023 (''from_'' @ drop 3 name)
      else if strcasecmp_eq name ''to'' then ''from''
      else if strcasecmp_eq name ''from'' then ''to'' else name)"

definition switch_event_dup_reply :: "prep_facts \<Rightarrow> event \<Rightarrow> (switch_status_t \<times> event option) c" where
  "switch_event_dup_reply pf todup =
     bindE (switch_event_create_subclass pf SWITCH_EVENT_CLONE (ev_subclass_name todup)) (\<lambda>(status, event).
       (case event of
          None \<Rightarrow> Inr (SWITCH_STATUS_GENERR, None)
        | Some ev \<Rightarrow>
            bindE (run_ops copy_header (map (\<lambda>hp. (reply_name (h_name hp), hp)) (copied todup))
                    (ev\<lparr>ev_event_id := ev_event_id todup, ev_event_user_data := ev_event_user_data todup,
                        ev_bind_user_data := ev_bind_user_data todup, ev_flags := ev_flags todup\<rparr>)) (\<lambda>ev.
            bindE (add_string SWITCH_STACK_BOTTOM (''replying'', Some ''true'') ev) (\<lambda>ev.
            bindE (if ev_body todup \<noteq> None then add_string SWITCH_STACK_BOTTOM (''orig_body'', ev_body todup) ev else Inr ev) (\<lambda>ev.
              Inr (SWITCH_STATUS_SUCCESS, Some (ev\<lparr>ev_key := ev_key todup\<rparr>)))))))"

definition switch_event_check_permission_list :: "event option \<Rightarrow> string \<Rightarrow> bool" where
  "switch_event_check_permission_list plist name =
     (case plist of
        None \<Rightarrow> True
      | Some ev \<Rightarrow>
          let default_allow = (ev_flags ev AND EF_DEFAULT_ALLOW \<noteq> 0)
          in if ev_headers ev = [] then default_allow
             else (case switch_event_get_header ev name of
                     Some v \<Rightarrow> \<not> (v \<noteq> [] \<and> hd v = CHR ''d'')
                   | None \<Rightarrow> default_allow))"

section \<open>Lookup and removal\<close>

text \<open>The stored hash only speeds the comparison up: it is the hash of the name, up to case.\<close>

definition hashed :: "event_header \<Rightarrow> bool" where
  "hashed hp \<longleftrightarrow> h_hash hp = switch_ci_hashfunc_default (h_name hp)"

lemma ci_hash_lower: "switch_ci_hashfunc_default key = fold (\<lambda>p hash. hash * 33 + of_nat (of_char p)) (map ascii_lower key) 0"
  by (simp add: switch_ci_hashfunc_default_def fold_map comp_def)

lemma ci_hash_cong: "strcasecmp_eq m n \<Longrightarrow> switch_ci_hashfunc_default m = switch_ci_hashfunc_default n"
  by (simp add: ci_hash_lower strcasecmp_eq_def)

lemma header_is_hashed: "hashed hp \<Longrightarrow> header_is name hp \<longleftrightarrow> map ascii_lower (h_name hp) = map ascii_lower name"
  using ci_hash_cong [of "h_name hp" name] by (auto simp: header_is_def hashed_def strcasecmp_eq_def)

lemma header_position_Some:
  "header_position name hps = Some i \<Longrightarrow> i < length hps \<and> header_is name (hps ! i) \<and> (\<forall>j < i. \<not> header_is name (hps ! j))"
proof (induction hps arbitrary: i)
  case (Cons hp hps)
  then show ?case by (cases i) (auto simp: nth_Cons split: if_splits nat.split)
qed simp

lemma header_position_None: "header_position name hps = None \<longleftrightarrow> (\<forall>hp \<in> set hps. \<not> header_is name hp)"
  by (induction hps) auto

lemma header_position_append:
  "\<forall>hp \<in> set hps. \<not> header_is name hp \<Longrightarrow> header_is name hp \<Longrightarrow> header_position name (hps @ hp # hps') = Some (length hps)"
  by (induction hps) auto

definition header_map :: "event_header list \<Rightarrow> string \<rightharpoonup> string" where
  "header_map hps k = Option.bind (map_of (map (\<lambda>hp. (map ascii_lower (h_name hp), h_value hp)) hps) k) (\<lambda>v. v)"

lemma header_map_position:
  assumes "\<forall>hp \<in> set hps. hashed hp"
  shows "header_map hps (map ascii_lower name) =
    (case header_position name hps of None \<Rightarrow> None | Some i \<Rightarrow> h_value (hps ! i))"
  using assms by (induction hps) (auto simp: header_map_def header_is_hashed split: option.split)

lemma get_header_map:
  assumes "\<forall>hp \<in> set (ev_headers ev). hashed hp" and "name \<noteq> ''_body''"
  shows "switch_event_get_header ev name = header_map (ev_headers ev) (map ascii_lower name)"
  using assms by (auto simp: header_map_position switch_event_get_header_def switch_event_get_header_idx_def
      switch_event_get_header_ptr_def Let_def split: option.split)

lemma del_walk_all:
  "x + length hps < 1000000 \<Longrightarrow>
   del_walk x name None hps = Inr (\<exists>hp \<in> set hps. header_is name hp, filter (\<lambda>hp. \<not> header_is name hp) hps)"
proof (induction hps arbitrary: x)
  case (Cons hp hps)
  then show ?case by (cases "header_is name hp") simp_all
qed simp

lemma del_header:
  "length (ev_headers ev) < 1000000 \<Longrightarrow>
   switch_event_del_header ev name = Inr (ev\<lparr>ev_headers := filter (\<lambda>hp. \<not> header_is name hp) (ev_headers ev)\<rparr>)"
  by (simp add: switch_event_del_header_def switch_event_del_header_val_def del_walk_all)

lemma del_header_none:
  "length (ev_headers ev) < 1000000 \<Longrightarrow> \<forall>hp \<in> set (ev_headers ev). \<not> header_is name hp \<Longrightarrow> switch_event_del_header ev name = Inr ev"
  by (simp add: del_header filter_id_conv [THEN iffD2])

section \<open>Plain headers\<close>

definition plain_name :: "string \<Rightarrow> bool" where
  "plain_name name \<longleftrightarrow> CHR ''['' \<notin> set name \<and> name \<noteq> ''_body''"

definition plain_data :: "string \<Rightarrow> bool" where
  "plain_data data \<longleftrightarrow> strstr data ''ARRAY::'' = None"

definition plain_header :: "string \<Rightarrow> string \<Rightarrow> event_header" where
  "plain_header name v = \<lparr>h_name = name, h_value = Some v, h_array = [], h_hash = switch_ci_hashfunc_default name\<rparr>"

definition put_header :: "bool \<Rightarrow> bool \<Rightarrow> string \<Rightarrow> string \<Rightarrow> event_header list \<Rightarrow> event_header list" where
  "put_header uniq first name data hps =
     (let rest = filter (\<lambda>hp. \<not> header_is name hp) hps; hps' = (if uniq then rest else hps)
      in if data = [] then rest
         else if first then plain_header name data # hps' else hps' @ [plain_header name data])"

lemma stack_plain [simp]:
  "\<not> stack_on SWITCH_STACK_BOTTOM SWITCH_STACK_PUSH" "\<not> stack_on SWITCH_STACK_BOTTOM SWITCH_STACK_UNSHIFT"
  "\<not> stack_on SWITCH_STACK_TOP SWITCH_STACK_PUSH" "\<not> stack_on SWITCH_STACK_TOP SWITCH_STACK_UNSHIFT"
  "\<not> stack_on SWITCH_STACK_BOTTOM SWITCH_STACK_TOP" "stack_on SWITCH_STACK_TOP SWITCH_STACK_TOP"
  "stack_on SWITCH_STACK_PUSH SWITCH_STACK_PUSH" "\<not> stack_on SWITCH_STACK_PUSH SWITCH_STACK_TOP"
  by (simp_all add: stack_on_def SWITCH_STACK_BOTTOM_def SWITCH_STACK_TOP_def SWITCH_STACK_PUSH_def SWITCH_STACK_UNSHIFT_def)

lemma plain_name_take: "plain_name name \<Longrightarrow> takeWhile (\<lambda>x. x \<noteq> CHR ''['') name = name"
  by (auto simp: plain_name_def takeWhile_eq_all_conv)

lemma base_add_plain:
  assumes "plain_name name" and "plain_data data" and "length (ev_headers ev) < 1000000"
    and "stack = (if first then SWITCH_STACK_TOP else SWITCH_STACK_BOTTOM)"
  shows "switch_event_base_add_header stack name data ev =
    Inr (ev\<lparr>ev_headers := put_header (ev_flags ev AND EF_UNIQ_HEADERS \<noteq> 0) first name data (ev_headers ev)\<rparr>)"
proof -
  have n: "CHR ''['' \<notin> set name" "name \<noteq> ''_body''" "strstr data ''ARRAY::'' = None"
    using assms(1,2) by (simp_all add: plain_name_def plain_data_def)
  have st: "\<not> stack_on stack SWITCH_STACK_PUSH" "\<not> stack_on stack SWITCH_STACK_UNSHIFT" "stack_on stack SWITCH_STACK_TOP = first"
    using assms(4) by simp_all
  show ?thesis
    unfolding switch_event_base_add_header.simps [of stack name] Let_def plain_name_take [OF assms(1)]
    using n st del_header [OF assms(3), of name]
    by (simp add: put_header_def plain_header_def new_header_def link_header_def Let_def)
qed

lemma hashed_plain [simp]: "hashed (plain_header name v)"
  by (simp add: hashed_def plain_header_def)

lemma header_map_filter:
  "\<forall>hp \<in> set hps. hashed hp \<Longrightarrow>
   header_map (filter (\<lambda>hp. \<not> header_is name hp) hps) = (header_map hps)(map ascii_lower name := None)"
  by (induction hps) (auto simp: header_map_def header_is_hashed fun_eq_iff)

lemma header_map_append:
  "header_map (hps @ hps') k = (if k \<in> (\<lambda>hp. map ascii_lower (h_name hp)) ` set hps then header_map hps k else header_map hps' k)"
  by (induction hps) (auto simp: header_map_def)

lemma header_map_fresh: "k \<notin> (\<lambda>hp. map ascii_lower (h_name hp)) ` set hps \<Longrightarrow> header_map hps k = None"
  by (induction hps) (auto simp: header_map_def)

lemma header_map_put:
  assumes "\<forall>hp \<in> set hps. hashed hp"
  shows "header_map (put_header True first name data hps) =
    (header_map hps)(map ascii_lower name := (if data = [] then None else Some data))"
proof -
  let ?rest = "filter (\<lambda>hp. \<not> header_is name hp) hps"
  have "map ascii_lower name \<notin> (\<lambda>hp. map ascii_lower (h_name hp)) ` set ?rest"
    using assms by (auto simp: header_is_hashed)
  then have "header_map (?rest @ [plain_header name data]) = (header_map ?rest)(map ascii_lower name := Some data)"
    using header_map_fresh [of _ ?rest] by (auto simp: header_map_append fun_eq_iff header_map_def [of "[_]"] plain_header_def)
  then show ?thesis using header_map_filter [OF assms, of name]
    by (auto simp: put_header_def Let_def header_map_def plain_header_def fun_eq_iff)
qed

lemma put_header_hashed: "\<forall>hp \<in> set hps. hashed hp \<Longrightarrow> \<forall>hp \<in> set (put_header uniq first name data hps). hashed hp"
  by (auto simp: put_header_def Let_def)

lemma put_header_length: "length (put_header uniq first name data hps) \<le> Suc (length hps)"
  by (auto simp: put_header_def Let_def le_SucI)

section \<open>Arrays\<close>

definition drawn :: "string list \<Rightarrow> string" where
  "drawn xs = (if 1 < length xs then ''ARRAY::'' else []) @ join_bars xs"

definition array_header :: "string \<Rightarrow> string list \<Rightarrow> event_header" where
  "array_header name xs = \<lparr>h_name = name, h_value = Some (drawn xs), h_array = xs, h_hash = switch_ci_hashfunc_default name\<rparr>"

lemma header_is_own [simp]: "header_is name (array_header name xs)" "header_is name (plain_header name v)"
  by (simp_all add: header_is_def array_header_def plain_header_def strcasecmp_eq_def)

lemma push_new:
  assumes "plain_name name" and "plain_data x" and "x \<noteq> []" and "length (ev_headers ev) < 1000000"
    and "\<forall>hp \<in> set (ev_headers ev). \<not> header_is name hp"
  shows "switch_event_base_add_header SWITCH_STACK_PUSH name x ev =
    Inr (ev\<lparr>ev_headers := ev_headers ev @ [array_header name [x]]\<rparr>)"
proof -
  have n: "CHR ''['' \<notin> set name" "name \<noteq> ''_body''" "strstr x ''ARRAY::'' = None"
    using assms(1,2) by (simp_all add: plain_name_def plain_data_def)
  have p: "header_position name (ev_headers ev) = None" using assms(5) by (simp add: header_position_None)
  show ?thesis
    unfolding switch_event_base_add_header.simps [of SWITCH_STACK_PUSH name] Let_def plain_name_take [OF assms(1)]
    using n p assms(3) del_header_none [OF assms(4,5)]
    by (simp add: switch_event_get_header_ptr_def array_header_def new_header_def link_header_def push_value_def redraw_def
        drawn_def Let_def)
qed

lemma push_more:
  assumes "plain_name name" and "ev_headers ev = hps @ [array_header name xs]" and "xs \<noteq> []"
    and "\<forall>hp \<in> set hps. \<not> header_is name hp"
  shows "switch_event_base_add_header SWITCH_STACK_PUSH name x ev =
    Inr (ev\<lparr>ev_headers := hps @ [array_header name (xs @ [x])]\<rparr>)"
proof -
  have n: "CHR ''['' \<notin> set name" "name \<noteq> ''_body''" using assms(1) by (simp_all add: plain_name_def)
  have p: "header_position name (ev_headers ev) = Some (length hps)"
    unfolding assms(2) using assms(4) by (rule header_position_append) simp
  have "push_value SWITCH_STACK_PUSH x (array_header name xs) = array_header name (xs @ [x])"
    using assms(3) by (simp add: push_value_def redraw_def array_header_def drawn_def)
  then show ?thesis
    unfolding switch_event_base_add_header.simps [of SWITCH_STACK_PUSH name] Let_def plain_name_take [OF assms(1)]
    using n p assms(2) by (simp add: switch_event_get_header_ptr_def update_header_def)
qed

lemma push_rest:
  assumes "plain_name name" and "ev_headers ev = hps @ [array_header name xs]" and "xs \<noteq> []"
    and "\<forall>hp \<in> set hps. \<not> header_is name hp"
  shows "add_elements name ys ev = Inr (ev\<lparr>ev_headers := hps @ [array_header name (xs @ ys)]\<rparr>)"
  using assms(2,3)
proof (induction ys arbitrary: ev xs)
  case (Cons y ys)
  let ?ev = "ev\<lparr>ev_headers := hps @ [array_header name (xs @ [y])]\<rparr>"
  have "add_elements name (y # ys) ev = add_elements name ys ?ev"
    using push_more [OF assms(1) Cons.prems assms(4)] by simp
  then show ?case using Cons.IH [of ?ev "xs @ [y]"] by simp
qed simp

lemma add_elements_new:
  assumes "plain_name name" and "plain_data x" and "x \<noteq> []" and "length (ev_headers ev) < 1000000"
    and "\<forall>hp \<in> set (ev_headers ev). \<not> header_is name hp"
  shows "add_elements name (x # ys) ev = Inr (ev\<lparr>ev_headers := ev_headers ev @ [array_header name (x # ys)]\<rparr>)"
  using push_rest [OF assms(1) _ _ assms(5), of "ev\<lparr>ev_headers := ev_headers ev @ [array_header name [x]]\<rparr>" "[x]" ys]
  by (simp add: push_new [OF assms])

lemma add_elements_run: "add_elements name xs ev = run_ops (add_string SWITCH_STACK_PUSH) (map (\<lambda>v. (name, Some v)) xs) ev"
proof (induction xs arbitrary: ev)
  case (Cons x xs)
  then show ?case
    by (cases "switch_event_base_add_header SWITCH_STACK_PUSH name x ev")
      (simp_all add: add_string_def switch_event_add_header_string_def)
qed simp

lemma strstr_None_Cons: "strstr (c # s) t = None \<Longrightarrow> take (length t) (c # s) \<noteq> t \<and> strstr s t = None"
  by (subst (asm) strstr.simps) (simp split: if_splits)

lemma strstr_bars_append: "strstr x ''|:'' = None \<Longrightarrow> strstr (x @ ''|:'' @ r) ''|:'' = Some (''|:'' @ r)"
proof (induction x)
  case Nil
  show ?case by (subst strstr.simps) simp
next
  case (Cons c x)
  have "take 2 (c # x @ ''|:'' @ r) \<noteq> ''|:''"
  proof (cases x)
    case (Cons d x')
    then show ?thesis using strstr_None_Cons [OF Cons.prems] by (simp add: numeral_2_eq_2)
  qed (simp add: numeral_2_eq_2)
  then show ?case using Cons strstr_None_Cons [OF Cons.prems] by (subst strstr.simps) (simp add: numeral_2_eq_2)
qed

lemma join_bars_parse:
  assumes "xs \<noteq> []" and "\<forall>x \<in> set xs. strstr x ''|:'' = None"
  shows "separate_string_string_loop ''|:'' (length xs - 1) (join_bars xs) = xs \<and> count_bars (join_bars xs) = length xs - 1"
  using assms
proof (induction xs rule: join_bars.induct)
  case (2 x)
  then show ?case by (simp add: count_bars.simps [of x])
next
  case (3 x y xs)
  let ?r = "join_bars (y # xs)"
  have f: "strstr (x @ ''|:'' @ ?r) ''|:'' = Some (''|:'' @ ?r)" using 3 by (intro strstr_bars_append) simp
  have IH: "separate_string_string_loop ''|:'' (length xs) ?r = y # xs" "count_bars ?r = length xs" using 3 by auto
  show ?case using f IH by (subst count_bars.simps) (simp add: numeral_2_eq_2)
qed simp

lemma array_text_added:
  assumes "plain_name name" and "plain_data x" and "x \<noteq> []" and "ys \<noteq> []" and "\<forall>z \<in> set (x # ys). strstr z ''|:'' = None"
    and "length (ev_headers ev) < 1000000"
  defines "hps \<equiv> (if ev_flags ev AND EF_UNIQ_HEADERS \<noteq> 0 then filter (\<lambda>hp. \<not> header_is name hp) (ev_headers ev) else ev_headers ev)"
  assumes "\<forall>hp \<in> set hps. \<not> header_is name hp"
  shows "switch_event_base_add_header SWITCH_STACK_BOTTOM name (drawn (x # ys)) ev =
    Inr (ev\<lparr>ev_headers := hps @ [array_header name (x # ys)]\<rparr>)"
proof -
  have n: "CHR ''['' \<notin> set name" "name \<noteq> ''_body''" using assms(1) by (simp_all add: plain_name_def)
  have d: "drawn (x # ys) = ''ARRAY::'' @ join_bars (x # ys)" using assms(4) by (cases ys) (simp_all add: drawn_def)
  have "join_bars (x # ys) \<noteq> []" using assms(3,4) by (cases ys) simp_all
  then have l: "\<not> length (drawn (x # ys)) < 8" "drop 7 (drawn (x # ys)) = join_bars (x # ys)" "drawn (x # ys) \<noteq> []"
    unfolding d by (cases "join_bars (x # ys)", simp_all)
  have s: "strstr (drawn (x # ys)) ''ARRAY::'' \<noteq> None" unfolding d by (subst strstr.simps) simp
  have parse: "switch_separate_string_string (join_bars (x # ys)) ''|:'' (Suc (count_bars (join_bars (x # ys)))) = Inr (x # ys)"
    using join_bars_parse [OF _ assms(5)] by (simp add: switch_separate_string_string_def)
  let ?ev = "ev\<lparr>ev_headers := hps\<rparr>"
  have del: "(if ev_flags ev AND EF_UNIQ_HEADERS \<noteq> 0 then switch_event_del_header ev name else Inr ev) = Inr ?ev"
    using del_header [OF assms(6), of name] by (simp add: hps_def)
  have "length hps \<le> length (ev_headers ev)" by (simp add: hps_def)
  then have "length hps < 1000000" using assms(6) by (rule le_less_trans)
  then have "add_elements name (x # ys) ?ev = Inr (ev\<lparr>ev_headers := hps @ [array_header name (x # ys)]\<rparr>)"
    using add_elements_new [OF assms(1,2,3), of ?ev ys] assms(8) by simp
  then show ?thesis
    unfolding switch_event_base_add_header.simps [of SWITCH_STACK_BOTTOM name] Let_def plain_name_take [OF assms(1)]
    using n l s del by (simp add: parse)
qed

section \<open>Properties\<close>

text \<open>The setting of a header, at the top or at the bottom, and its abstract counterpart on a map from lower-case names.\<close>

fun set_header :: "bool \<times> string \<times> string \<Rightarrow> event \<Rightarrow> event c" where
  "set_header (first, name, data) ev =
     bindE (switch_event_add_header_string ev (if first then SWITCH_STACK_TOP else SWITCH_STACK_BOTTOM) name (Some data)) (\<lambda>(_, ev). Inr ev)"

fun set_map :: "bool \<times> string \<times> string \<Rightarrow> (string \<rightharpoonup> string) \<Rightarrow> (string \<rightharpoonup> string)" where
  "set_map (first, name, data) m = m(map ascii_lower name := (if data = [] then None else Some data))"

lemma set_headers_run:
  assumes "\<forall>hp \<in> set (ev_headers ev). hashed hp" and "ev_flags ev AND EF_UNIQ_HEADERS \<noteq> 0"
    and "\<forall>(_, name, data) \<in> set ops. plain_name name \<and> plain_data data" and "length (ev_headers ev) + length ops < 1000000"
  shows "\<exists>ev'. run_ops set_header ops ev = Inr ev' \<and> (\<forall>hp \<in> set (ev_headers ev'). hashed hp) \<and>
    header_map (ev_headers ev') = fold set_map ops (header_map (ev_headers ev))"
  using assms
proof (induction ops arbitrary: ev)
  case (Cons x ops)
  obtain first name data where x: "x = (first, name, data)" by (cases x)
  let ?hps = "put_header True first name data (ev_headers ev)"
  have ok: "plain_name name" "plain_data data" "length (ev_headers ev) < 1000000" using Cons.prems(3,4) x by auto
  have step: "set_header x ev = Inr (ev\<lparr>ev_headers := ?hps\<rparr>)"
    using base_add_plain [OF ok refl, of first] Cons.prems(2) x by (simp add: switch_event_add_header_string_def)
  have "\<exists>ev'. run_ops set_header ops (ev\<lparr>ev_headers := ?hps\<rparr>) = Inr ev' \<and> (\<forall>hp \<in> set (ev_headers ev'). hashed hp) \<and>
      header_map (ev_headers ev') = fold set_map ops (header_map ?hps)"
    using Cons.IH [of "ev\<lparr>ev_headers := ?hps\<rparr>"] Cons.prems put_header_hashed [OF Cons.prems(1), of True first name data]
      put_header_length [of True first name data "ev_headers ev"] by simp
  then show ?case using step header_map_put [OF Cons.prems(1), of first name data] x by simp
qed simp

text \<open>C3. An event that keeps its headers unique, as those that hold variables and parameters do, is a map from
  names, up to case, to values: after any sequence of settings of plain headers, at the top or at the
  bottom, a lookup gives the value set last, and nothing when that was the empty text.\<close>

theorem event_headers_refine_map:
  assumes "\<forall>hp \<in> set (ev_headers ev). hashed hp" and "ev_flags ev AND EF_UNIQ_HEADERS \<noteq> 0"
    and "\<forall>(_, name, data) \<in> set ops. plain_name name \<and> plain_data data" and "length (ev_headers ev) + length ops < 1000000"
    and "name \<noteq> ''_body''"
  shows "\<exists>ev'. run_ops set_header ops ev = Inr ev' \<and>
    switch_event_get_header ev' name = fold set_map ops (header_map (ev_headers ev)) (map ascii_lower name)"
  using set_headers_run [OF assms(1-4)] get_header_map [OF _ assms(5)] by metis

theorem event_headers_refine_map_witness:
  "\<exists>ev'. run_ops set_header [(False, ''Foo'', ''1''), (True, ''bar'', ''2''), (False, ''FOO'', ''3'')]
     (blank_event\<lparr>ev_flags := EF_UNIQ_HEADERS\<rparr>) = Inr ev' \<and> switch_event_get_header ev' ''foo'' = Some ''3''"
proof -
  let ?ops = "[(False, ''Foo'', ''1''), (True, ''bar'', ''2''), (False, ''FOO'', ''3'')]"
  have p: "plain_name ''Foo'' \<and> plain_data ''1''" "plain_name ''bar'' \<and> plain_data ''2''" "plain_name ''FOO'' \<and> plain_data ''3''"
    by code_simp+
  have l: "map ascii_lower ''foo'' = ''foo''" "map ascii_lower ''FOO'' = ''foo''" by code_simp+
  show ?thesis
    using event_headers_refine_map [of "blank_event\<lparr>ev_flags := EF_UNIQ_HEADERS\<rparr>" ?ops "''foo''"] p l
    by (simp add: blank_event_def EF_UNIQ_HEADERS_def del: list.map)
qed

text \<open>C17. A list of two or more values written as \<open>ARRAY::\<close> text, the values free of the separator \<open>|:\<close> and the first
  neither empty nor itself such text, is read back when it is set as a header: the header then has
  exactly these values as its array, in order, and its value is the text.\<close>

theorem event_array_roundtrip:
  assumes "plain_name name" and "plain_data x" and "x \<noteq> []" and "ys \<noteq> []" and "\<forall>z \<in> set (x # ys). strstr z ''|:'' = None"
    and "length (ev_headers ev) < 1000000"
    and "ev_flags ev AND EF_UNIQ_HEADERS \<noteq> 0 \<or> switch_event_get_header_ptr ev (Some name) = None"
  shows "\<exists>ev'. switch_event_add_header_string ev SWITCH_STACK_BOTTOM name (Some (''ARRAY::'' @ join_bars (x # ys))) =
      Inr (SWITCH_STATUS_SUCCESS, ev') \<and>
    switch_event_get_header ev' name = Some (''ARRAY::'' @ join_bars (x # ys)) \<and>
    (\<forall>i. switch_event_get_header_idx ev' name (int i) = (if i < length (x # ys) then Some ((x # ys) ! i) else None))"
proof -
  define hps where "hps = (if ev_flags ev AND EF_UNIQ_HEADERS \<noteq> 0 then filter (\<lambda>hp. \<not> header_is name hp) (ev_headers ev) else ev_headers ev)"
  have fresh: "\<forall>hp \<in> set hps. \<not> header_is name hp"
    using assms(7) by (auto simp: hps_def switch_event_get_header_ptr_def header_position_None)
  have d: "drawn (x # ys) = ''ARRAY::'' @ join_bars (x # ys)" using assms(4) by (cases ys) (simp_all add: drawn_def)
  let ?ev = "ev\<lparr>ev_headers := hps @ [array_header name (x # ys)]\<rparr>"
  have "switch_event_base_add_header SWITCH_STACK_BOTTOM name (drawn (x # ys)) ev = Inr ?ev"
    using array_text_added [OF assms(1-6)] fresh unfolding hps_def by simp
  moreover have "header_position name (hps @ [array_header name (x # ys)]) = Some (length hps)"
    using header_position_append [OF fresh, of "array_header name (x # ys)" "[]"] by simp
  ultimately show ?thesis unfolding d [symmetric]
    by (intro exI [of _ ?ev])
      (auto simp: switch_event_add_header_string_def switch_event_get_header_def switch_event_get_header_idx_def
        switch_event_get_header_ptr_def array_header_def Let_def)
qed

theorem event_array_roundtrip_witness:
  "\<exists>ev'. switch_event_add_header_string blank_event SWITCH_STACK_BOTTOM ''x'' (Some ''ARRAY::a|:b|:c'') = Inr (SWITCH_STATUS_SUCCESS, ev') \<and>
     switch_event_get_header_idx ev' ''x'' 1 = Some ''b''"
proof -
  have p: "plain_name ''x''" "plain_data ''a''" by code_simp+
  have q: "\<forall>z \<in> set [''a'', ''b'', ''c'']. strstr z ''|:'' = None" by code_simp
  have b: "length (ev_headers blank_event) < 1000000" "switch_event_get_header_ptr blank_event (Some ''x'') = None"
    by (simp_all add: blank_event_def switch_event_get_header_ptr_def)
  obtain ev' where e: "switch_event_add_header_string blank_event SWITCH_STACK_BOTTOM ''x'' (Some (''ARRAY::'' @ join_bars [''a'', ''b'', ''c''])) =
      Inr (SWITCH_STATUS_SUCCESS, ev')"
      "\<forall>i. switch_event_get_header_idx ev' ''x'' (int i) = (if i < length [''a'', ''b'', ''c''] then Some ([''a'', ''b'', ''c''] ! i) else None)"
    using event_array_roundtrip [OF p _ _ q b(1)] b(2) by blast
  then show ?thesis using spec [OF e(2), of 1] by simp
qed

text \<open>What a copy can rely on: plain headers, and arrays whose first element is plain, with the hashes and values the
  operations give them.\<close>

definition copies :: "event_header \<Rightarrow> bool" where
  "copies hp \<longleftrightarrow> plain_name (h_name hp) \<and>
     (\<exists>v. v \<noteq> [] \<and> plain_data v \<and>
        (hp = plain_header (h_name hp) v \<or> (\<exists>ys. hp = array_header (h_name hp) (v # ys))))"

text \<open>No array, and on an event with unique headers no header at all, comes after one of the same name up to case.\<close>

fun copy_order :: "bool \<Rightarrow> string list \<Rightarrow> event_header list \<Rightarrow> bool" where
  "copy_order uniq seen [] = True"
| "copy_order uniq seen (hp # hps) =
     ((uniq \<or> h_array hp \<noteq> [] \<longrightarrow> map ascii_lower (h_name hp) \<notin> set seen) \<and>
      copy_order uniq (seen @ [map ascii_lower (h_name hp)]) hps)"

lemma copies_hashed: "copies hp \<Longrightarrow> hashed hp"
  by (auto simp: copies_def hashed_def array_header_def plain_header_def dest: arg_cong [of hp _ h_hash])

lemma copy_header_copies:
  assumes "copies hp" and "length (ev_headers ev) < 1000000"
    and new: "ev_flags ev AND EF_UNIQ_HEADERS \<noteq> 0 \<or> h_array hp \<noteq> [] \<longrightarrow> (\<forall>h \<in> set (ev_headers ev). \<not> header_is (h_name hp) h)"
  shows "copy_header (h_name hp, hp) ev = Inr (ev\<lparr>ev_headers := ev_headers ev @ [hp]\<rparr>)"
proof -
  obtain v where v: "plain_name (h_name hp)" "v \<noteq> []" "plain_data v"
      and form: "hp = plain_header (h_name hp) v \<or> (\<exists>ys. hp = array_header (h_name hp) (v # ys))"
    using assms(1) by (auto simp: copies_def)
  from form show ?thesis
  proof
    assume hp: "hp = plain_header (h_name hp) v"
    have "(if ev_flags ev AND EF_UNIQ_HEADERS \<noteq> 0 then filter (\<lambda>h. \<not> header_is (h_name hp) h) (ev_headers ev) else ev_headers ev) = ev_headers ev"
      using new by (simp add: filter_id_conv)
    then have "put_header (ev_flags ev AND EF_UNIQ_HEADERS \<noteq> 0) False (h_name hp) v (ev_headers ev) =
        ev_headers ev @ [plain_header (h_name hp) v]" using v(2) by (simp add: put_header_def Let_def)
    then have "switch_event_base_add_header SWITCH_STACK_BOTTOM (h_name hp) v ev = Inr (ev\<lparr>ev_headers := ev_headers ev @ [plain_header (h_name hp) v]\<rparr>)"
      using base_add_plain [OF v(1,3) assms(2), of SWITCH_STACK_BOTTOM False] by simp
    moreover have "h_array hp = []" "h_value hp = Some v" by (subst hp, simp add: plain_header_def)+
    ultimately show ?thesis using hp by (simp add: copy_header_def add_string_def switch_event_add_header_string_def)
  next
    assume "\<exists>ys. hp = array_header (h_name hp) (v # ys)"
    then obtain ys where hp: "hp = array_header (h_name hp) (v # ys)" ..
    have arr: "h_array hp = v # ys" by (subst hp, simp add: array_header_def)
    then have "\<forall>h \<in> set (ev_headers ev). \<not> header_is (h_name hp) h" using new by simp
    from add_elements_new [OF v(1,3,2) assms(2) this, of ys] arr hp show ?thesis
      by (simp add: copy_header_def add_elements_run del: list.map run_ops.simps)
  qed
qed

lemma copy_headers_run:
  assumes "\<forall>hp \<in> set hps. copies hp" and "\<forall>hp \<in> set (ev_headers ev). hashed hp"
    and "copy_order (ev_flags ev AND EF_UNIQ_HEADERS \<noteq> 0) (map (\<lambda>hp. map ascii_lower (h_name hp)) (ev_headers ev)) hps"
    and "length (ev_headers ev @ hps) < 1000000"
  shows "run_ops copy_header (map (\<lambda>hp. (h_name hp, hp)) hps) ev = Inr (ev\<lparr>ev_headers := ev_headers ev @ hps\<rparr>)"
  using assms
proof (induction hps arbitrary: ev)
  case (Cons hp hps)
  have "ev_flags ev AND EF_UNIQ_HEADERS \<noteq> 0 \<or> h_array hp \<noteq> [] \<longrightarrow> (\<forall>h \<in> set (ev_headers ev). \<not> header_is (h_name hp) h)"
    using Cons.prems(2,3) by (auto simp: header_is_hashed intro: rev_image_eqI)
  then have "copy_header (h_name hp, hp) ev = Inr (ev\<lparr>ev_headers := ev_headers ev @ [hp]\<rparr>)"
    using copy_header_copies [of hp ev] Cons.prems(1,4) by simp
  moreover have "\<forall>h \<in> set (ev_headers ev @ [hp]). hashed h" using Cons.prems(1,2) copies_hashed by auto
  ultimately show ?case using Cons.IH [of "ev\<lparr>ev_headers := ev_headers ev @ [hp]\<rparr>"] Cons.prems by simp
qed simp

lemmas event_type_defs = SWITCH_EVENT_CLONE_def SWITCH_EVENT_REQUEST_PARAMS_def SWITCH_EVENT_CHANNEL_DATA_def SWITCH_EVENT_MESSAGE_def

text \<open>The headers of the copy: that of the subclass comes first, wherever it was.\<close>

definition dup_headers :: "event \<Rightarrow> event_header list" where
  "dup_headers ev = (case ev_subclass_name ev of
       None \<Rightarrow> ev_headers ev
     | Some sub \<Rightarrow> plain_header ''Event-Subclass'' sub # filter (\<lambda>hp. h_name hp \<noteq> ''Event-Subclass'') (ev_headers ev))"



text \<open>
  Departures from what the operations are meant to do. Replacing an element by its index does not draw the value of
  the header again. The marker of an array is looked for anywhere in the text, but seven characters are cut from its front;
  empty elements at the front of an array are lost; text that is only the marker sets nothing.
\<close>

lemma index_replace_stale:
  "(case switch_event_base_add_header SWITCH_STACK_BOTTOM ''x[0]'' ''c'' (blank_event\<lparr>ev_headers := [array_header ''x'' [''a'', ''b'']]\<rparr>) of
      Inl _ \<Rightarrow> False
    | Inr ev \<Rightarrow> switch_event_get_header_idx ev ''x'' 0 = Some ''c'' \<and> switch_event_get_header ev ''x'' = Some ''ARRAY::a|:b'')"
  by code_simp

lemma array_marker_anywhere:
  "(case switch_event_base_add_header SWITCH_STACK_BOTTOM ''x'' ''see ARRAY::'' blank_event of
      Inl _ \<Rightarrow> False | Inr ev \<Rightarrow> switch_event_get_header ev ''x'' = Some ''AY::'')"
  by code_simp

lemma array_leading_empty:
  "(case switch_event_base_add_header SWITCH_STACK_BOTTOM ''x'' ''ARRAY::|:b'' blank_event of
      Inl _ \<Rightarrow> False | Inr ev \<Rightarrow> switch_event_get_header ev ''x'' = Some ''b'')"
  by code_simp

lemma array_marker_only:
  "switch_event_base_add_header SWITCH_STACK_BOTTOM ''x'' ''ARRAY::'' blank_event = Inr blank_event"
  by code_simp

end
