(* ===== verification/FS_EventText.thy ===== *)
theory FS_EventText
  imports FS_Event
begin

text \<open>
  The text form of an event, \<open>switch_event_serialize\<close> in \<^verbatim>\<open>src/src/lib/libfreeswitch/switch_event.c\<close>: one line for every
  header, its value percent-encoded or in brackets, then the body. The text grows in a buffer that is
  enlarged before each line by an estimate, and every line is printed into what is left of it; the
  values are encoded in a second buffer of an estimated size. What new memory holds is given by a
  character. The lengths are those of objects in memory, so their sums do not wrap.
\<close>

section \<open>The printer\<close>

text \<open>\<open>switch_snprintf\<close> into a whole buffer: what does not fit is cut, and the text is terminated.\<close>

definition print_into :: "string \<Rightarrow> string \<Rightarrow> string c" where
  "print_into mem s = mem_write mem 0 (take (length mem - 1) s @ [NUL])"

definition encode_room :: "event_header \<Rightarrow> string \<Rightarrow> nat" where
  "encode_room hp v = (if h_array hp \<noteq> [] then sum_list (map (\<lambda>x. length x * 3 + 1) (h_array hp)) else length v * 3 + 1)"

definition encode_value :: "bool \<Rightarrow> string \<Rightarrow> string \<Rightarrow> string c" where
  "encode_value encode v mem =
     (if encode then
        bindE (switch_url_encode (Some v) (Some mem) (length mem)) (\<lambda>r.
          Inr (case r of None \<Rightarrow> mem | Some mem' \<Rightarrow> mem'))
      else print_into mem (''['' @ v @ '']''))"

text \<open>\<open>grow dlen len llen\<close> is the size of the text buffer when \<open>llen\<close> more bytes are to follow \<open>len\<close>.\<close>

definition grow :: "nat \<Rightarrow> nat \<Rightarrow> nat \<Rightarrow> nat" where
  "grow dlen len llen = (if len + llen > dlen then dlen + (512 + (len + llen)) else dlen)"

definition print_at_end :: "nat \<Rightarrow> string \<Rightarrow> string \<Rightarrow> string" where
  "print_at_end dlen sofar s = sofar @ take (dlen - length sofar - 1) s"

fun serialize_headers :: "bool \<Rightarrow> char \<Rightarrow> event_header list \<Rightarrow> string \<Rightarrow> string \<Rightarrow> nat \<Rightarrow> (string \<times> nat) c" where
  "serialize_headers encode fill [] mem sofar dlen = Inr (sofar, dlen)"
| "serialize_headers encode fill (hp # hps) mem sofar dlen =
     (case h_value hp of
        None \<Rightarrow> Inl Null_Deref
      | Some v \<Rightarrow>
          bindE (encode_value encode v (mem @ replicate (encode_room hp v - length mem) fill)) (\<lambda>mem.
            let e = cstr mem;
                dlen = grow dlen (length sofar) (length (h_name hp) + length e + 8)
            in serialize_headers encode fill hps mem
                 (print_at_end dlen sofar (h_name hp @ '': '' @ (if e = [] then ''_undef_'' else e) @ [chr 10])) dlen))"

definition serialize_body :: "string option \<Rightarrow> string \<Rightarrow> nat \<Rightarrow> string" where
  "serialize_body body sofar dlen =
     (case body of
        None \<Rightarrow> print_at_end dlen sofar [chr 10]
      | Some b \<Rightarrow>
          if b \<noteq> [] then
            print_at_end (grow dlen (length sofar) (length b + 25)) sofar
              (''Content-Length: '' @ decimal (length b) @ [chr 10, chr 10] @ b)
          else print_at_end (grow dlen (length sofar) (length b + 5)) sofar [chr 10])"

definition switch_event_serialize :: "char \<Rightarrow> event \<Rightarrow> bool \<Rightarrow> (switch_status_t \<times> string) c" where
  "switch_event_serialize fill ev encode =
     bindE (serialize_headers encode fill (ev_headers ev) (replicate 1536 fill) [] 1024) (\<lambda>(sofar, dlen).
       Inr (SWITCH_STATUS_SUCCESS, serialize_body (ev_body ev) sofar dlen))"

section \<open>Nothing is cut\<close>

lemma url_encode_loop_length:
  "url_encode_loop ps x len buf = Inr buf' \<Longrightarrow> length buf' = length buf"
proof (induction ps x len buf rule: url_encode_loop.induct)
  case (2 p ps x len buf)
  then show ?case by (auto simp: bindE_eq_Inr mem_write_def split: if_splits)
qed (auto simp: mem_write_def split: if_splits)

definition value_text :: "bool \<Rightarrow> string \<Rightarrow> string" where
  "value_text encode v = (if encode then url_enc v else ''['' @ v @ '']'')"

lemma encode_url_fits:
  assumes "NUL \<notin> set v" and "3 * length v < length mem" and "length mem < size_mod"
  shows "\<exists>mem'. encode_value True v mem = Inr mem' \<and> cstr mem' = url_enc v \<and> length mem' = length mem"
proof -
  have sz: "size_sub (length mem) 1 = length mem - 1" using assms(2,3) by (intro size_sub_small) simp_all
  have "length ([] :: string) + length mem = Suc (length mem - 1)" using assms(2) by simp
  then obtain k r' where e: "url_encode_loop v 0 (length mem - 1) ([] @ mem) = Inr ([] @ url_enc (take k v) @ NUL # r')"
      "0 + length (url_enc v) \<le> length mem - 1 \<longrightarrow> k = length v"
    using url_encode_loop_eq [of 0 "[]" "length mem - 1" mem v] by auto
  have "take k v = v" using e(2) length_url_enc [of v] assms(2) by simp
  then have r: "url_encode_loop v 0 (length mem - 1) mem = Inr (url_enc v @ NUL # r')" using e(1) by simp
  have c: "cstr (url_enc v @ NUL # r') = url_enc v" by (rule cstr_append) (rule url_enc_no_NUL [OF assms(1)])
  show ?thesis using url_encode_loop_length [OF r] c unfolding encode_value_def switch_url_encode_def sz option.case r bindE_simps
    by (simp add: r)
qed

lemma encode_brackets_fits:
  assumes "NUL \<notin> set v" and "length v + 2 < length mem"
  shows "\<exists>mem'. encode_value False v mem = Inr mem' \<and> cstr mem' = ''['' @ v @ '']'' \<and> length mem' = length mem"
proof -
  define t where "t = ''['' @ v @ '']''"
  have l: "length t < length mem" using assms(2) by (simp add: t_def)
  then have p: "print_into mem t = Inr (t @ NUL # drop (Suc (length t)) mem)" by (simp add: print_into_def mem_write_def)
  have "NUL \<notin> set t" using assms(1) by (simp add: t_def NUL_def chr_def char_of_def)
  then have "cstr (t @ NUL # drop (Suc (length t)) mem) = t" by (rule cstr_append)
  then show ?thesis using p l unfolding encode_value_def t_def [symmetric] by simp
qed

lemma encode_value_fits:
  assumes "NUL \<notin> set v" and "v \<noteq> []" and "3 * length v < length mem" and "1536 \<le> length mem" and "length mem < size_mod"
  shows "\<exists>mem'. encode_value encode v mem = Inr mem' \<and> cstr mem' = value_text encode v \<and> length mem' = length mem"
proof (cases encode)
  case True
  then show ?thesis using encode_url_fits [OF assms(1,3,5)] by (simp add: value_text_def)
next
  case False
  have "length v + 2 < length mem" using assms(3,4) by linarith
  then show ?thesis using False encode_brackets_fits [OF assms(1)] by (simp add: value_text_def)
qed

text \<open>A header with a value of its own, of a size that memory can hold, and the line it is printed as.\<close>

definition printable :: "event_header \<Rightarrow> bool" where
  "printable hp \<longleftrightarrow> h_array hp = [] \<and>
     (case h_value hp of None \<Rightarrow> False | Some v \<Rightarrow> v \<noteq> [] \<and> NUL \<notin> set v \<and> 3 * length v + 1 < size_mod)"

definition header_line :: "bool \<Rightarrow> event_header \<Rightarrow> string" where
  "header_line encode hp = h_name hp @ '': '' @ value_text encode (case h_value hp of None \<Rightarrow> [] | Some v \<Rightarrow> v) @ [chr 10]"

lemma value_text_nonempty: "v \<noteq> [] \<Longrightarrow> value_text encode v \<noteq> []"
  using length_url_enc_char(2) [of "hd v"] by (cases v) (auto simp: value_text_def url_enc_def)

lemma print_at_end_fits: "length sofar + length s < dlen \<Longrightarrow> print_at_end dlen sofar s = sofar @ s"
  by (simp add: print_at_end_def)

lemma serialize_headers_lines:
  assumes "\<forall>hp \<in> set hps. printable hp" and "1536 \<le> length mem" and "length mem < size_mod" and "length sofar + 5 \<le> dlen"
  shows "\<exists>dlen'. serialize_headers encode fill hps mem sofar dlen = Inr (sofar @ concat (map (header_line encode) hps), dlen') \<and>
    length (sofar @ concat (map (header_line encode) hps)) + 5 \<le> dlen'"
  using assms
proof (induction hps arbitrary: mem sofar dlen)
  case (Cons hp hps)
  obtain v where v: "h_value hp = Some v" "v \<noteq> []" "NUL \<notin> set v" "3 * length v + 1 < size_mod" "h_array hp = []"
    using Cons.prems(1) by (auto simp: printable_def split: option.splits)
  define m where "m = mem @ replicate (encode_room hp v - length mem) fill"
  have m: "3 * length v < length m" "1536 \<le> length m" "length m < size_mod"
    using v(4,5) Cons.prems(2,3) by (auto simp: m_def encode_room_def)
  obtain m' where m': "encode_value encode v m = Inr m'" "cstr m' = value_text encode v" "length m' = length m"
    using encode_value_fits [OF v(3,2) m] by blast
  define d where "d = grow dlen (length sofar) (length (h_name hp) + length (value_text encode v) + 8)"
  define line where "line = h_name hp @ '': '' @ value_text encode v @ [chr 10]"
  have line: "header_line encode hp = line" using v(1) by (simp add: header_line_def line_def)
  have d: "length sofar + length line + 5 \<le> d" by (simp add: d_def grow_def line_def)
  then have "print_at_end d sofar line = sofar @ line" by (intro print_at_end_fits) simp
  then have step: "serialize_headers encode fill (hp # hps) mem sofar dlen = serialize_headers encode fill hps m' (sofar @ line) d"
    using m' v(1) value_text_nonempty [OF v(2)] by (simp add: d_def line_def m_def Let_def)
  have "\<exists>dlen'. serialize_headers encode fill hps m' (sofar @ line) d = Inr ((sofar @ line) @ concat (map (header_line encode) hps), dlen') \<and>
      length ((sofar @ line) @ concat (map (header_line encode) hps)) + 5 \<le> dlen'"
    using Cons.IH [of m' "sofar @ line" d] Cons.prems(1) m m'(3) d by simp
  then show ?case unfolding step line by (simp add: line)
qed auto

definition body_text :: "string option \<Rightarrow> string" where
  "body_text body = (case body of
     Some (c # b) \<Rightarrow> ''Content-Length: '' @ decimal (length (c # b)) @ [chr 10, chr 10] @ (c # b) | _ \<Rightarrow> [chr 10])"

lemma serialize_body_text:
  assumes "length sofar + 5 \<le> dlen" and "case body of None \<Rightarrow> True | Some b \<Rightarrow> length b < 10 ^ 6"
  shows "serialize_body body sofar dlen = sofar @ body_text body"
proof (cases "body = None \<or> body = Some []")
  case True
  then show ?thesis using assms(1) by (auto simp: serialize_body_def body_text_def print_at_end_def grow_def)
next
  case False
  then obtain c b where b: "body = Some (c # b)" by (cases body) (auto simp: neq_Nil_conv)
  have "length (decimal (length (c # b))) \<le> 6" using assms(2) decimal_length [of "length (c # b)" 5] b by simp
  then show ?thesis unfolding b serialize_body_def body_text_def option.case list.case
    by (subst print_at_end_fits) (auto simp: grow_def)
qed

lemma value_text_one_line: "chr 10 \<notin> set (url_enc v)"
proof -
  have p: "chr 10 \<noteq> CHR ''%''" by (simp add: chr_def char_of_def)
  have h: "chr 10 \<noteq> hexdigits ! n" if "n < 16" for n
  proof
    assume "chr 10 = hexdigits ! n"
    then have "code (hexdigits ! n) = 10" using code_chr [of 10] by simp
    then show False using hexdigit(2) [OF that] by (simp split: if_splits)
  qed
  have u: "url_escaped (chr 10)" by (simp add: url_escaped_def)
  have "chr 10 \<notin> set (url_enc_char c)" for c
  proof (cases "url_escaped c")
    case True
    then show ?thesis using p h [of "code c div 16 mod 16"] h [of "code c mod 16"] by (simp add: url_enc_char_def)
  next
    case False
    then have "chr 10 \<noteq> c" using u by blast
    then show ?thesis using False by (simp add: url_enc_char_def)
  qed
  then show ?thesis by (simp add: url_enc_def)
qed

section \<open>Properties\<close>

text \<open>C16. The text of an event whose headers have values of their own, and whose body is shorter than a million bytes,
  is exactly one line for each header, in order, and then the body with its length: nothing is cut and nothing
  is written outside the buffers. In the encoded form no value breaks its line, and decoding gives it back.\<close>

theorem event_serialize_text:
  assumes "\<forall>hp \<in> set (ev_headers ev). printable hp" and "case ev_body ev of None \<Rightarrow> True | Some b \<Rightarrow> length b < 10 ^ 6"
  shows "switch_event_serialize fill ev encode =
      Inr (SWITCH_STATUS_SUCCESS, concat (map (header_line encode) (ev_headers ev)) @ body_text (ev_body ev)) \<and>
    chr 10 \<notin> set (value_text True v) \<and> switch_url_decode (Some (value_text True v)) = Some v"
proof -
  have "length (replicate 1536 fill) < size_mod" by (simp add: size_mod_def)
  then obtain dlen where "serialize_headers encode fill (ev_headers ev) (replicate 1536 fill) [] 1024 =
      Inr ([] @ concat (map (header_line encode) (ev_headers ev)), dlen)"
      "length ([] @ concat (map (header_line encode) (ev_headers ev))) + 5 \<le> dlen"
    using serialize_headers_lines [OF assms(1), of "replicate 1536 fill" "[]" 1024 encode fill] by auto
  then show ?thesis using serialize_body_text [OF _ assms(2)] value_text_one_line [of v]
    by (simp add: switch_event_serialize_def value_text_def switch_url_decode_def url_decode_enc)
qed

theorem event_serialize_text_witness:
  "switch_event_serialize NUL (blank_event\<lparr>ev_headers := [plain_header ''a'' ''b c''], ev_body := Some ''hi''\<rparr>) True =
     Inr (SWITCH_STATUS_SUCCESS, ''a: b%20c'' @ [chr 10] @ ''Content-Length: 2'' @ [chr 10, chr 10] @ ''hi'')"
proof -
  let ?ev = "blank_event\<lparr>ev_headers := [plain_header ''a'' ''b c''], ev_body := Some ''hi''\<rparr>"
  have "printable (plain_header ''a'' ''b c'')" by (simp add: printable_def plain_header_def NUL_def chr_def char_of_def size_mod_def)
  moreover have "header_line True (plain_header ''a'' ''b c'') = ''a: b%20c'' @ [chr 10]" by code_simp
  moreover have "body_text (Some ''hi'') = ''Content-Length: 2'' @ [chr 10, chr 10] @ ''hi''" by code_simp
  ultimately show ?thesis using event_serialize_text [of ?ev NUL True "[]"] by simp
qed

text \<open>
  The room for the value of an array is estimated from its elements, without the marker and the separators: the value
  of an array of many short elements is cut in the text.
\<close>

lemma url_encode_loop_NUL: "url_encode_loop ps x len buf = Inr buf' \<Longrightarrow> NUL \<in> set buf'"
proof (induction ps x len buf rule: url_encode_loop.induct)
  case (2 p ps x len buf)
  then show ?case by (auto simp: bindE_eq_Inr mem_write_def split: if_splits)
qed (auto simp: mem_write_def split: if_splits)

lemma cstr_shorter: "NUL \<in> set buf \<Longrightarrow> length (cstr buf) < length buf"
  by (induction buf) (auto simp: cstr_def)

lemma encode_value_bound:
  assumes "encode_value encode v mem = Inr mem'"
  shows "length (cstr mem') < length mem"
proof -
  have "NUL \<in> set mem' \<and> length mem' = length mem"
    using assms by (auto simp: encode_value_def switch_url_encode_def print_into_def mem_write_def bindE_eq_Inr
        dest: url_encode_loop_length url_encode_loop_NUL split: if_splits)
  then show ?thesis using cstr_shorter [of mem'] by simp
qed

lemma join_bars_blank: "length (join_bars (x # replicate n [])) = length x + 2 * n"
proof (induction n arbitrary: x)
  case (Suc n)
  then show ?case using Suc [of "[]"] by simp
qed simp

lemma array_value_cut:
  assumes "1600 \<le> n" and "length mem \<le> 1536"
    and "encode_value encode v (mem @ replicate (encode_room (array_header name (''a'' # replicate n [])) v - length mem) fill) = Inr mem'"
    and "h_value (array_header name (''a'' # replicate n [])) = Some v"
  shows "length (cstr mem') < length v"
proof -
  have "length v = 8 + 2 * n" using assms(1,4) by (auto simp: array_header_def drawn_def join_bars_blank)
  moreover have "encode_room (array_header name (''a'' # replicate n [])) v = n + 4"
    by (simp add: encode_room_def array_header_def sum_list_replicate)
  ultimately show ?thesis using encode_value_bound [OF assms(3)] assms(1,2) by simp
qed

end
