(* ===== verification/FS_HashMulti.thy ===== *)
theory FS_HashMulti
  imports FS_Event
begin

text \<open>
  The conditional removal of entries, \<open>switch_core_hash_delete_multi\<close> in
  \<^verbatim>\<open>src/src/lib/libfreeswitch/switch_core_hash.c\<close>: a walk over the table collects the keys the callback marks as
  headers of an event, and a walk over the headers removes them. The callback threads its private data.
  The walk over the table is bounded by fuel; one more than the number of entries is enough.
\<close>

type_synonym ('p, 'v) delete_callback = "string option \<Rightarrow> 'v option \<Rightarrow> 'p \<Rightarrow> bool \<times> 'p"

definition ask_callback :: "('p, 'v) delete_callback option \<Rightarrow> string option \<Rightarrow> 'v option \<Rightarrow> 'p \<Rightarrow> bool \<times> 'p" where
  "ask_callback callback key val pData = (case callback of None \<Rightarrow> (True, pData) | Some f \<Rightarrow> f key val pData)"

fun collect_keys :: "nat \<Rightarrow> ('p, 'v) delete_callback option \<Rightarrow> 'v switch_hash \<Rightarrow>
    (string, 'v) switch_hashtable_iterator option \<Rightarrow> event \<Rightarrow> 'p \<Rightarrow> (event \<times> 'p) c option" where
  "collect_keys 0 callback h hi ev pData = None"
| "collect_keys (Suc fuel) callback h None ev pData = Some (Inr (ev, pData))"
| "collect_keys (Suc fuel) callback h (Some hi) ev pData =
     (case switch_core_hash_this hi of (key, _, val) \<Rightarrow>
      case ask_callback callback key val pData of (marked, pData) \<Rightarrow>
      case (if marked then add_string SWITCH_STACK_BOTTOM (''delete'', key) ev else Inr ev) of
        Inl f \<Rightarrow> Some (Inl f)
      | Inr ev \<Rightarrow> collect_keys fuel callback h (switch_core_hash_next h hi) ev pData)"

fun delete_collected :: "event_header list \<Rightarrow> switch_status_t \<Rightarrow> (string, 'v) release list \<Rightarrow> 'v switch_hash \<Rightarrow>
    (switch_status_t \<times> (string, 'v) release list \<times> 'v switch_hash) c" where
  "delete_collected [] status rel h = Inr (status, rel, h)"
| "delete_collected (header # headers) status rel h =
     (case h_value header of
        None \<Rightarrow> Inl Null_Deref
      | Some key \<Rightarrow>
          (case switch_core_hash_delete h key of (r, rel', h') \<Rightarrow>
             delete_collected headers (if r = SWITCH_STATUS_SUCCESS then SWITCH_STATUS_SUCCESS else status) (rel @ rel') h'))"

definition switch_core_hash_delete_multi :: "nat \<Rightarrow> prep_facts \<Rightarrow> ('p, 'v) delete_callback option \<Rightarrow> 'v switch_hash \<Rightarrow> 'p \<Rightarrow>
    (switch_status_t \<times> (string, 'v) release list \<times> 'v switch_hash \<times> 'p) c option" where
  "switch_core_hash_delete_multi fuel pf callback h pData =
     (case switch_event_create_subclass pf SWITCH_EVENT_CLONE None of
        Inr (_, Some ev) \<Rightarrow>
          map_option (\<lambda>m. bindE m (\<lambda>(ev, pData).
              bindE (delete_collected (ev_headers ev) SWITCH_STATUS_GENERR [] h) (\<lambda>(status, rel, h).
                Inr (status, rel, h, pData))))
            (collect_keys fuel callback h (switch_core_hash_first h) ev pData)
      | Inr (_, None) \<Rightarrow> Some (Inl Assertion_Failed)
      | Inl f \<Rightarrow> Some (Inl f))"

section \<open>What is collected and removed\<close>

lemma add_delete_key:
  assumes "key \<noteq> []" and "plain_data key" and "ev_flags ev = 0"
  shows "add_string SWITCH_STACK_BOTTOM (''delete'', Some key) ev = Inr (ev\<lparr>ev_headers := ev_headers ev @ [plain_header ''delete'' key]\<rparr>)"
proof -
  have p: "plain_name ''delete''" by code_simp
  have n: "CHR ''['' \<notin> set ''delete''" "''delete'' \<noteq> ''_body''" "strstr key ''ARRAY::'' = None"
    using assms(2) by (simp_all add: plain_data_def)
  have "switch_event_base_add_header SWITCH_STACK_BOTTOM ''delete'' key ev =
      Inr (ev\<lparr>ev_headers := ev_headers ev @ [plain_header ''delete'' key]\<rparr>)"
    unfolding switch_event_base_add_header.simps [of SWITCH_STACK_BOTTOM "''delete''"] Let_def plain_name_take [OF p]
    using n assms(1,3) by (simp add: plain_header_def new_header_def link_header_def Let_def)
  then show ?thesis by (simp add: add_string_def switch_event_add_header_string_def)
qed

definition marked_keys :: "(string \<Rightarrow> 'v option \<Rightarrow> bool) \<Rightarrow> (string, 'v) entry list \<Rightarrow> string list" where
  "marked_keys want es = map e_k (filter (\<lambda>e. want (e_k e) (e_v e)) es)"

lemma collect_keys_spec:
  assumes len: "length (ht_table h) = ht_tablelength h"
    and want: "\<And>key val p. fst (ask_callback callback (Some key) val p) = want key val"
  shows "it_ok h io \<Longrightarrow> length (it_rest h io) < fuel \<Longrightarrow> ev_flags ev = 0 \<Longrightarrow>
    \<forall>e \<in> set (it_rest h io). e_k e \<noteq> [] \<and> plain_data (e_k e) \<Longrightarrow>
    \<exists>pData'. collect_keys fuel callback h io ev pData =
      Some (Inr (ev\<lparr>ev_headers := ev_headers ev @ map (plain_header ''delete'') (marked_keys want (it_rest h io))\<rparr>, pData'))"
proof (induction fuel arbitrary: io ev pData)
  case (Suc fuel)
  show ?case
  proof (cases io)
    case None
    then show ?thesis by (simp add: it_rest_def marked_keys_def)
  next
    case (Some i)
    define e where "e = hd (it_e i)"
    note n = switch_hashtable_next_spec [OF len Suc.prems(1) [unfolded Some]]
    have at_i: "switch_core_hash_this i = (Some (e_k e), length (e_k e), e_v e)"
      using Suc.prems(1) Some by (auto simp: it_ok_def switch_core_hash_this_def switch_hashtable_this_def e_def split: list.split)
    obtain p where p: "ask_callback callback (Some (e_k e)) (e_v e) pData = (want (e_k e) (e_v e), p)"
      using want [of "e_k e" "e_v e" pData] by (cases "ask_callback callback (Some (e_k e)) (e_v e) pData") simp
    define ev1 where "ev1 = (if want (e_k e) (e_v e) then ev\<lparr>ev_headers := ev_headers ev @ [plain_header ''delete'' (e_k e)]\<rparr> else ev)"
    have ok: "e_k e \<noteq> []" "plain_data (e_k e)" using Suc.prems(4) n Some by (simp_all add: e_def)
    have "(if want (e_k e) (e_v e) then add_string SWITCH_STACK_BOTTOM (''delete'', Some (e_k e)) ev else Inr ev) = Inr ev1"
      using add_delete_key [OF ok Suc.prems(3)] by (simp add: ev1_def)
    then have step: "collect_keys (Suc fuel) callback h io ev pData = collect_keys fuel callback h (switch_hashtable_next h i) ev1 p"
      using at_i p Some by (simp add: switch_core_hash_next_def)
    have rest: "it_rest h io = e # it_rest h (switch_hashtable_next h i)" using n Some by (simp add: e_def)
    have "ev_flags ev1 = 0" using Suc.prems(3) by (simp add: ev1_def)
    then obtain p' where "collect_keys fuel callback h (switch_hashtable_next h i) ev1 p =
        Some (Inr (ev1\<lparr>ev_headers := ev_headers ev1 @ map (plain_header ''delete'') (marked_keys want (it_rest h (switch_hashtable_next h i)))\<rparr>, p'))"
      using Suc.IH [of "switch_hashtable_next h i" ev1 p] n Suc.prems(2,4) rest by auto
    then show ?thesis unfolding step rest by (auto simp: ev1_def marked_keys_def)
  qed
qed simp

lemma delete_collected_spec:
  assumes "ht_wf canon h"
  shows "\<exists>rel' h'. delete_collected (map (plain_header ''delete'') ks) status rel h =
      Inr (if ks = [] then status else SWITCH_STATUS_SUCCESS, rel', h') \<and> ht_wf canon h' \<and>
    ht_map canon h' = (\<lambda>c. if c \<in> canon ` set ks then None else ht_map canon h c)"
  using assms
proof (induction ks arbitrary: h status rel)
  case (Cons k ks)
  obtain r1 h1 where h1: "switch_core_hash_delete h k = (SWITCH_STATUS_SUCCESS, r1, h1)" "ht_wf canon h1"
      "ht_map canon h1 = (ht_map canon h)(canon k := None)"
    using switch_core_hash_delete_spec [OF Cons.prems, of k] by blast
  obtain r2 h2 where "delete_collected (map (plain_header ''delete'') ks) SWITCH_STATUS_SUCCESS (rel @ r1) h1 =
      Inr (SWITCH_STATUS_SUCCESS, r2, h2)" "ht_wf canon h2"
      "ht_map canon h2 = (\<lambda>c. if c \<in> canon ` set ks then None else ht_map canon h1 c)"
    using Cons.IH [OF h1(2), of SWITCH_STATUS_SUCCESS "rel @ r1"] by (auto split: if_splits)
  moreover have "h_value (plain_header ''delete'' k) = Some k" by (simp add: plain_header_def)
  ultimately show ?case using h1 by (auto simp: fun_eq_iff)
qed auto

text \<open>C13. On a table whose keys are neither empty nor array text, with a callback whose verdict depends only on the key and the value, the
  conditional removal ends and takes out exactly the entries the callback marks, or all when there is none; every other key keeps its value. It reports success exactly
  when something was marked.\<close>

theorem hash_delete_multi_exact:
  assumes "ht_wf canon h" and "\<forall>e \<in> set (ht_entries h). e_k e \<noteq> [] \<and> plain_data (e_k e)"
    and "\<And>key val p. fst (ask_callback callback (Some key) val p) = want key val"
  shows "\<exists>status rel h' pData'.
    switch_core_hash_delete_multi (Suc (length (ht_entries h))) pf callback h pData = Some (Inr (status, rel, h', pData')) \<and>
    ht_wf canon h' \<and> (status = SWITCH_STATUS_SUCCESS \<longleftrightarrow> (\<exists>e \<in> set (ht_entries h). want (e_k e) (e_v e))) \<and>
    (\<forall>k. switch_core_hash_find h' k =
       (if \<exists>e \<in> set (ht_entries h). canon (e_k e) = canon k \<and> want (e_k e) (e_v e) then None else switch_core_hash_find h k))"
proof -
  have len: "length (ht_table h) = ht_tablelength h" using assms(1) by (simp add: ht_wf_def ht_str_def ht_placed_def)
  have make: "switch_event_create_subclass pf SWITCH_EVENT_CLONE None = Inr (SWITCH_STATUS_SUCCESS, Some blank_event)"
    by (simp add: switch_event_create_subclass_def event_type_defs)
  define ks where "ks = marked_keys want (ht_entries h)"
  obtain p' where c: "collect_keys (Suc (length (ht_entries h))) callback h (switch_hashtable_first_iter h) blank_event pData =
      Some (Inr (blank_event\<lparr>ev_headers := ev_headers blank_event @ map (plain_header ''delete'') ks\<rparr>, p'))"
    using collect_keys_spec [where want = want and callback = callback, OF len assms(3) first_iter_spec(1) [OF len], of _ blank_event pData]
      first_iter_spec(2) [OF len] assms(2) by (auto simp: ks_def blank_event_def)
  obtain rel h' where d: "delete_collected (map (plain_header ''delete'') ks) SWITCH_STATUS_GENERR [] h =
      Inr (if ks = [] then SWITCH_STATUS_GENERR else SWITCH_STATUS_SUCCESS, rel, h')" "ht_wf canon h'"
      "ht_map canon h' = (\<lambda>c. if c \<in> canon ` set ks then None else ht_map canon h c)"
    using delete_collected_spec [OF assms(1), of ks SWITCH_STATUS_GENERR "[]"] by blast
  have run: "switch_core_hash_delete_multi (Suc (length (ht_entries h))) pf callback h pData =
      Some (Inr (if ks = [] then SWITCH_STATUS_GENERR else SWITCH_STATUS_SUCCESS, rel, h', p'))"
    using make c d(1) by (simp add: switch_core_hash_delete_multi_def switch_core_hash_first_def blank_event_def)
  have mem: "canon k \<in> canon ` set ks \<longleftrightarrow> (\<exists>e \<in> set (ht_entries h). canon (e_k e) = canon k \<and> want (e_k e) (e_v e))" for k
  proof
    assume "canon k \<in> canon ` set ks"
    then show "\<exists>e \<in> set (ht_entries h). canon (e_k e) = canon k \<and> want (e_k e) (e_v e)"
      by (auto simp: ks_def marked_keys_def)
  next
    assume "\<exists>e \<in> set (ht_entries h). canon (e_k e) = canon k \<and> want (e_k e) (e_v e)"
    then obtain e where e: "e \<in> set (ht_entries h)" "canon k = canon (e_k e)" "want (e_k e) (e_v e)" by auto
    then have "e_k e \<in> set ks" by (auto simp: ks_def marked_keys_def)
    then show "canon k \<in> canon ` set ks" unfolding e(2) by (rule imageI)
  qed
  have "ks = [] \<longleftrightarrow> \<not> (\<exists>e \<in> set (ht_entries h). want (e_k e) (e_v e))"
    by (auto simp: ks_def marked_keys_def filter_empty_conv)
  then have status: "(if ks = [] then SWITCH_STATUS_GENERR else SWITCH_STATUS_SUCCESS) = SWITCH_STATUS_SUCCESS \<longleftrightarrow>
      (\<exists>e \<in> set (ht_entries h). want (e_k e) (e_v e))" by simp
  have find: "switch_core_hash_find h' k =
      (if \<exists>e \<in> set (ht_entries h). canon (e_k e) = canon k \<and> want (e_k e) (e_v e) then None else switch_core_hash_find h k)" for k
    unfolding switch_core_hash_find_spec [OF d(2)] switch_core_hash_find_spec [OF assms(1)] d(3) mem by auto
  show ?thesis using run d(2) status find by blast
qed

theorem hash_delete_multi_exact_witness:
  "\<exists>h :: nat switch_hash. switch_core_hash_find h ''a'' = Some 7 \<and>
     (\<forall>pf. \<exists>r. switch_core_hash_delete_multi (Suc (length (ht_entries h))) pf (None :: (unit, nat) delete_callback option) h () =
        Some (Inr (SWITCH_STATUS_SUCCESS, r)) \<and> switch_core_hash_find (fst (snd r)) ''a'' = None)"
proof -
  obtain h0 :: "nat switch_hash" where h0: "ht_wf (\<lambda>k. k) h0" "ht_map (\<lambda>k. k) h0 = Map.empty"
    using switch_core_hash_init_spec [of "\<lambda>k. k" True] by auto
  obtain h :: "nat switch_hash" where h: "ht_wf (\<lambda>k. k) h" "ht_map (\<lambda>k. k) h = [''a'' \<mapsto> Some 7]"
    using switch_core_hash_insert_spec [OF h0(1), of demo_mem "''a''" "Some 7"] h0(2) by (auto simp: demo_mem_def)
  have d: "distinct (map ((\<lambda>k. k) \<circ> e_k) (ht_entries h))" using h(1) by (simp add: ht_wf_def ht_str_def)
  have keys: "e_k e = ''a''" if "e \<in> set (ht_entries h)" for e
    using ht_map_Some_iff [OF d, of "e_k e" "e_v e"] that h(2) by (auto split: if_splits)
  have some: "\<exists>e \<in> set (ht_entries h). e_k e = ''a''" using ht_map_Some_iff [OF d, of "''a''" "Some 7"] h(2) by auto
  have a: "plain_data ''a''" by code_simp
  have "switch_core_hash_find h ''a'' = Some 7" using switch_core_hash_find_spec [OF h(1), of "''a''"] h(2) by simp
  moreover have "\<exists>r. switch_core_hash_delete_multi (Suc (length (ht_entries h))) pf (None :: (unit, nat) delete_callback option) h () =
      Some (Inr (SWITCH_STATUS_SUCCESS, r)) \<and> switch_core_hash_find (fst (snd r)) ''a'' = None" for pf
    using hash_delete_multi_exact [OF h(1), of "None :: (unit, nat) delete_callback option" "\<lambda>_ _. True" pf "()"] keys some a
    by (fastforce simp: ask_callback_def)
  ultimately show ?thesis by blast
qed

text \<open>A key that is empty unmarks all keys marked before it, which then stay in the table.\<close>

lemma delete_multi_empty_key:
  assumes "length ks < 1000000"
  shows "add_string SWITCH_STACK_BOTTOM (''delete'', Some []) (blank_event\<lparr>ev_headers := map (plain_header ''delete'') ks\<rparr>) = Inr blank_event"
proof -
  let ?ev = "blank_event\<lparr>ev_headers := map (plain_header ''delete'') ks\<rparr>"
  have "plain_name ''delete''" "plain_data []" by code_simp+
  then have "switch_event_base_add_header SWITCH_STACK_BOTTOM ''delete'' [] ?ev =
      Inr (?ev\<lparr>ev_headers := put_header (ev_flags ?ev AND EF_UNIQ_HEADERS \<noteq> 0) False ''delete'' [] (ev_headers ?ev)\<rparr>)"
    using assms by (intro base_add_plain) simp_all
  moreover have "put_header u False ''delete'' [] (map (plain_header ''delete'') ks) = []" for u
    by (simp add: put_header_def filter_empty_conv)
  ultimately show ?thesis by (simp add: add_string_def switch_event_add_header_string_def blank_event_def)
qed

end
