(* ===== verification/FS_EventBus.thy ===== *)
theory FS_EventBus
  imports FS_Event
begin

text \<open>
  Bindings and delivery of events, \<^verbatim>\<open>src/src/lib/libfreeswitch/switch_event.c\<close>: the registry of subclasses, a core hash
  of pointers to records that are changed in place; the array of lists of bindings, one list for each
  event type; matching, delivery and the dispatch queue. A binding is a node with an address, so that
  it can be removed by its handle; a callback is known by its address. What callbacks do to the event
  and to the rest of the program is a parameter. Delivery holds the read lock, so the bindings do not
  change during it. Reading a node that was freed is a fault.
\<close>

section \<open>State\<close>

record event_node =
  en_addr :: nat
  en_id :: string
  en_event_id :: nat
  en_subclass_name :: "string option"
  en_callback :: nat
  en_user_data :: "nat option"

record event_subclass =
  es_owner :: string
  es_name :: string
  es_bind :: bool

record event_bus =
  eb_nodes :: "nat \<Rightarrow> event_node list"
  eb_custom :: "nat switch_hash"
  eb_subclasses :: "nat \<rightharpoonup> event_subclass"
  eb_fresh :: nat

section \<open>Subclasses\<close>

definition switch_event_free_subclass :: "string \<Rightarrow> string \<Rightarrow> event_bus \<Rightarrow> (switch_status_t \<times> event_bus) c" where
  "switch_event_free_subclass owner subclass_name b =
     (case switch_core_hash_find (eb_custom b) subclass_name of
        None \<Rightarrow> Inr (SWITCH_STATUS_FALSE, b)
      | Some p \<Rightarrow>
          (case eb_subclasses b p of
             None \<Rightarrow> Inl Wild_Pointer
           | Some s \<Rightarrow>
               if owner = es_owner s then
                 (case switch_core_hash_delete (eb_custom b) subclass_name of (_, _, h) \<Rightarrow>
                    Inr (SWITCH_STATUS_SUCCESS, b\<lparr>eb_custom := h, eb_subclasses := (eb_subclasses b)(p := None)\<rparr>))
               else Inr (SWITCH_STATUS_FALSE, b\<lparr>eb_subclasses := (eb_subclasses b)(p \<mapsto> s\<lparr>es_bind := True\<rparr>)\<rparr>)))"

definition switch_event_reserve_subclass :: "alloc_outcome \<Rightarrow> string \<Rightarrow> string \<Rightarrow> event_bus \<Rightarrow> (switch_status_t \<times> event_bus) c" where
  "switch_event_reserve_subclass m owner subclass_name b =
     (case switch_core_hash_find (eb_custom b) subclass_name of
        Some p \<Rightarrow>
          (case eb_subclasses b p of
             None \<Rightarrow> Inl Wild_Pointer
           | Some s \<Rightarrow>
               if es_bind s then Inr (SWITCH_STATUS_SUCCESS, b\<lparr>eb_subclasses := (eb_subclasses b)(p \<mapsto> s\<lparr>es_bind := False\<rparr>)\<rparr>)
               else Inr (SWITCH_STATUS_INUSE, b))
      | None \<Rightarrow>
          let p = eb_fresh b; s = \<lparr>es_owner = owner, es_name = subclass_name, es_bind = False\<rparr>
          in bindE (switch_core_hash_insert m (eb_custom b) (es_name s) (Some p)) (\<lambda>(_, _, h).
               Inr (SWITCH_STATUS_SUCCESS, b\<lparr>eb_custom := h, eb_subclasses := (eb_subclasses b)(p \<mapsto> s), eb_fresh := Suc p\<rparr>)))"

section \<open>Bindings\<close>

definition bind_subclass :: "alloc_outcome \<Rightarrow> string \<Rightarrow> string \<Rightarrow> event_bus \<Rightarrow> event_bus c" where
  "bind_subclass m owner_id subclass_name b =
     (case switch_core_hash_find (eb_custom b) subclass_name of
        Some _ \<Rightarrow> Inr b
      | None \<Rightarrow>
          bindE (switch_event_reserve_subclass m owner_id subclass_name b) (\<lambda>(_, b).
            case switch_core_hash_find (eb_custom b) subclass_name of
              None \<Rightarrow> Inl Null_Deref
            | Some p \<Rightarrow>
                (case eb_subclasses b p of
                   None \<Rightarrow> Inl Wild_Pointer
                 | Some s \<Rightarrow> Inr (b\<lparr>eb_subclasses := (eb_subclasses b)(p \<mapsto> s\<lparr>es_bind := True\<rparr>)\<rparr>))))"

definition switch_event_bind_removable :: "alloc_outcome \<Rightarrow> string \<Rightarrow> nat \<Rightarrow> string option \<Rightarrow> nat \<Rightarrow> nat option \<Rightarrow> event_bus \<Rightarrow>
    (switch_status_t \<times> nat option \<times> event_bus) c" where
  "switch_event_bind_removable m owner_id event subclass_name callback user_data b =
     bindE (case subclass_name of None \<Rightarrow> Inr b | Some sub \<Rightarrow> bind_subclass m owner_id sub b) (\<lambda>b.
       if event \<le> SWITCH_EVENT_ALL then
         let n = \<lparr>en_addr = eb_fresh b, en_id = owner_id, en_event_id = event, en_subclass_name = subclass_name,
                  en_callback = callback, en_user_data = user_data\<rparr>
         in Inr (SWITCH_STATUS_SUCCESS, Some (en_addr n),
                 b\<lparr>eb_nodes := (eb_nodes b)(event := n # eb_nodes b event), eb_fresh := Suc (eb_fresh b)\<rparr>)
       else Inr (SWITCH_STATUS_MEMERR, None, b))"

definition switch_event_bind :: "alloc_outcome \<Rightarrow> string \<Rightarrow> nat \<Rightarrow> string option \<Rightarrow> nat \<Rightarrow> nat option \<Rightarrow> event_bus \<Rightarrow>
    (switch_status_t \<times> event_bus) c" where
  "switch_event_bind m owner_id event subclass_name callback user_data b =
     bindE (switch_event_bind_removable m owner_id event subclass_name callback user_data b) (\<lambda>(status, _, b). Inr (status, b))"

text \<open>
  One list is walked with the nodes kept so far; a removed node without a predecessor makes its successor the head
  of the list of the type it is bound to.
\<close>

fun unbind_walk :: "nat \<Rightarrow> event_node list \<Rightarrow> event_node list \<Rightarrow> (nat \<Rightarrow> event_node list) \<Rightarrow> nat \<Rightarrow> bool \<Rightarrow> bool \<times> (nat \<Rightarrow> event_node list)" where
  "unbind_walk callback kept [] nodes i found = (found, nodes)"
| "unbind_walk callback kept (n # np) nodes i found =
     (if en_callback n = callback then
        (if kept \<noteq> [] then unbind_walk callback kept np (nodes(i := kept @ np)) i True
         else unbind_walk callback kept np (nodes(en_event_id n := np)) i True)
      else unbind_walk callback (kept @ [n]) np nodes i found)"

fun unbind_lists :: "nat \<Rightarrow> nat list \<Rightarrow> (nat \<Rightarrow> event_node list) \<Rightarrow> bool \<Rightarrow> bool \<times> (nat \<Rightarrow> event_node list)" where
  "unbind_lists callback [] nodes found = (found, nodes)"
| "unbind_lists callback (i # is) nodes found =
     (case unbind_walk callback [] (nodes i) nodes i found of (found, nodes) \<Rightarrow> unbind_lists callback is nodes found)"

definition switch_event_unbind_callback :: "nat \<Rightarrow> event_bus \<Rightarrow> switch_status_t \<times> event_bus" where
  "switch_event_unbind_callback callback b =
     (case unbind_lists callback [0..<Suc SWITCH_EVENT_ALL] (eb_nodes b) False of (found, nodes) \<Rightarrow>
        (if found then SWITCH_STATUS_SUCCESS else SWITCH_STATUS_FALSE, b\<lparr>eb_nodes := nodes\<rparr>))"

definition node_at :: "event_bus \<Rightarrow> nat \<Rightarrow> event_node option" where
  "node_at b a = find (\<lambda>n. en_addr n = a) (concat (map (eb_nodes b) [0..<Suc SWITCH_EVENT_ALL]))"

fun unlink_node :: "nat \<Rightarrow> event_node list \<Rightarrow> bool \<times> event_node list" where
  "unlink_node a [] = (False, [])"
| "unlink_node a (n # np) = (if en_addr n = a then (True, np) else case unlink_node a np of (f, np) \<Rightarrow> (f, n # np))"

definition switch_event_unbind :: "nat option \<Rightarrow> event_bus \<Rightarrow> (switch_status_t \<times> nat option \<times> event_bus) c" where
  "switch_event_unbind node b =
     (case node of
        None \<Rightarrow> Inr (SWITCH_STATUS_FALSE, None, b)
      | Some a \<Rightarrow>
          (case node_at b a of
             None \<Rightarrow> Inl Wild_Pointer
           | Some n \<Rightarrow>
               (case unlink_node a (eb_nodes b (en_event_id n)) of (found, np) \<Rightarrow>
                  Inr (if found then (SWITCH_STATUS_SUCCESS, None, b\<lparr>eb_nodes := (eb_nodes b)(en_event_id n := np)\<rparr>)
                       else (SWITCH_STATUS_FALSE, node, b)))))"

section \<open>Matching and delivery\<close>

definition subclass_match :: "event \<Rightarrow> string \<Rightarrow> string \<Rightarrow> bool \<Rightarrow> bool" where
  "subclass_match ev ev_sub node_sub match =
     (if strncasecmp_eq node_sub ''file:'' 5 then
        (case switch_event_get_header ev ''file'' of None \<Rightarrow> match | Some f \<Rightarrow> strstr (drop 5 node_sub) f \<noteq> None)
      else if strncasecmp_eq node_sub ''func:'' 5 then
        (case switch_event_get_header ev ''function'' of None \<Rightarrow> match | Some f \<Rightarrow> strstr (drop 5 node_sub) f \<noteq> None)
      else strstr ev_sub node_sub \<noteq> None)"

definition switch_events_match :: "event \<Rightarrow> event_node \<Rightarrow> bool" where
  "switch_events_match ev node =
     (let match = (en_event_id node = SWITCH_EVENT_ALL) in
      if match \<and> en_subclass_name node = None then match
      else if match \<or> ev_event_id ev = en_event_id node then
        (case (ev_subclass_name ev, en_subclass_name node) of
           (Some s, Some t) \<Rightarrow> subclass_match ev s t match
         | (_, None) \<Rightarrow> True
         | (None, Some _) \<Rightarrow> False)
      else match)"

fun deliver_list :: "(nat \<Rightarrow> event \<Rightarrow> 'w \<Rightarrow> event \<times> 'w) \<Rightarrow> event_node list \<Rightarrow> event \<Rightarrow> 'w \<Rightarrow> event \<times> 'w" where
  "deliver_list run [] ev w = (ev, w)"
| "deliver_list run (node # nodes) ev w =
     (if switch_events_match ev node
      then (case run (en_callback node) (ev\<lparr>ev_bind_user_data := en_user_data node\<rparr>) w of (ev, w) \<Rightarrow> deliver_list run nodes ev w)
      else deliver_list run nodes ev w)"

definition switch_event_deliver :: "(nat \<Rightarrow> event \<Rightarrow> 'w \<Rightarrow> event \<times> 'w) \<Rightarrow> bool \<Rightarrow> event_bus \<Rightarrow> event \<Rightarrow> 'w \<Rightarrow> 'w" where
  "switch_event_deliver run system_running b ev w =
     (if system_running then
        (case deliver_list run (eb_nodes b (ev_event_id ev)) ev w of (ev1, w) \<Rightarrow>
           if ev_event_id ev = SWITCH_EVENT_ALL then w
           else snd (deliver_list run (eb_nodes b SWITCH_EVENT_ALL) ev1 w))
      else w)"

section \<open>The dispatch queue\<close>

text \<open>The queue is of the runtime library; starting threads is a parameter.\<close>

record 'q dispatch =
  dq_queue :: 'q
  dq_soft_max :: u32
  dq_max :: u32
  dq_thread_count :: u32
  dq_pending :: nat

definition switch_event_queue_dispatch_event ::
    "(event \<Rightarrow> 'q \<Rightarrow> 'q) \<Rightarrow> ('q \<Rightarrow> u32) \<Rightarrow> (u32 \<Rightarrow> 'q dispatch \<Rightarrow> 'q dispatch) \<Rightarrow> bool \<Rightarrow> event option \<Rightarrow> 'q dispatch \<Rightarrow>
     switch_status_t \<times> event option \<times> 'q dispatch" where
  "switch_event_queue_dispatch_event push qsize launch system_running eventp d =
     (if \<not> system_running then (SWITCH_STATUS_FALSE, eventp, d)
      else
        (case eventp of
           None \<Rightarrow> (SWITCH_STATUS_SUCCESS, None, d)
         | Some ev \<Rightarrow>
             let more = (dq_pending d = 0 \<and> qsize (dq_queue d) > 10000 * dq_thread_count d \<and> dq_soft_max d + 1 > dq_max d);
                 d = (if more then d\<lparr>dq_pending := dq_pending d + 1\<rparr> else d);
                 d = (if more then
                        let d = (if dq_soft_max d + 1 < dq_max d then launch (dq_soft_max d + 1) d else d)
                        in d\<lparr>dq_pending := dq_pending d - 1\<rparr>
                      else d)
             in (SWITCH_STATUS_SUCCESS, None, d\<lparr>dq_queue := push ev (dq_queue d)\<rparr>)))"

section \<open>The bindings as one list\<close>

text \<open>The live bindings, newest first, and what the operations do to them.\<close>

datatype bus_op =
    Bus_Bind alloc_outcome string nat "string option" nat "nat option"
  | Bus_Unbind_Callback nat
  | Bus_Unbind "nat option"
  | Bus_Reserve alloc_outcome string string
  | Bus_Free string string

definition drop_status :: "('a \<times> event_bus) c \<Rightarrow> event_bus c" where
  "drop_status m = bindE m (\<lambda>(_, b). Inr b)"

fun bus_step :: "bus_op \<Rightarrow> event_bus \<Rightarrow> event_bus c" where
  "bus_step (Bus_Bind m owner_id event sub callback user_data) b = drop_status (switch_event_bind m owner_id event sub callback user_data b)"
| "bus_step (Bus_Unbind_Callback callback) b = Inr (snd (switch_event_unbind_callback callback b))"
| "bus_step (Bus_Unbind node) b = bindE (switch_event_unbind node b) (\<lambda>(_, _, b). Inr b)"
| "bus_step (Bus_Reserve m owner sub) b = drop_status (switch_event_reserve_subclass m owner sub b)"
| "bus_step (Bus_Free owner sub) b = drop_status (switch_event_free_subclass owner sub b)"

text \<open>\<open>bus_rep live b\<close>: the lists of the bus are the live bindings sorted by type, and their addresses are all different.\<close>

definition bus_rep :: "event_node list \<Rightarrow> event_bus \<Rightarrow> bool" where
  "bus_rep live b \<longleftrightarrow> (\<forall>i. eb_nodes b i = filter (\<lambda>n. en_event_id n = i) live) \<and>
     distinct (map en_addr live) \<and> (\<forall>n \<in> set live. en_addr n < eb_fresh b \<and> en_event_id n \<le> SWITCH_EVENT_ALL)"

inductive live_step :: "bus_op \<Rightarrow> event_node list \<Rightarrow> event_node list \<Rightarrow> bool" where
  bound: "event \<le> SWITCH_EVENT_ALL \<Longrightarrow> a \<notin> en_addr ` set live \<Longrightarrow>
    live_step (Bus_Bind m owner_id event sub callback user_data) live
      (\<lparr>en_addr = a, en_id = owner_id, en_event_id = event, en_subclass_name = sub, en_callback = callback, en_user_data = user_data\<rparr> # live)"
| not_bound: "\<not> event \<le> SWITCH_EVENT_ALL \<Longrightarrow> live_step (Bus_Bind m owner_id event sub callback user_data) live live"
| unbound_callback: "live_step (Bus_Unbind_Callback callback) live (filter (\<lambda>n. en_callback n \<noteq> callback) live)"
| unbound: "live_step (Bus_Unbind (Some a)) live (filter (\<lambda>n. en_addr n \<noteq> a) live)"
| no_handle: "live_step (Bus_Unbind None) live live"
| reserved: "live_step (Bus_Reserve m owner sub) live live"
| freed: "live_step (Bus_Free owner sub) live live"

lemma registry_keeps:
  "switch_event_reserve_subclass m owner sub b = Inr (r, b') \<Longrightarrow> eb_nodes b' = eb_nodes b \<and> eb_fresh b \<le> eb_fresh b'"
  "switch_event_free_subclass owner sub b = Inr (r, b') \<Longrightarrow> eb_nodes b' = eb_nodes b \<and> eb_fresh b \<le> eb_fresh b'"
  by (auto simp: switch_event_reserve_subclass_def switch_event_free_subclass_def Let_def bindE_eq_Inr split: option.splits if_splits prod.splits)

lemma bind_subclass_keeps: "bind_subclass m owner sub b = Inr b' \<Longrightarrow> eb_nodes b' = eb_nodes b \<and> eb_fresh b \<le> eb_fresh b'"
proof -
  assume *: "bind_subclass m owner sub b = Inr b'"
  show ?thesis
  proof (cases "switch_core_hash_find (eb_custom b) sub")
    case None
    then obtain r c where rc: "switch_event_reserve_subclass m owner sub b = Inr (r, c)"
      using * by (cases "switch_event_reserve_subclass m owner sub b") (auto simp: bind_subclass_def)
    then obtain p where p: "switch_core_hash_find (eb_custom c) sub = Some p"
      using * None by (cases "switch_core_hash_find (eb_custom c) sub") (simp_all add: bind_subclass_def)
    then obtain t where "b' = c\<lparr>eb_subclasses := t\<rparr>"
      using * None rc by (cases "eb_subclasses c p") (auto simp: bind_subclass_def)
    then show ?thesis using registry_keeps(1) [OF rc] by simp
  qed (use * in \<open>simp add: bind_subclass_def\<close>)
qed

lemma bus_rep_keeps: "bus_rep live b \<Longrightarrow> eb_nodes b' = eb_nodes b \<and> eb_fresh b \<le> eb_fresh b' \<Longrightarrow> bus_rep live b'"
  by (auto simp: bus_rep_def)

lemma unbind_walk_spec:
  assumes "\<forall>n \<in> set np. en_event_id n = i" and "nodes i = kept @ np"
  shows "unbind_walk callback kept np nodes i found =
    (found \<or> (\<exists>n \<in> set np. en_callback n = callback), nodes(i := kept @ filter (\<lambda>n. en_callback n \<noteq> callback) np))"
  using assms
proof (induction np arbitrary: kept nodes found)
  case (Cons n np)
  show ?case
  proof (cases "en_callback n = callback")
    case True
    define N where "N = nodes(i := kept @ np)"
    have "nodes(en_event_id n := np) = N" if "kept = []" using Cons.prems(1) that by (simp add: N_def)
    then have "unbind_walk callback kept (n # np) nodes i found = unbind_walk callback kept np N i True"
      using True by (simp flip: N_def)
    moreover have "N i = kept @ np" by (simp add: N_def)
    moreover have "N(i := z) = nodes(i := z)" for z by (simp add: N_def)
    ultimately show ?thesis using Cons.IH [of N kept True] Cons.prems(1) True by simp
  next
    case False
    then show ?thesis using Cons.IH [of nodes "kept @ [n]" found] Cons.prems by simp
  qed
qed auto

lemma unbind_lists_spec:
  assumes "\<And>i. \<forall>n \<in> set (nodes i). en_event_id n = i"
  shows "snd (unbind_lists callback is nodes found) i = (if i \<in> set is then filter (\<lambda>n. en_callback n \<noteq> callback) (nodes i) else nodes i)"
  using assms
proof (induction "is" arbitrary: nodes found)
  case (Cons j js)
  let ?f = "\<lambda>n. en_callback n \<noteq> callback"
  have w: "unbind_walk callback [] (nodes j) nodes j found =
      (found \<or> (\<exists>n \<in> set (nodes j). en_callback n = callback), nodes(j := filter ?f (nodes j)))"
    using unbind_walk_spec [of "nodes j" j nodes "[]" callback found] Cons.prems by simp
  define N where "N = nodes(j := filter ?f (nodes j))"
  have "\<forall>n \<in> set (N k). en_event_id n = k" for k using Cons.prems [of k] by (simp add: N_def)
  then have "snd (unbind_lists callback js N g) i = (if i \<in> set js then filter ?f (N i) else N i)" for g by (rule Cons.IH)
  moreover have "unbind_lists callback (j # js) nodes found = unbind_lists callback js N (found \<or> (\<exists>n \<in> set (nodes j). en_callback n = callback))"
    using w by (simp flip: N_def)
  ultimately show ?case by (auto simp: N_def)
qed simp

lemma unlink_node_spec:
  "distinct (map en_addr np) \<Longrightarrow> unlink_node a np = (\<exists>n \<in> set np. en_addr n = a, filter (\<lambda>n. en_addr n \<noteq> a) np)"
proof (induction np)
  case (Cons n np)
  then have "\<forall>m \<in> set np. en_addr m \<noteq> en_addr n" by (auto intro: rev_image_eqI)
  then have "filter (\<lambda>m. en_addr m \<noteq> en_addr n) np = np" by (simp add: filter_id_conv)
  then show ?case using Cons by auto
qed simp

lemma bus_rep_type: "bus_rep live b \<Longrightarrow> \<forall>n \<in> set (eb_nodes b i). en_event_id n = i"
  by (simp add: bus_rep_def)

lemma bus_bind_live:
  assumes "bus_rep live b" and "switch_event_bind m owner_id event sub callback user_data b = Inr (r, b')"
  shows "\<exists>live'. live_step (Bus_Bind m owner_id event sub callback user_data) live live' \<and> bus_rep live' b'"
proof -
  obtain c where c: "(case sub of None \<Rightarrow> Inr b | Some s \<Rightarrow> bind_subclass m owner_id s b) = Inr c"
    using assms(2) unfolding switch_event_bind_def switch_event_bind_removable_def bindE_eq_Inr by blast
  then have "eb_nodes c = eb_nodes b \<and> eb_fresh b \<le> eb_fresh c" by (cases sub) (auto dest: bind_subclass_keeps)
  then have rep: "bus_rep live c" by (rule bus_rep_keeps [OF assms(1)])
  show ?thesis
  proof (cases "event \<le> SWITCH_EVENT_ALL")
    case True
    let ?n = "\<lparr>en_addr = eb_fresh c, en_id = owner_id, en_event_id = event, en_subclass_name = sub, en_callback = callback, en_user_data = user_data\<rparr>"
    have b': "b' = c\<lparr>eb_nodes := (eb_nodes c)(event := ?n # eb_nodes c event), eb_fresh := Suc (eb_fresh c)\<rparr>"
      using assms(2) c True by (simp add: switch_event_bind_def switch_event_bind_removable_def Let_def)
    have fresh: "eb_fresh c \<notin> en_addr ` set live" using rep by (auto simp: bus_rep_def)
    then have "bus_rep (?n # live) b'" using rep True by (auto simp: bus_rep_def b' less_Suc_eq)
    then show ?thesis using live_step.bound [OF True fresh] by blast
  next
    case False
    then have "b' = c" using assms(2) c by (simp add: switch_event_bind_def switch_event_bind_removable_def)
    then show ?thesis using rep live_step.not_bound [OF False] by blast
  qed
qed

lemma bus_unbind_callback_live:
  assumes "bus_rep live b"
  shows "bus_rep (filter (\<lambda>n. en_callback n \<noteq> callback) live) (snd (switch_event_unbind_callback callback b))"
proof -
  let ?f = "\<lambda>n. en_callback n \<noteq> callback" and ?is = "[0..<Suc SWITCH_EVENT_ALL]"
  define u where "u = unbind_lists callback ?is (eb_nodes b) False"
  have all: "eb_nodes b i = []" if "i \<notin> set ?is" for i
    using assms that by (fastforce simp: bus_rep_def filter_empty_conv)
  have "snd u i = filter ?f (eb_nodes b i)" for i
    using unbind_lists_spec [of "eb_nodes b" callback ?is False i] bus_rep_type [OF assms] all [of i] by (simp add: u_def del: upt_Suc)
  moreover have "snd (switch_event_unbind_callback callback b) = b\<lparr>eb_nodes := snd u\<rparr>"
    by (simp add: switch_event_unbind_callback_def u_def split: prod.split del: upt_Suc)
  ultimately show ?thesis using assms by (auto simp: bus_rep_def distinct_map inj_on_def conj_commute)
qed

lemma bus_unbind_live:
  assumes "bus_rep live b" and "switch_event_unbind (Some a) b = Inr (r, h, b')"
  shows "bus_rep (filter (\<lambda>n. en_addr n \<noteq> a) live) b'"
proof -
  obtain n where n: "node_at b a = Some n" using assms(2) by (cases "node_at b a") (simp_all add: switch_event_unbind_def)
  then have "n \<in> set (concat (map (eb_nodes b) [0..<Suc SWITCH_EVENT_ALL]))" "en_addr n = a"
    unfolding node_at_def find_Some_iff by (metis nth_mem, blast)
  then have mem: "n \<in> set live" "en_addr n = a" using assms(1) by (auto simp: bus_rep_def simp del: upt_Suc)
  have only: "m = n" if "m \<in> set live" "en_addr m = a" for m
    using assms(1) mem that by (auto simp: bus_rep_def distinct_map inj_on_def)
  let ?i = "en_event_id n"
  have "distinct (map en_addr (eb_nodes b ?i))" using assms(1) by (auto simp: bus_rep_def distinct_map inj_on_def)
  then have u: "unlink_node a (eb_nodes b ?i) = (\<exists>m \<in> set (eb_nodes b ?i). en_addr m = a, filter (\<lambda>m. en_addr m \<noteq> a) (eb_nodes b ?i))"
    by (rule unlink_node_spec)
  have "\<exists>m \<in> set (eb_nodes b ?i). en_addr m = a" using mem assms(1) by (auto simp: bus_rep_def)
  then have b': "b' = b\<lparr>eb_nodes := (eb_nodes b)(?i := filter (\<lambda>m. en_addr m \<noteq> a) (eb_nodes b ?i))\<rparr>"
    using assms(2) n u by (simp add: switch_event_unbind_def)
  have "filter (\<lambda>m. en_event_id m = j) (filter (\<lambda>m. en_addr m \<noteq> a) live) = filter (\<lambda>m. en_event_id m = j) live" if "j \<noteq> ?i" for j
    using only that unfolding filter_filter by (intro filter_cong) auto
  then show ?thesis using assms(1) by (auto simp: bus_rep_def b' distinct_map inj_on_def conj_commute)
qed

lemma bus_step_live:
  assumes "bus_rep live b" and "bus_step x b = Inr b'"
  shows "\<exists>live'. live_step x live live' \<and> bus_rep live' b'"
proof (cases x)
  case (Bus_Bind m owner_id event sub callback user_data)
  then show ?thesis using bus_bind_live [OF assms(1)] assms(2) by (auto simp: drop_status_def bindE_eq_Inr)
next
  case (Bus_Unbind_Callback callback)
  then have "b' = snd (switch_event_unbind_callback callback b)" using assms(2) by simp
  then show ?thesis using bus_unbind_callback_live [OF assms(1), of callback] live_step.unbound_callback [of callback live] Bus_Unbind_Callback by blast
next
  case (Bus_Unbind node)
  then obtain r h where u: "switch_event_unbind node b = Inr (r, h, b')" using assms(2) by (auto simp: bindE_eq_Inr)
  show ?thesis
  proof (cases node)
    case None
    then have "b' = b" using u by (simp add: switch_event_unbind_def)
    then show ?thesis using assms(1) live_step.no_handle [of live] Bus_Unbind None by blast
  next
    case (Some a)
    then show ?thesis using bus_unbind_live [OF assms(1)] u live_step.unbound [of a live] Bus_Unbind by blast
  qed
next
  case (Bus_Reserve m owner sub)
  then obtain r where "switch_event_reserve_subclass m owner sub b = Inr (r, b')" using assms(2) by (auto simp: drop_status_def bindE_eq_Inr)
  then have "bus_rep live b'" using bus_rep_keeps [OF assms(1)] registry_keeps(1) by blast
  then show ?thesis using live_step.reserved [of m owner sub live] Bus_Reserve by blast
next
  case (Bus_Free owner sub)
  then obtain r where "switch_event_free_subclass owner sub b = Inr (r, b')" using assms(2) by (auto simp: drop_status_def bindE_eq_Inr)
  then have "bus_rep live b'" using bus_rep_keeps [OF assms(1)] registry_keeps(2) by blast
  then show ?thesis using live_step.freed [of owner sub live] Bus_Free by blast
qed

inductive live_run :: "bus_op list \<Rightarrow> event_node list \<Rightarrow> event_node list \<Rightarrow> bool" where
  no_ops: "live_run [] live live"
| more: "live_step x live live' \<Longrightarrow> live_run xs live' live'' \<Longrightarrow> live_run (x # xs) live live''"

lemma bus_run_live:
  "run_ops bus_step xs b = Inr b' \<Longrightarrow> bus_rep live b \<Longrightarrow> \<exists>live'. live_run xs live live' \<and> bus_rep live' b'"
proof (induction xs arbitrary: b live)
  case Nil
  then show ?case using live_run.no_ops [of live] by auto
next
  case (Cons x xs)
  then obtain c where c: "bus_step x b = Inr c" "run_ops bus_step xs c = Inr b'" by (auto simp: bindE_eq_Inr)
  obtain l where l: "live_step x live l" "bus_rep l c" using bus_step_live [OF Cons.prems(2) c(1)] by blast
  obtain l' where "live_run xs l l'" "bus_rep l' b'" using Cons.IH [OF c(2) l(2)] by blast
  then show ?case using live_run.more [OF l(1)] by blast
qed

section \<open>Properties\<close>

lemma match_user_data [simp]: "switch_events_match (ev\<lparr>ev_bind_user_data := u\<rparr>) n = switch_events_match ev n"
proof -
  have "switch_event_get_header (ev\<lparr>ev_bind_user_data := u\<rparr>) name = switch_event_get_header ev name" for name
    by (simp add: switch_event_get_header_def switch_event_get_header_idx_def switch_event_get_header_ptr_def Let_def split: option.split)
  then show ?thesis by (simp add: switch_events_match_def subclass_match_def Let_def split: option.split)
qed

definition called :: "(nat \<Rightarrow> event \<Rightarrow> 'w \<Rightarrow> event \<times> 'w) \<Rightarrow> event \<Rightarrow> event_node \<Rightarrow> 'w \<Rightarrow> 'w" where
  "called run ev n w = snd (run (en_callback n) (ev\<lparr>ev_bind_user_data := en_user_data n\<rparr>) w)"

lemma deliver_list_calls:
  assumes "\<And>cb ev w. fst (run cb ev w) = ev"
  shows "(\<exists>u. fst (deliver_list run ns (ev\<lparr>ev_bind_user_data := v\<rparr>) w) = ev\<lparr>ev_bind_user_data := u\<rparr>) \<and>
    snd (deliver_list run ns (ev\<lparr>ev_bind_user_data := v\<rparr>) w) = fold (called run ev) (filter (switch_events_match ev) ns) w"
proof (induction ns arbitrary: v w)
  case (Cons n ns)
  show ?case
  proof (cases "switch_events_match ev n")
    case True
    have "run (en_callback n) (ev\<lparr>ev_bind_user_data := en_user_data n\<rparr>) w = (ev\<lparr>ev_bind_user_data := en_user_data n\<rparr>, called run ev n w)"
      using assms [of "en_callback n" "ev\<lparr>ev_bind_user_data := en_user_data n\<rparr>" w] by (simp add: called_def prod_eq_iff)
    then show ?thesis using True Cons [of "en_user_data n" "called run ev n w"] by simp
  next
    case False
    then show ?thesis using Cons [of v w] by simp
  qed
qed auto

definition addressed :: "event \<Rightarrow> event_node list \<Rightarrow> event_node list" where
  "addressed ev live = filter (switch_events_match ev)
     (filter (\<lambda>n. en_event_id n = ev_event_id ev) live @
      (if ev_event_id ev = SWITCH_EVENT_ALL then [] else filter (\<lambda>n. en_event_id n = SWITCH_EVENT_ALL) live))"

lemma deliver_addressed:
  assumes "bus_rep live b" and run: "\<And>cb ev w. fst (run cb ev w) = ev"
  shows "switch_event_deliver run True b ev w = fold (called run ev) (addressed ev live) w"
proof -
  let ?A = "eb_nodes b (ev_event_id ev)" and ?B = "eb_nodes b SWITCH_EVENT_ALL"
  have self: "ev\<lparr>ev_bind_user_data := ev_bind_user_data ev\<rparr> = ev" by simp
  obtain u where u: "fst (deliver_list run ?A ev w) = ev\<lparr>ev_bind_user_data := u\<rparr>"
      "snd (deliver_list run ?A ev w) = fold (called run ev) (filter (switch_events_match ev) ?A) w"
    using deliver_list_calls [of run, OF run, where ns = ?A and ev = ev and v = "ev_bind_user_data ev" and w = w] unfolding self by blast
  have "snd (deliver_list run ?B (ev\<lparr>ev_bind_user_data := u\<rparr>) w') = fold (called run ev) (filter (switch_events_match ev) ?B) w'" for w'
    using deliver_list_calls [of run, OF run] by blast
  moreover have "deliver_list run ?A ev w = (ev\<lparr>ev_bind_user_data := u\<rparr>, fold (called run ev) (filter (switch_events_match ev) ?A) w)"
    using u by (simp add: prod_eq_iff)
  moreover have "?A = filter (\<lambda>n. en_event_id n = ev_event_id ev) live" "?B = filter (\<lambda>n. en_event_id n = SWITCH_EVENT_ALL) live"
    using assms(1) by (simp_all add: bus_rep_def)
  ultimately show ?thesis by (simp add: switch_event_deliver_def addressed_def)
qed

lemma empty_bus_rep: "\<forall>i. eb_nodes b i = [] \<Longrightarrow> bus_rep [] b"
  by (simp add: bus_rep_def)

text \<open>C7. Whatever bindings and removals have been made, delivering an event to callbacks that leave the event itself alone calls exactly the live
  bindings it matches, each once: those of its own type, then those of all types, in both the newest first. The live bindings are those made
  and not removed since by their callback or by their handle.\<close>

theorem event_delivery_exact:
  assumes "\<forall>i. eb_nodes b0 i = []" and "run_ops bus_step ops b0 = Inr b" and "\<And>cb ev w. fst (run cb ev w) = ev"
  shows "\<exists>live. live_run ops [] live \<and> distinct (map en_addr live) \<and>
    switch_event_deliver run True b ev w = fold (called run ev) (addressed ev live) w"
proof -
  obtain live where live: "live_run ops [] live" "bus_rep live b"
    using bus_run_live [OF assms(2) empty_bus_rep [OF assms(1)]] by blast
  then have "distinct (map en_addr live)" by (simp add: bus_rep_def)
  then show ?thesis using live deliver_addressed [OF live(2), of run, OF assms(3)] by blast
qed

inductive_cases live_run_Cons: "live_run (x # xs) live live'"
inductive_cases live_run_Nil: "live_run [] live live'"
inductive_cases live_step_bound: "live_step (Bus_Bind m owner_id event sub callback user_data) live live'"

theorem event_delivery_exact_witness:
  "\<exists>b0 b. run_ops bus_step [Bus_Bind demo_mem ''me'' 7 None 5 (Some 9)] b0 = Inr b \<and>
     switch_event_deliver (\<lambda>cb ev w. (ev, w @ [(cb, ev_bind_user_data ev)])) True b (blank_event\<lparr>ev_event_id := 7\<rparr>) [] = [(5, Some 9)]"
proof -
  obtain h :: "nat switch_hash" where "ht_wf (\<lambda>k. k) h" using switch_core_hash_init_spec [of "\<lambda>k. k" True] by auto
  define b0 where "b0 = \<lparr>eb_nodes = (\<lambda>_. []), eb_custom = h, eb_subclasses = Map.empty, eb_fresh = 0\<rparr>"
  let ?op = "Bus_Bind demo_mem ''me'' 7 None 5 (Some 9)" and ?run = "\<lambda>cb ev w. (ev, w @ [(cb :: nat, ev_bind_user_data ev)])"
  let ?ev = "blank_event\<lparr>ev_event_id := 7\<rparr>"
  have "\<exists>b. run_ops bus_step [?op] b0 = Inr b"
    by (simp add: drop_status_def switch_event_bind_def switch_event_bind_removable_def SWITCH_EVENT_ALL_def Let_def)
  then obtain b where b: "run_ops bus_step [?op] b0 = Inr b" ..
  have "\<forall>i. eb_nodes b0 i = []" by (simp add: b0_def)
  from event_delivery_exact [OF this b, of ?run ?ev "[]"] obtain live where
      live: "live_run [?op] [] live" "switch_event_deliver ?run True b ?ev [] = fold (called ?run ?ev) (addressed ?ev live) []"
    by auto
  then obtain a where "live = [\<lparr>en_addr = a, en_id = ''me'', en_event_id = 7, en_subclass_name = None, en_callback = 5, en_user_data = Some 9\<rparr>]"
    by (elim live_run_Cons live_run_Nil live_step_bound) (simp_all add: SWITCH_EVENT_ALL_def)
  then show ?thesis using b live(2)
    by (auto simp: addressed_def called_def switch_events_match_def SWITCH_EVENT_ALL_def blank_event_def Let_def)
qed

text \<open>The test that decides on another dispatch thread and the test that starts it exclude each other: however full the
  queue is, none is ever started.\<close>

lemma dispatch_never_launches:
  "switch_event_queue_dispatch_event push qsize launch running eventp d =
   switch_event_queue_dispatch_event push qsize (\<lambda>_ d. d) running eventp d"
proof -
  have "\<not> dq_soft_max d + 1 < dq_max d" if "dq_soft_max d + 1 > dq_max d" using that by simp
  then show ?thesis by (simp add: switch_event_queue_dispatch_event_def Let_def split: option.split)
qed

end
