(* ===== verification/Spec2Isabelle.thy ===== *)
theory Spec2Isabelle
  imports FS_Buffer FS_CoreHash FS_PortAllocator FS_Scheduler FS_Search FS_Encode FS_Base64 FS_NetList FS_When FS_Channel FS_EventText FS_HashMulti FS_EventBus
begin

text \<open>
  A verification development of the core library of a telephony switch, the C sources under
  \<^verbatim>\<open>src/src/lib/libfreeswitch\<close> with their headers under \<^verbatim>\<open>src/src/include\<close>.

  \<^bold>\<open>The program.\<close> The core library holds the data structures and services that the modules of the switch
  share. Hash tables register everything by name; byte buffers carry media and messages; the port
  allocator gives RTP ports to calls; the scheduler runs tasks at their times; network lists decide on
  addresses; text functions parse and print arguments, URLs, times and markup. On top of these stand the channel, the state machine
  of one leg of a call, and the events, by which all parts report to each other.

  \<^bold>\<open>How C is modelled.\<close> A struct is a record, an enum a data type or a numbered constant, a machine integer
  a word or a number with its wrap-around written out, a C string the list of its characters before the NUL, a buffer
  a list of bytes of its real size. A fallible computation has the type \<open>'a c = c_fault + 'a\<close> of \<open>FS_Prelude\<close>: a failed assertion, a
  dereference of NULL, an access outside an object, the use of an indeterminate pointer and a call of \<open>abort\<close> are values. Loops that
  may not end are partial functions in the option monad or have fuel. State is passed explicitly. Code outside the sources and
  other parts of the runtime (allocation, clocks, sockets, \<open>inet_pton\<close>, \<open>mktime\<close>, callbacks, task functions) are parameters.

  \<^bold>\<open>The theories.\<close>
  \<^item> \<open>FS_Prelude\<close>: types, faults, checked memory, \<open>size_t\<close>, the locale \<open>op_system\<close> of operations with an invariant.
  \<^item> \<open>FS_Buffer\<close> (\<^verbatim>\<open>switch_buffer.c\<close>): creation, reads, looping reads, writes with compaction and growth, sliding writes. A
    well-formed buffer is a queue of bytes (locale \<open>byte_fifo\<close>); the outcome of every write; the deliveries of looping reads for any
    request size.
  \<^item> \<open>FS_Hashtable\<close>, \<open>FS_CoreHash\<close>, \<open>FS_HashMulti\<close> (\<^verbatim>\<open>switch_hashtable.c\<close>, \<^verbatim>\<open>switch_core_hash.c\<close>): insertion with duplicate check and expansion,
    search, removal, iteration, conditional removal. The tables refine finite maps, with and without case (locale
    \<open>assoc_store\<close>, interpreted as \<open>chash\<close> and \<open>chash_ci\<close>); iteration is complete and ends; the load stays bounded.
  \<^item> \<open>FS_PortAllocator\<close> (\<^verbatim>\<open>switch_core_port_allocator.c\<close>): creation, request, release, quarantine. Clients never share a
    port, whichever robustness tests are on; without them every request returns and respects the quarantine.
  \<^item> \<open>FS_Scheduler\<close> (\<^verbatim>\<open>switch_scheduler.c\<close>): additions, deletions, the passes of the scheduler thread, tasks in threads of their own,
    the bounded event queue. No task runs early in any reachable state (\<open>sched_reach\<close>); what an undisturbed pass does; when a pass returns.
  \<^item> \<open>FS_Chars\<close>, \<open>FS_Text\<close>, \<open>FS_Search\<close> (\<^verbatim>\<open>switch_utils.c\<close>, \<^verbatim>\<open>switch_utils.h\<close>): C library functions, word-wide case conversion, predicates,
    cleaning, parameters, replacement; equivalence with character-wise specifications.
  \<^item> \<open>FS_Encode\<close>, \<open>FS_Base64\<close>, \<open>FS_Split\<close> (\<^verbatim>\<open>switch_utils.c\<close>): percent encoding, shell quoting, dial patterns, Base64, argument splitting; round
    trips, and that no write leaves the buffer.
  \<^item> \<open>FS_NetList\<close> (\<^verbatim>\<open>switch_utils.c\<close>): CIDR and mask entries, validation of IPv4 and IPv6 addresses; the longest
    prefix decides (locale \<open>longest_walk\<close>, interpreted as \<open>acl4\<close> and \<open>acl6\<close>). A shift by the full width is a parameter.
  \<^item> \<open>FS_When\<close> (\<^verbatim>\<open>switch_utils.c\<close>, \<^verbatim>\<open>switch_xml.c\<close>): conditions on days, numbers, times and dates.
  \<^item> \<open>FS_ChannelTypes\<close>, \<open>FS_Channel\<close> (\<^verbatim>\<open>switch_channel.c\<close>): states, call states, causes, flags, hold, ring, pre-answer, answer, hangup.
    The code an operation calls may operate on the channel before it returns; the relation \<open>advances\<close> is kept by every operation all
    the same (locale \<open>forward_system\<close>, interpreted as \<open>chan\<close>), from which follow the finality of a hangup and the typing of the
    state. The outcomes of setting the state, hanging up and answering are stated branch by branch.
  \<^item> \<open>FS_Event\<close>, \<open>FS_EventText\<close>, \<open>FS_EventBus\<close> (\<^verbatim>\<open>switch_event.c\<close>): headers and arrays, copying, the text form, subclasses,
    bindings and delivery. Unique headers refine a map; arrays and text are read back; delivery calls exactly the live bindings that match.

  \<^bold>\<open>Bounds and fuel.\<close> \<open>switch_core_hash_delete_multi\<close> walks with fuel, for which one more than the number of entries is proved to be enough. Headers of
    an event number fewer than a million in the theorems that delete by name, the bound the code asserts there. The event queue
    of the scheduler holds 250000 events, as in the code; the theorems on passes ask for room for two events per task, at most one when it runs and
    one when it is removed. Times of the scheduler and sums of seconds are unbounded integers.

  \<^bold>\<open>What is not modelled.\<close> Sessions and their threads, the media path, IVR, the start of the runtime, databases, files, speech and the loadable
    modules, which are input and output, signal processing or drivers of the parts above; the XML parser, which works in place on
    a mutable document; variables, caller profiles and state handlers of a channel, which its environment answers for; the JSON, XML and binary
    forms of events and the expansion of variables. Creating an event in the scheduler and allocations the code asserts succeed.
    Locks are not modelled: an operation that holds one is a single step.
\<close>

end
